(* ===== verification/Prelude.thy ===== *)
theory Prelude
  imports Main "HOL-Library.Word"
begin

text \<open>
  Shared vocabulary of the development: the ways in which C++ code can fail, \<^verbatim>\<open>size_t\<close>
  arithmetic with its wrap-around, bounds-checked writes into a byte array, C strings and
  \<^verbatim>\<open>snprintf\<close>, decimal printing and reading of integers, and the transition-system locale
  through which every concurrent component proves its invariants.
\<close>

section \<open>Lemma collections\<close>

named_theorems buf_simps "rewrite rules for byte buffers and their invariants"
named_theorems inv_intros "introduction rules for component invariants"

section \<open>Failures of the C++ abstract machine\<close>

text \<open>
  Operations whose C++ original can throw, abort or leave the defined behaviour of the language
  return a value of \<open>cxx_error + 'a\<close>.
\<close>

datatype cxx_error =
    Length_Error    \<comment> \<open>\<^verbatim>\<open>std::length_error\<close>, thrown by \<^verbatim>\<open>std::vector::resize\<close>\<close>
  | System_Error    \<comment> \<open>\<^verbatim>\<open>std::system_error\<close>, thrown by \<^verbatim>\<open>std::thread\<close>\<close>
  | Out_Of_Bounds   \<comment> \<open>a write or read outside an array\<close>
  | Null_Deref      \<comment> \<open>a member call through a null pointer\<close>
  | Aborted         \<comment> \<open>\<^verbatim>\<open>abort()\<close>, reached through \<^verbatim>\<open>LOG_FATAL\<close>\<close>
  | Terminated      \<comment> \<open>\<^verbatim>\<open>std::terminate\<close>\<close>

type_synonym 'a result = "cxx_error + 'a"
type_synonym fd = int
type_synonym errno = int
type_synonym tid = int

definition bind_res :: "'a result \<Rightarrow> ('a \<Rightarrow> 'b result) \<Rightarrow> 'b result" where
  "bind_res r f = (case r of Inl e \<Rightarrow> Inl e | Inr x \<Rightarrow> f x)"

lemma bind_res_simps [simp]:
  "bind_res (Inl e) f = Inl e"
  "bind_res (Inr x) f = f x"
  by (simp_all add: bind_res_def)

lemma bind_res_eq_Inr:
  "bind_res r f = Inr y \<longleftrightarrow> (\<exists>x. r = Inr x \<and> f x = Inr y)"
  by (cases r) simp_all

lemma bind_res_eq_Inl:
  "bind_res r f = Inl e \<longleftrightarrow> r = Inl e \<or> (\<exists>x. r = Inr x \<and> f x = Inl e)"
  by (cases r) simp_all

lemma bind_res_assoc:
  "bind_res (bind_res r f) g = bind_res r (\<lambda>x. bind_res (f x) g)"
  by (cases r) simp_all

lemma bind_res_Inr [simp]: "bind_res r Inr = r"
  by (cases r) simp_all

section \<open>Unsigned size arithmetic\<close>

text \<open>\<^verbatim>\<open>size_t\<close> is 64 bits wide; sums and differences wrap around.\<close>

abbreviation size_mod :: nat where
  "size_mod \<equiv> 18446744073709551616"

definition size_add :: "nat \<Rightarrow> nat \<Rightarrow> nat" where
  "size_add a b = (a + b) mod size_mod"

definition size_sub :: "nat \<Rightarrow> nat \<Rightarrow> nat" where
  "size_sub a b = (a + (size_mod - b mod size_mod)) mod size_mod"

definition size_of_int :: "int \<Rightarrow> nat" where
  "size_of_int i = nat (i mod int size_mod)"

lemma size_add_exact [simp]: "a + b < size_mod \<Longrightarrow> size_add a b = a + b"
  by (simp add: size_add_def)

lemma size_sub_exact [simp]:
  assumes "b \<le> a" "a < size_mod"
  shows "size_sub a b = a - b"
proof -
  have "a + (size_mod - b mod size_mod) = (a - b) + size_mod"
    using assms by simp
  then have "size_sub a b = ((a - b) + size_mod) mod size_mod"
    by (simp only: size_sub_def)
  also have "\<dots> = (a - b) mod size_mod" by (rule mod_add_self2)
  finally show ?thesis using assms by simp
qed

lemma size_of_int_exact [simp]: "0 \<le> i \<Longrightarrow> i < int size_mod \<Longrightarrow> size_of_int i = nat i"
  by (simp add: size_of_int_def)

lemma size_of_int_of_nat [simp]: "n < size_mod \<Longrightarrow> size_of_int (int n) = n"
  by (simp add: size_of_int_def)

section \<open>Byte arrays\<close>

text \<open>
  \<open>overwrite xs i ys\<close> is the array \<open>xs\<close> after the bytes \<open>ys\<close> were copied to offset \<open>i\<close>;
  \<open>mem_write\<close> is the same copy with the range check the language leaves to the programmer.
\<close>

definition overwrite :: "'a list \<Rightarrow> nat \<Rightarrow> 'a list \<Rightarrow> 'a list" where
  "overwrite xs i ys = take i xs @ ys @ drop (i + length ys) xs"

definition mem_write :: "'a list \<Rightarrow> nat \<Rightarrow> 'a list \<Rightarrow> 'a list result" where
  "mem_write xs i ys =
     (if i + length ys \<le> length xs then Inr (overwrite xs i ys) else Inl Out_Of_Bounds)"

definition slice :: "'a list \<Rightarrow> nat \<Rightarrow> nat \<Rightarrow> 'a list" where
  "slice xs i j = take (j - i) (drop i xs)"

lemma length_overwrite [simp]:
  "i + length ys \<le> length xs \<Longrightarrow> length (overwrite xs i ys) = length xs"
  by (simp add: overwrite_def)

lemma mem_write_ok [simp]:
  "i + length ys \<le> length xs \<Longrightarrow> mem_write xs i ys = Inr (overwrite xs i ys)"
  by (simp add: mem_write_def)

lemma take_overwrite_before [simp]:
  "n \<le> i \<Longrightarrow> i \<le> length xs \<Longrightarrow> take n (overwrite xs i ys) = take n xs"
  by (simp add: overwrite_def min_def)

lemma take_overwrite_after:
  "i \<le> length xs \<Longrightarrow> take (i + length ys) (overwrite xs i ys) = take i xs @ ys"
  by (simp add: overwrite_def)

lemma overwrite_Nil [simp]: "overwrite xs i [] = xs"
  by (simp add: overwrite_def)

lemma overwrite_overwrite:
  assumes "length zs = length ys" "i + length ys \<le> length xs"
  shows "overwrite (overwrite xs i ys) i zs = overwrite xs i zs"
proof -
  have "take i (overwrite xs i ys) = take i xs" using assms by simp
  moreover have "drop (i + length ys) (overwrite xs i ys) = drop (i + length ys) xs"
    using assms by (simp add: overwrite_def)
  ultimately show ?thesis using assms by (simp add: overwrite_def [of "overwrite xs i ys"] overwrite_def [of xs i zs])
qed

lemma length_slice [simp]: "j \<le> length xs \<Longrightarrow> length (slice xs i j) = j - i"
  by (simp add: slice_def)

lemma slice_empty [simp]: "slice xs i i = []"
  by (simp add: slice_def)

lemma slice_overwrite_extend:
  assumes "i \<le> j" "j + length ys \<le> length xs"
  shows "slice (overwrite xs j ys) i (j + length ys) = slice xs i j @ ys"
proof -
  have "drop i (overwrite xs j ys) = drop i (take j xs) @ ys @ drop (j + length ys) xs"
    using assms by (simp add: overwrite_def)
  then show ?thesis
    using assms by (simp add: slice_def drop_take)
qed

lemma slice_overwrite_exact:
  assumes "i + length ys \<le> length xs"
  shows "slice (overwrite xs i ys) i (i + length ys) = ys"
  using slice_overwrite_extend [of i i ys xs] assms by simp

lemma slice_append_left [simp]: "j \<le> length xs \<Longrightarrow> slice (xs @ ys) i j = slice xs i j"
  by (cases "i \<le> j") (simp_all add: slice_def)

lemma slice_drop: "slice xs (i + n) j = drop n (slice xs i j)"
  by (simp add: slice_def drop_take add.commute)

section \<open>Replacing one element of a list\<close>

lemma count_list_update:
  "i < length xs \<Longrightarrow>
     count_list (xs[i := v]) x + (if xs ! i = x then 1 else 0) =
     count_list xs x + (if v = x then 1 else 0)"
proof (induction xs arbitrary: i)
  case (Cons y ys)
  show ?case
  proof (cases i)
    case (Suc j)
    then show ?thesis using Cons.IH [of j] Cons.prems by (cases "y = x") auto
  qed simp
qed simp

lemma sum_list_map_update:
  "i < length xs \<Longrightarrow>
     sum_list (map f (xs[i := v])) + f (xs ! i) = sum_list (map f xs) + (f v :: nat)"
proof (induction xs arbitrary: i)
  case (Cons y ys)
  show ?case
  proof (cases i)
    case (Suc j)
    then show ?thesis using Cons.IH [of j] Cons.prems by simp
  qed simp
qed simp

lemma in_set_update:
  assumes "x \<in> set (xs[i := v])" "x \<noteq> v"
  shows "x \<in> set xs"
  using assms set_update_subset_insert [of xs i v] by auto

section \<open>C strings and formatted output\<close>

text \<open>
  A C string occupies the bytes before the first NUL.  \<open>snprintf_buf n s\<close> is the C string that
  \<^verbatim>\<open>snprintf(buf, n, ...)\<close> leaves in \<^verbatim>\<open>buf\<close> when the formatted text is \<open>s\<close>.
\<close>

definition NUL :: char where
  "NUL = CHR 0x00"

definition c_str :: "string \<Rightarrow> string" where
  "c_str s = takeWhile (\<lambda>c. c \<noteq> NUL) s"

definition strlen :: "string \<Rightarrow> nat" where
  "strlen s = length (c_str s)"

definition snprintf_buf :: "nat \<Rightarrow> string \<Rightarrow> string" where
  "snprintf_buf n s = take (n - 1) s"

lemma snprintf_buf_fits [simp]: "length s < n \<Longrightarrow> snprintf_buf n s = s"
  by (simp add: snprintf_buf_def)

lemma length_snprintf_buf: "0 < n \<Longrightarrow> length (snprintf_buf n s) < n"
  by (simp add: snprintf_buf_def)

lemma c_str_id [simp]: "NUL \<notin> set s \<Longrightarrow> c_str s = s"
  by (auto simp: c_str_def takeWhile_eq_all_conv)

section \<open>Decimal numbers\<close>

text \<open>
  \<open>dec_nat\<close> and \<open>dec_int\<close> are what the conversions \<^verbatim>\<open>%u\<close> and \<^verbatim>\<open>%d\<close> print; \<open>read_int\<close> reads such
  a text back.  They serve as the reference for the hand-written printing loop of the log stream.
\<close>

definition digit_char :: "nat \<Rightarrow> char" where
  "digit_char d = char_of (48 + d)"

fun dec_nat :: "nat \<Rightarrow> string" where
  "dec_nat n = (if n < 10 then [digit_char n] else dec_nat (n div 10) @ [digit_char (n mod 10)])"

declare dec_nat.simps [simp del]

definition dec_int :: "int \<Rightarrow> string" where
  "dec_int i = (if i < 0 then CHR ''-'' # dec_nat (nat (- i)) else dec_nat (nat i))"

definition read_nat :: "string \<Rightarrow> nat" where
  "read_nat s = foldl (\<lambda>acc c. acc * 10 + (of_char c - 48)) 0 s"

definition read_int :: "string \<Rightarrow> int" where
  "read_int s = (case s of [] \<Rightarrow> 0
     | c # cs \<Rightarrow> if c = CHR ''-'' then - int (read_nat cs) else int (read_nat s))"

lemma of_char_digit_char [simp]: "d < 10 \<Longrightarrow> of_char (digit_char d) = (48 + d :: nat)"
  by (simp add: digit_char_def)

lemma digit_char_not_minus: "d < 10 \<Longrightarrow> digit_char d \<noteq> CHR ''-''"
proof
  assume d: "d < 10" and "digit_char d = CHR ''-''"
  then have "(of_char (digit_char d) :: nat) = of_char (CHR ''-'')" by simp
  with d show False by simp
qed

lemma digit_char_not_NUL: "d < 10 \<Longrightarrow> digit_char d \<noteq> NUL"
proof
  assume d: "d < 10" and "digit_char d = NUL"
  then have "(of_char (digit_char d) :: nat) = of_char NUL" by simp
  with d show False by (simp add: NUL_def)
qed

lemma dec_nat_nonempty [simp]: "dec_nat n \<noteq> []"
  by (subst dec_nat.simps) simp

lemma dec_nat_digits: "c \<in> set (dec_nat n) \<Longrightarrow> \<exists>d < 10. c = digit_char d"
proof (induction n rule: dec_nat.induct)
  case (1 n)
  show ?case
  proof (cases "n < 10")
    case True
    with 1 show ?thesis by (auto simp: dec_nat.simps [of n])
  next
    case False
    then have "c \<in> set (dec_nat (n div 10)) \<or> c = digit_char (n mod 10)"
      using 1(2) by (auto simp: dec_nat.simps [of n])
    then show ?thesis
      using 1(1) False by (metis mod_less_divisor zero_less_numeral)
  qed
qed

lemma length_dec_nat: "n < 10 ^ k \<Longrightarrow> 0 < k \<Longrightarrow> length (dec_nat n) \<le> k"
proof (induction n arbitrary: k rule: dec_nat.induct)
  case (1 n)
  show ?case
  proof (cases "n < 10")
    case True
    with 1 show ?thesis by (simp add: dec_nat.simps [of n])
  next
    case False
    then obtain j where k: "k = Suc j" "0 < j"
      using 1(2,3) by (cases k; cases "k - 1") auto
    then have "n div 10 < 10 ^ j" using 1(2) by auto
    then have "length (dec_nat (n div 10)) \<le> j" using 1(1) False k by blast
    with k False show ?thesis by (simp add: dec_nat.simps [of n])
  qed
qed

lemma length_dec_nat_exact: "10 ^ k \<le> n \<Longrightarrow> n < 10 ^ Suc k \<Longrightarrow> length (dec_nat n) = Suc k"
proof (induction k arbitrary: n)
  case 0
  then show ?case by (simp add: dec_nat.simps [of n])
next
  case (Suc k)
  have "10 \<le> n" using Suc.prems(1) order_trans [of 10 "10 ^ Suc k" n] by simp
  moreover have "10 ^ k \<le> n div 10" "n div 10 < 10 ^ Suc k"
    using Suc.prems by (simp_all add: less_eq_div_iff_mult_less_eq div_less_iff_less_mult ac_simps)
  then have "length (dec_nat (n div 10)) = Suc k" by (rule Suc.IH)
  ultimately show ?case by (simp add: dec_nat.simps [of n])
qed

lemma read_nat_dec_nat [simp]: "read_nat (dec_nat n) = n"
proof (induction n rule: dec_nat.induct)
  case (1 n)
  show ?case
  proof (cases "n < 10")
    case True
    then show ?thesis by (simp add: dec_nat.simps [of n] read_nat_def)
  next
    case False
    then show ?thesis
      using 1 by (simp add: dec_nat.simps [of n] read_nat_def)
  qed
qed

lemma dec_nat_head_not_minus: "dec_nat n = c # cs \<Longrightarrow> c \<noteq> CHR ''-''"
  using dec_nat_digits [of c n] digit_char_not_minus by auto

lemma read_int_dec_int: "read_int (dec_int i) = i"
proof (cases "i < 0")
  case True
  then show ?thesis by (simp add: dec_int_def read_int_def)
next
  case False
  obtain c cs where s: "dec_nat (nat i) = c # cs"
    using dec_nat_nonempty [of "nat i"] by (cases "dec_nat (nat i)") auto
  have "int (read_nat (c # cs)) = i"
    using False read_nat_dec_nat [of "nat i"] s by simp
  with False s dec_nat_head_not_minus [OF s] show ?thesis
    by (simp add: dec_int_def read_int_def)
qed

lemma NUL_notin_dec_nat [simp]: "NUL \<notin> set (dec_nat n)"
  using dec_nat_digits digit_char_not_NUL by metis

lemma length_dec_int:
  assumes "\<bar>i\<bar> < 10 ^ k" "0 < k"
  shows "length (dec_int i) \<le> Suc k"
proof -
  have "nat \<bar>i\<bar> < 10 ^ k" using assms(1) by (simp add: nat_less_iff)
  then have "length (dec_nat (nat \<bar>i\<bar>)) \<le> k" using assms(2) by (rule length_dec_nat)
  then show ?thesis by (simp add: dec_int_def abs_if split: if_splits)
qed

section \<open>Truncating division\<close>

text \<open>The operators \<^verbatim>\<open>/\<close> and \<^verbatim>\<open>%\<close> of C++ on signed integers round towards zero.\<close>

definition c_div :: "int \<Rightarrow> int \<Rightarrow> int" where
  "c_div a b = sgn a * sgn b * (\<bar>a\<bar> div \<bar>b\<bar>)"

definition c_mod :: "int \<Rightarrow> int \<Rightarrow> int" where
  "c_mod a b = sgn a * (\<bar>a\<bar> mod \<bar>b\<bar>)"

lemma c_div_nonneg [simp]: "0 \<le> a \<Longrightarrow> 0 < b \<Longrightarrow> c_div a b = a div b"
  by (cases "a = 0") (simp_all add: c_div_def)

lemma c_mod_nonneg [simp]: "0 \<le> a \<Longrightarrow> 0 < b \<Longrightarrow> c_mod a b = a mod b"
  by (cases "a = 0") (simp_all add: c_mod_def)

lemma c_div_minus [simp]: "c_div (- a) b = - c_div a b"
  by (simp add: c_div_def)

lemma c_mod_minus [simp]: "c_mod (- a) b = - c_mod a b"
  by (simp add: c_mod_def)

lemma c_div_mod_eq: "b \<noteq> 0 \<Longrightarrow> c_div a b * b + c_mod a b = a"
proof -
  assume b: "b \<noteq> 0"
  have "c_div a b * b + c_mod a b = sgn a * ((sgn b * b) * (\<bar>a\<bar> div \<bar>b\<bar>) + \<bar>a\<bar> mod \<bar>b\<bar>)"
    by (simp add: c_div_def c_mod_def algebra_simps)
  also have "sgn b * b = \<bar>b\<bar>" by (simp add: abs_sgn mult.commute)
  also have "\<bar>b\<bar> * (\<bar>a\<bar> div \<bar>b\<bar>) + \<bar>a\<bar> mod \<bar>b\<bar> = \<bar>a\<bar>" by simp
  finally show ?thesis by (simp add: sgn_mult_abs)
qed

section \<open>Running a list of fallible operations\<close>

primrec fold_res :: "('s \<Rightarrow> 'i \<Rightarrow> 's result) \<Rightarrow> 's \<Rightarrow> 'i list \<Rightarrow> 's result" where
  "fold_res f s [] = Inr s"
| "fold_res f s (i # is) = bind_res (f s i) (\<lambda>s'. fold_res f s' is)"

lemma fold_res_append:
  "fold_res f s (xs @ ys) = bind_res (fold_res f s xs) (\<lambda>s'. fold_res f s' ys)"
proof (induction xs arbitrary: s)
  case (Cons x xs)
  then show ?case by (cases "f s x") simp_all
qed simp

section \<open>What an operation ensures\<close>

text \<open>
  \<open>ensures r P\<close>: the operation ends in a state with \<open>P\<close>, unless a vector outgrew its maximal size.
  No other failure is allowed.
\<close>

definition ensures :: "'a result \<Rightarrow> ('a \<Rightarrow> bool) \<Rightarrow> bool" where
  "ensures r P = (case r of Inl e \<Rightarrow> e = Length_Error | Inr x \<Rightarrow> P x)"

lemma ensures_simps [simp]:
  "ensures (Inr x) P = P x" "ensures (Inl e) P = (e = Length_Error)"
  by (simp_all add: ensures_def)

lemma ensures_bind: "ensures (bind_res r f) Q = ensures r (\<lambda>x. ensures (f x) Q)"
  by (cases r) simp_all

lemma ensures_mono: "ensures r P \<Longrightarrow> (\<And>x. P x \<Longrightarrow> Q x) \<Longrightarrow> ensures r Q"
  by (cases r) simp_all

lemma ensures_bindI:
  "ensures r P \<Longrightarrow> (\<And>x. P x \<Longrightarrow> ensures (f x) Q) \<Longrightarrow> ensures (bind_res r f) Q"
  by (cases r) simp_all

lemma ensures_fold:
  assumes "\<And>s x. P s \<Longrightarrow> x \<in> set xs \<Longrightarrow> ensures (f s x) P" "P s"
  shows "ensures (fold_res f s xs) P"
  using assms
proof (induction xs arbitrary: s)
  case (Cons x xs)
  have "ensures (f s x) P" using Cons.prems by simp
  moreover have "P t \<Longrightarrow> ensures (fold_res f t xs) P" for t
    using Cons.prems(1) by (intro Cons.IH) simp_all
  ultimately show ?case by (auto intro: ensures_bindI)
qed simp

section \<open>Transition systems\<close>

text \<open>
  A component whose operations interleave is a start predicate and a step relation.  The locale
  collects what every such component proves: an inductive invariant holds in each reachable state.
\<close>

inductive reach :: "('s \<Rightarrow> bool) \<Rightarrow> ('s \<Rightarrow> 's \<Rightarrow> bool) \<Rightarrow> 's \<Rightarrow> bool"
  for init :: "'s \<Rightarrow> bool" and step :: "'s \<Rightarrow> 's \<Rightarrow> bool" where
  reach_init: "init s \<Longrightarrow> reach init step s"
| reach_step: "reach init step s \<Longrightarrow> step s t \<Longrightarrow> reach init step t"

locale inductive_invariant =
  fixes init :: "'s \<Rightarrow> bool" and step :: "'s \<Rightarrow> 's \<Rightarrow> bool" and invar :: "'s \<Rightarrow> bool"
  assumes invar_init: "init s \<Longrightarrow> invar s"
    and invar_step: "invar s \<Longrightarrow> step s t \<Longrightarrow> invar t"
begin

lemma invar_reach: "reach init step s \<Longrightarrow> invar s"
  by (induction rule: reach.induct) (auto intro: invar_init invar_step)

lemma invar_steps: "step\<^sup>*\<^sup>* s t \<Longrightarrow> invar s \<Longrightarrow> invar t"
  by (induction rule: rtranclp_induct) (auto intro: invar_step)

end

end
