(* ===== verification/FixedBuffer.thy ===== *)
theory FixedBuffer
  imports Prelude
begin

text \<open>
  The fixed-size character buffer of \<^verbatim>\<open>include/log/fixedbuffer.h\<close>: an array \<open>fb_data\<close> of the
  template parameter's length and the offset \<open>fb_cur\<close> of the pointer \<^verbatim>\<open>cur_\<close> from its start.
\<close>

section \<open>Model\<close>

definition KB_BUFFER_SIZE :: nat where
  "KB_BUFFER_SIZE = 1024"

definition MB_BUFFER_SIZE :: nat where
  "MB_BUFFER_SIZE = 1048576"

record fixedbuffer =
  fb_data :: string
  fb_cur :: nat

text \<open>The constructor leaves the array uninitialised: \<open>raw\<close> is whatever the memory held.\<close>

definition fixedbuffer_new :: "string \<Rightarrow> fixedbuffer" where
  "fixedbuffer_new raw = \<lparr>fb_data = raw, fb_cur = 0\<rparr>"

definition fixedbuffer_cap :: "fixedbuffer \<Rightarrow> int" where
  "fixedbuffer_cap fb = int (length (fb_data fb))"

definition fixedbuffer_size :: "fixedbuffer \<Rightarrow> int" where
  "fixedbuffer_size fb = int (length (fb_data fb)) - int (fb_cur fb)"

definition fixedbuffer_used :: "fixedbuffer \<Rightarrow> int" where
  "fixedbuffer_used fb = int (fb_cur fb)"

definition fixedbuffer_add :: "fixedbuffer \<Rightarrow> nat \<Rightarrow> fixedbuffer" where
  "fixedbuffer_add fb len = fb\<lparr>fb_cur := fb_cur fb + len\<rparr>"

text \<open>
  \<^verbatim>\<open>append(buf, len)\<close>: the remaining space is an \<^verbatim>\<open>int\<close> cast to \<^verbatim>\<open>size_t\<close>.  Reading past the
  end of \<open>buf\<close> or writing past the end of the array is an error value.
\<close>

definition fixedbuffer_append :: "fixedbuffer \<Rightarrow> string \<Rightarrow> nat \<Rightarrow> fixedbuffer result" where
  "fixedbuffer_append fb buf len =
     (if size_of_int (fixedbuffer_size fb) > len then
        (if len \<le> length buf then
           bind_res (mem_write (fb_data fb) (fb_cur fb) (take len buf))
             (\<lambda>d. Inr (fixedbuffer_add (fb\<lparr>fb_data := d\<rparr>) len))
         else Inl Out_Of_Bounds)
      else Inr fb)"

definition fixedbuffer_reset :: "fixedbuffer \<Rightarrow> fixedbuffer" where
  "fixedbuffer_reset fb = fb\<lparr>fb_cur := 0\<rparr>"

definition fixedbuffer_bzero :: "fixedbuffer \<Rightarrow> fixedbuffer" where
  "fixedbuffer_bzero fb = fb\<lparr>fb_data := replicate (length (fb_data fb)) NUL\<rparr>"

definition fixedbuffer_to_string :: "fixedbuffer \<Rightarrow> string result" where
  "fixedbuffer_to_string fb =
     (if fb_cur fb \<le> length (fb_data fb) then Inr (take (fb_cur fb) (fb_data fb))
      else Inl Out_Of_Bounds)"

section \<open>Invariant and functional behaviour\<close>

text \<open>
  The cursor stays strictly inside the array, whose length is a positive \<^verbatim>\<open>int\<close>.  The abstract
  value of a buffer is the text in front of the cursor; \<open>fb_room\<close> is the space behind it.
\<close>

definition fb_inv :: "fixedbuffer \<Rightarrow> bool" where
  "fb_inv fb \<longleftrightarrow> fb_cur fb < length (fb_data fb) \<and> length (fb_data fb) < 2 ^ 31"

definition fb_text :: "fixedbuffer \<Rightarrow> string" where
  "fb_text fb = take (fb_cur fb) (fb_data fb)"

definition fb_room :: "fixedbuffer \<Rightarrow> nat" where
  "fb_room fb = length (fb_data fb) - fb_cur fb"

lemma fb_inv_new [inv_intros]:
  "0 < length raw \<Longrightarrow> length raw < 2 ^ 31 \<Longrightarrow> fb_inv (fixedbuffer_new raw)"
  by (simp add: fb_inv_def fixedbuffer_new_def)

lemma fb_text_new [buf_simps]: "fb_text (fixedbuffer_new raw) = []"
  by (simp add: fb_text_def fixedbuffer_new_def)

lemma fb_room_new [buf_simps]: "fb_room (fixedbuffer_new raw) = length raw"
  by (simp add: fb_room_def fixedbuffer_new_def)

lemma fb_inv_reset [inv_intros]: "fb_inv fb \<Longrightarrow> fb_inv (fixedbuffer_reset fb)"
  by (auto simp add: fb_inv_def fixedbuffer_reset_def)

lemma fb_text_reset [buf_simps]: "fb_text (fixedbuffer_reset fb) = []"
  by (simp add: fb_text_def fixedbuffer_reset_def)

lemma fixedbuffer_size_room: "fb_inv fb \<Longrightarrow> fixedbuffer_size fb = int (fb_room fb)"
  by (simp add: fb_inv_def fixedbuffer_size_def fb_room_def)

lemma size_of_int_size [buf_simps]:
  "fb_inv fb \<Longrightarrow> size_of_int (fixedbuffer_size fb) = fb_room fb"
  by (subst fixedbuffer_size_room) (simp_all add: fb_inv_def fb_room_def)

lemma fb_text_used: "fb_inv fb \<Longrightarrow> int (length (fb_text fb)) = fixedbuffer_used fb"
  by (simp add: fb_inv_def fb_text_def fixedbuffer_used_def)

lemma fb_text_room:
  "fb_inv fb \<Longrightarrow> int (length (fb_text fb)) + int (fb_room fb) = fixedbuffer_cap fb"
  by (simp add: fb_inv_def fb_text_def fb_room_def fixedbuffer_cap_def)

lemma fixedbuffer_to_string_text: "fb_inv fb \<Longrightarrow> fixedbuffer_to_string fb = Inr (fb_text fb)"
  by (simp add: fb_inv_def fixedbuffer_to_string_def fb_text_def)

text \<open>Writing \<open>s\<close> at the cursor and moving the cursor behind it: shared by all output operators.\<close>

lemma fb_write_advance:
  assumes "fb_inv fb" "length s < fb_room fb"
  defines "fb' \<equiv> fixedbuffer_add (fb\<lparr>fb_data := overwrite (fb_data fb) (fb_cur fb) s\<rparr>) (length s)"
  shows "fb_inv fb'" "fb_text fb' = fb_text fb @ s" "fb_room fb' = fb_room fb - length s"
proof -
  have le: "fb_cur fb + length s < length (fb_data fb)" "fb_cur fb \<le> length (fb_data fb)"
    using assms by (simp_all add: fb_room_def fb_inv_def)
  then show "fb_inv fb'" using assms by (simp add: fb_inv_def fixedbuffer_add_def)
  show "fb_text fb' = fb_text fb @ s"
    using le take_overwrite_after [of "fb_cur fb" "fb_data fb" s]
    by (simp add: fb'_def fb_text_def fixedbuffer_add_def)
  show "fb_room fb' = fb_room fb - length s"
    using le by (simp add: fb'_def fb_room_def fixedbuffer_add_def)
qed

lemma fixedbuffer_append_fits:
  assumes "fb_inv fb" "len < fb_room fb" "len \<le> length buf"
  obtains fb' where "fixedbuffer_append fb buf len = Inr fb'" "fb_inv fb'"
    "fb_text fb' = fb_text fb @ take len buf" "fb_room fb' = fb_room fb - len"
proof -
  let ?s = "take len buf"
  have len: "length ?s = len" using assms by simp
  have "fb_cur fb + length ?s \<le> length (fb_data fb)"
    using assms len by (simp add: fb_room_def fb_inv_def)
  then have "fixedbuffer_append fb buf len =
      Inr (fixedbuffer_add (fb\<lparr>fb_data := overwrite (fb_data fb) (fb_cur fb) ?s\<rparr>) (length ?s))"
    using assms len by (simp add: fixedbuffer_append_def buf_simps)
  with fb_write_advance [of fb ?s] assms len that show thesis by simp
qed

lemma fixedbuffer_append_drops:
  "fb_inv fb \<Longrightarrow> fb_room fb \<le> len \<Longrightarrow> fixedbuffer_append fb buf len = Inr fb"
  by (simp add: fixedbuffer_append_def buf_simps)

end
