(* ===== verification/LogStream.thy ===== *)
theory LogStream
  imports FixedBuffer "HOL-Library.Sublist"
begin

text \<open>
  The log stream of \<^verbatim>\<open>include/log/logstream.h\<close> and \<^verbatim>\<open>src/log/logstream.cpp\<close>: the printing loop for
  integers, one operation per overload of \<^verbatim>\<open>operator<<\<close>, and the contract \<open>item_sink\<close> under
  which the logger uses the stream.
\<close>

section \<open>Model\<close>

record gtemplate =
  gt_data :: "string option"
  gt_len :: int

record logstream =
  ls_buffer :: fixedbuffer

definition MAX_NUM_SIZE :: nat where
  "MAX_NUM_SIZE = 48"

definition digits :: string where
  "digits = ''9876543210123456789''"

text \<open>\<^verbatim>\<open>zero[remainder]\<close> with \<^verbatim>\<open>zero = digits + 9\<close>; the remainder of C++ may be negative.\<close>

definition digit_of_remainder :: "int \<Rightarrow> char" where
  "digit_of_remainder r = digits ! nat (9 + r)"

text \<open>
  The \<^verbatim>\<open>do ... while (num != 0)\<close> loop: the characters in the order they are stored, least
  significant digit first.
\<close>

function format_loop :: "int \<Rightarrow> string" where
  "format_loop num =
     digit_of_remainder (c_mod num 10) #
       (let num' = c_div num 10 in if num' \<noteq> 0 then format_loop num' else [])"
  by pat_completeness auto
termination
proof (relation "measure (\<lambda>n. nat \<bar>n\<bar>)")
  fix num num' :: int
  assume "num' = c_div num 10" "num' \<noteq> 0"
  then have "0 < \<bar>num\<bar>" "\<bar>num'\<bar> = \<bar>num\<bar> div 10"
    by (auto simp: c_div_def abs_mult)
  then show "(num', num) \<in> measure (\<lambda>n. nat \<bar>n\<bar>)" by simp
qed simp

declare format_loop.simps [simp del]

text \<open>
  \<^verbatim>\<open>format_integer\<close>: the loop writes behind the cursor, the range is reversed in place, and the
  cursor is advanced.
\<close>

definition format_integer :: "logstream \<Rightarrow> int \<Rightarrow> logstream result" where
  "format_integer ls num =
     (let fb = ls_buffer ls in
      if fixedbuffer_size fb \<ge> int MAX_NUM_SIZE then
        (let negative = num < 0;
             s = format_loop num @ (if negative then ''-'' else '''') in
         bind_res (mem_write (fb_data fb) (fb_cur fb) s) (\<lambda>d.
         bind_res (mem_write d (fb_cur fb)
                     (rev (slice d (fb_cur fb) (fb_cur fb + length s)))) (\<lambda>d'.
         Inr (ls\<lparr>ls_buffer := fixedbuffer_add (fb\<lparr>fb_data := d'\<rparr>) (length s)\<rparr>))))
      else Inr ls)"

definition logstream_append :: "logstream \<Rightarrow> string \<Rightarrow> int \<Rightarrow> logstream result" where
  "logstream_append ls data len =
     bind_res (fixedbuffer_append (ls_buffer ls) data (size_of_int len))
       (\<lambda>fb. Inr (ls\<lparr>ls_buffer := fb\<rparr>))"

definition logstream_reset :: "logstream \<Rightarrow> logstream" where
  "logstream_reset ls = ls\<lparr>ls_buffer := fixedbuffer_reset (ls_buffer ls)\<rparr>"

definition put_int :: "logstream \<Rightarrow> 32 word \<Rightarrow> logstream result" where
  "put_int ls v = format_integer ls (sint v)"

definition put_uint :: "logstream \<Rightarrow> 32 word \<Rightarrow> logstream result" where
  "put_uint ls v = format_integer ls (uint v)"

definition put_short :: "logstream \<Rightarrow> 16 word \<Rightarrow> logstream result" where
  "put_short ls v = put_int ls (scast v)"

definition put_ushort :: "logstream \<Rightarrow> 16 word \<Rightarrow> logstream result" where
  "put_ushort ls v = put_uint ls (ucast v)"

definition put_long :: "logstream \<Rightarrow> 64 word \<Rightarrow> logstream result" where
  "put_long ls v = format_integer ls (sint v)"

definition put_ulong :: "logstream \<Rightarrow> 64 word \<Rightarrow> logstream result" where
  "put_ulong ls v = format_integer ls (uint v)"

definition put_longlong :: "logstream \<Rightarrow> 64 word \<Rightarrow> logstream result" where
  "put_longlong ls v = format_integer ls (sint v)"

definition put_ulonglong :: "logstream \<Rightarrow> 64 word \<Rightarrow> logstream result" where
  "put_ulonglong ls v = format_integer ls (uint v)"

text \<open>
  A floating point argument is represented by the text \<open>t\<close> that the conversion \<^verbatim>\<open>%.12g\<close> produces for
  it; \<^verbatim>\<open>snprintf\<close> stores at most 47 characters and a NUL but returns the full length.
\<close>

definition put_double :: "logstream \<Rightarrow> string \<Rightarrow> logstream result" where
  "put_double ls t =
     (let fb = ls_buffer ls in
      if fixedbuffer_size fb \<ge> int MAX_NUM_SIZE then
        bind_res (mem_write (fb_data fb) (fb_cur fb) (snprintf_buf MAX_NUM_SIZE t @ [NUL]))
          (\<lambda>d. Inr (ls\<lparr>ls_buffer := fixedbuffer_add (fb\<lparr>fb_data := d\<rparr>) (length t)\<rparr>))
      else Inr ls)"

definition put_float :: "logstream \<Rightarrow> string \<Rightarrow> logstream result" where
  "put_float ls t = put_double ls t"

definition put_char :: "logstream \<Rightarrow> char \<Rightarrow> logstream result" where
  "put_char ls c =
     bind_res (fixedbuffer_append (ls_buffer ls) [c] 1) (\<lambda>fb. Inr (ls\<lparr>ls_buffer := fb\<rparr>))"

definition put_cstr :: "logstream \<Rightarrow> string option \<Rightarrow> logstream result" where
  "put_cstr ls str =
     bind_res (case str of
         Some s \<Rightarrow> fixedbuffer_append (ls_buffer ls) s (strlen s)
       | None \<Rightarrow> fixedbuffer_append (ls_buffer ls) ''(null)'' 6)
       (\<lambda>fb. Inr (ls\<lparr>ls_buffer := fb\<rparr>))"

definition put_ptr :: "logstream \<Rightarrow> string option \<Rightarrow> logstream result" where
  "put_ptr ls data = put_cstr ls data"

definition put_ucstr :: "logstream \<Rightarrow> string option \<Rightarrow> logstream result" where
  "put_ucstr ls str = put_cstr ls str"

definition put_string :: "logstream \<Rightarrow> string \<Rightarrow> logstream result" where
  "put_string ls str =
     bind_res (fixedbuffer_append (ls_buffer ls) str (length str))
       (\<lambda>fb. Inr (ls\<lparr>ls_buffer := fb\<rparr>))"

definition put_fbuffer :: "logstream \<Rightarrow> fixedbuffer \<Rightarrow> logstream result" where
  "put_fbuffer ls buf = bind_res (fixedbuffer_to_string buf) (put_string ls)"

definition put_gtemplate :: "logstream \<Rightarrow> gtemplate \<Rightarrow> logstream result" where
  "put_gtemplate ls g =
     bind_res (fixedbuffer_append (ls_buffer ls)
                 (case gt_data g of None \<Rightarrow> [] | Some s \<Rightarrow> s) (size_of_int (gt_len g)))
       (\<lambda>fb. Inr (ls\<lparr>ls_buffer := fb\<rparr>))"

text \<open>An output expression \<^verbatim>\<open>stream << a << b << ...\<close> is a list of items, one per overload.\<close>

datatype log_item =
    LShort "16 word" | LUShort "16 word" | LInt "32 word" | LUInt "32 word"
  | LLong "64 word" | LULong "64 word" | LLongLong "64 word" | LULongLong "64 word"
  | LFloat string | LDouble string | LChar char
  | LPtr "string option" | LCStr "string option" | LUCStr "string option"
  | LString string | LFBuffer fixedbuffer | LGtemplate gtemplate

fun logstream_put :: "logstream \<Rightarrow> log_item \<Rightarrow> logstream result" where
  "logstream_put ls (LShort v) = put_short ls v"
| "logstream_put ls (LUShort v) = put_ushort ls v"
| "logstream_put ls (LInt v) = put_int ls v"
| "logstream_put ls (LUInt v) = put_uint ls v"
| "logstream_put ls (LLong v) = put_long ls v"
| "logstream_put ls (LULong v) = put_ulong ls v"
| "logstream_put ls (LLongLong v) = put_longlong ls v"
| "logstream_put ls (LULongLong v) = put_ulonglong ls v"
| "logstream_put ls (LFloat t) = put_float ls t"
| "logstream_put ls (LDouble t) = put_double ls t"
| "logstream_put ls (LChar c) = put_char ls c"
| "logstream_put ls (LPtr p) = put_ptr ls p"
| "logstream_put ls (LCStr p) = put_cstr ls p"
| "logstream_put ls (LUCStr p) = put_ucstr ls p"
| "logstream_put ls (LString s) = put_string ls s"
| "logstream_put ls (LFBuffer b) = put_fbuffer ls b"
| "logstream_put ls (LGtemplate g) = put_gtemplate ls g"

section \<open>The printing loop prints decimal numbers\<close>

lemma digit_of_remainder_digit:
  assumes "-10 < r" "r < 10"
  shows "digit_of_remainder r = digit_char (nat \<bar>r\<bar>)"
proof -
  have "\<forall>r \<in> {-9..9}. digit_of_remainder r = digit_char (nat \<bar>r\<bar>)"
    by code_simp
  then show ?thesis using assms by simp
qed

lemma format_loop_nonneg: "0 \<le> n \<Longrightarrow> rev (format_loop n) = dec_nat (nat n)"
proof (induction n rule: format_loop.induct)
  case (1 n)
  have d: "digit_of_remainder (c_mod n 10) = digit_char (nat n mod 10)"
    using 1(2) digit_of_remainder_digit [of "n mod 10"] by (simp add: nat_mod_distrib)
  show ?case
  proof (cases "n < 10")
    case True
    with 1(2) d show ?thesis
      by (simp add: format_loop.simps [of n] dec_nat.simps [of "nat n"])
  next
    case False
    then have "rev (format_loop (n div 10)) = dec_nat (nat n div 10)"
      using 1 by (simp add: nat_div_distrib)
    with False 1(2) d show ?thesis
      by (simp add: format_loop.simps [of n] dec_nat.simps [of "nat n"] Let_def)
  qed
qed

lemma format_loop_minus: "0 \<le> n \<Longrightarrow> format_loop (- n) = format_loop n"
proof (induction n rule: format_loop.induct)
  case (1 n)
  have "digit_of_remainder (- c_mod n 10) = digit_of_remainder (c_mod n 10)"
    using 1(2) by (simp add: digit_of_remainder_digit)
  with 1 show ?case
    by (auto simp: format_loop.simps [of n] format_loop.simps [of "- n"] Let_def)
qed

lemma format_loop_dec_int:
  "rev (format_loop n @ (if n < 0 then ''-'' else '''')) = dec_int n"
proof (cases "n < 0")
  case True
  then have "rev (format_loop n) = dec_nat (nat (- n))"
    using format_loop_minus [of "- n"] format_loop_nonneg [of "- n"] by simp
  with True show ?thesis by (simp add: dec_int_def)
qed (simp add: dec_int_def format_loop_nonneg)

section \<open>Behaviour of one output operation\<close>

definition ls_inv :: "logstream \<Rightarrow> bool" where
  "ls_inv ls \<longleftrightarrow> fb_inv (ls_buffer ls)"

definition ls_text :: "logstream \<Rightarrow> string" where
  "ls_text ls = fb_text (ls_buffer ls)"

definition ls_room :: "logstream \<Rightarrow> nat" where
  "ls_room ls = fb_room (ls_buffer ls)"

text \<open>The text an item contributes, the free space below which it is dropped, and its validity.\<close>

fun item_text :: "log_item \<Rightarrow> string" where
  "item_text (LShort v) = dec_int (sint v)"
| "item_text (LUShort v) = dec_int (uint v)"
| "item_text (LInt v) = dec_int (sint v)"
| "item_text (LUInt v) = dec_int (uint v)"
| "item_text (LLong v) = dec_int (sint v)"
| "item_text (LULong v) = dec_int (uint v)"
| "item_text (LLongLong v) = dec_int (sint v)"
| "item_text (LULongLong v) = dec_int (uint v)"
| "item_text (LFloat t) = t"
| "item_text (LDouble t) = t"
| "item_text (LChar c) = [c]"
| "item_text (LPtr p) = (case p of None \<Rightarrow> ''(null)'' | Some s \<Rightarrow> c_str s)"
| "item_text (LCStr p) = (case p of None \<Rightarrow> ''(null)'' | Some s \<Rightarrow> c_str s)"
| "item_text (LUCStr p) = (case p of None \<Rightarrow> ''(null)'' | Some s \<Rightarrow> c_str s)"
| "item_text (LString s) = s"
| "item_text (LFBuffer b) = fb_text b"
| "item_text (LGtemplate g) = take (nat (gt_len g)) (case gt_data g of None \<Rightarrow> [] | Some s \<Rightarrow> s)"

fun is_number :: "log_item \<Rightarrow> bool" where
  "is_number (LChar c) = False"
| "is_number (LPtr p) = False"
| "is_number (LCStr p) = False"
| "is_number (LUCStr p) = False"
| "is_number (LString s) = False"
| "is_number (LFBuffer b) = False"
| "is_number (LGtemplate g) = False"
| "is_number _ = True"

definition item_need :: "log_item \<Rightarrow> nat" where
  "item_need i = (if is_number i then MAX_NUM_SIZE else Suc (length (item_text i)))"

fun item_ok :: "log_item \<Rightarrow> bool" where
  "item_ok (LFloat t) = (length t < MAX_NUM_SIZE)"
| "item_ok (LDouble t) = (length t < MAX_NUM_SIZE)"
| "item_ok (LString s) = (length s < size_mod)"
| "item_ok (LFBuffer b) = fb_inv b"
| "item_ok (LGtemplate g) =
     (0 \<le> gt_len g \<and> gt_len g < 2 ^ 31 \<and>
      nat (gt_len g) \<le> length (case gt_data g of None \<Rightarrow> [] | Some s \<Rightarrow> s))"
| "item_ok _ = True"

lemma ls_fits_append:
  assumes "ls_inv ls" "len < ls_room ls" "len \<le> length buf"
  shows "\<exists>ls'. bind_res (fixedbuffer_append (ls_buffer ls) buf len)
                 (\<lambda>fb. Inr (ls\<lparr>ls_buffer := fb\<rparr>)) = Inr ls' \<and> ls_inv ls' \<and>
               ls_text ls' = ls_text ls @ take len buf \<and> ls_room ls' = ls_room ls - len"
proof -
  have "fb_inv (ls_buffer ls)" "len < fb_room (ls_buffer ls)"
    using assms by (simp_all add: ls_inv_def ls_room_def)
  then obtain fb' where "fixedbuffer_append (ls_buffer ls) buf len = Inr fb'" "fb_inv fb'"
    "fb_text fb' = fb_text (ls_buffer ls) @ take len buf" "fb_room fb' = fb_room (ls_buffer ls) - len"
    using assms(3) by (rule fixedbuffer_append_fits)
  then show ?thesis by (simp add: ls_inv_def ls_text_def ls_room_def)
qed

lemma ls_drops_append:
  "ls_inv ls \<Longrightarrow> ls_room ls \<le> len \<Longrightarrow>
     bind_res (fixedbuffer_append (ls_buffer ls) buf len) (\<lambda>fb. Inr (ls\<lparr>ls_buffer := fb\<rparr>)) = Inr ls"
  by (simp add: ls_inv_def ls_room_def fixedbuffer_append_drops)

lemma format_integer_fits:
  assumes "ls_inv ls" "MAX_NUM_SIZE \<le> ls_room ls" "\<bar>n\<bar> < 10 ^ 20"
  shows "\<exists>ls'. format_integer ls n = Inr ls' \<and> ls_inv ls' \<and>
               ls_text ls' = ls_text ls @ dec_int n \<and> ls_room ls' = ls_room ls - length (dec_int n)"
proof -
  let ?fb = "ls_buffer ls"
  let ?s = "format_loop n @ (if n < 0 then ''-'' else '''')"
  let ?d = "overwrite (fb_data ?fb) (fb_cur ?fb) ?s"
  have rev_s: "rev ?s = dec_int n" by (rule format_loop_dec_int)
  then have len: "length ?s = length (dec_int n)" by (metis length_rev)
  have "length (dec_int n) < fb_room ?fb"
    using length_dec_int [of n 20] assms by (simp add: ls_room_def MAX_NUM_SIZE_def)
  note adv = fb_write_advance [OF _ this]
  have inv: "fb_inv ?fb" using assms(1) by (simp add: ls_inv_def)
  have bound: "fb_cur ?fb + length ?s \<le> length (fb_data ?fb)"
    using \<open>length (dec_int n) < fb_room ?fb\<close> len by (simp add: fb_room_def)
  then have "slice ?d (fb_cur ?fb) (fb_cur ?fb + length ?s) = ?s"
    by (rule slice_overwrite_exact)
  moreover have "overwrite ?d (fb_cur ?fb) (rev ?s) = overwrite (fb_data ?fb) (fb_cur ?fb) (rev ?s)"
    using bound by (intro overwrite_overwrite) simp_all
  moreover have "int MAX_NUM_SIZE \<le> fixedbuffer_size ?fb"
    using assms inv by (simp add: fixedbuffer_size_room ls_room_def)
  ultimately have "format_integer ls n = Inr (ls\<lparr>ls_buffer :=
      fixedbuffer_add (?fb\<lparr>fb_data := overwrite (fb_data ?fb) (fb_cur ?fb) (dec_int n)\<rparr>)
        (length (dec_int n))\<rparr>)"
    using bound rev_s len by (simp add: format_integer_def Let_def)
  with adv [OF inv] show ?thesis by (simp add: ls_inv_def ls_text_def ls_room_def)
qed

lemma format_integer_drops:
  "ls_inv ls \<Longrightarrow> ls_room ls < MAX_NUM_SIZE \<Longrightarrow> format_integer ls n = Inr ls"
  by (simp add: format_integer_def Let_def ls_inv_def ls_room_def fixedbuffer_size_room)

lemma put_double_fits:
  assumes "ls_inv ls" "MAX_NUM_SIZE \<le> ls_room ls" "length t < MAX_NUM_SIZE"
  shows "\<exists>ls'. put_double ls t = Inr ls' \<and> ls_inv ls' \<and>
               ls_text ls' = ls_text ls @ t \<and> ls_room ls' = ls_room ls - length t"
proof -
  let ?fb = "ls_buffer ls"
  let ?d = "overwrite (fb_data ?fb) (fb_cur ?fb) (t @ [NUL])"
  have inv: "fb_inv ?fb" and room: "Suc (length t) \<le> fb_room ?fb"
    using assms by (simp_all add: ls_inv_def ls_room_def)
  have bound: "fb_cur ?fb + length (t @ [NUL]) \<le> length (fb_data ?fb)"
    using inv room by (simp add: fb_room_def fb_inv_def)
  have eq: "put_double ls t = Inr (ls\<lparr>ls_buffer := fixedbuffer_add (?fb\<lparr>fb_data := ?d\<rparr>) (length t)\<rparr>)"
    using assms bound inv by (simp add: put_double_def Let_def fixedbuffer_size_room ls_room_def)
  have "take (fb_cur ?fb + length t) ?d = take (fb_cur ?fb) (fb_data ?fb) @ t"
    using bound by (simp add: overwrite_def)
  with eq bound inv show ?thesis
    by (simp add: ls_inv_def ls_text_def ls_room_def fb_inv_def fb_text_def fb_room_def
        fixedbuffer_add_def)
qed

lemma put_double_drops:
  "ls_inv ls \<Longrightarrow> ls_room ls < MAX_NUM_SIZE \<Longrightarrow> put_double ls t = Inr ls"
  by (simp add: put_double_def Let_def ls_inv_def ls_room_def fixedbuffer_size_room)

text \<open>Every overload but the two floating point ones reduces to a number or to an append.\<close>

lemma sint_word16_bound: "\<bar>sint (v :: 16 word)\<bar> < 10 ^ 20"
  using sint_range_size [of v] by (auto simp: word_size abs_less_iff)

lemma sint_word32_bound: "\<bar>sint (v :: 32 word)\<bar> < 10 ^ 20"
  using sint_range_size [of v] by (auto simp: word_size abs_less_iff)

lemma sint_word64_bound: "\<bar>sint (v :: 64 word)\<bar> < 10 ^ 20"
  using sint_range_size [of v] by (auto simp: word_size abs_less_iff)

lemma uint_word16_bound: "\<bar>uint (v :: 16 word)\<bar> < 10 ^ 20"
  using uint_bounded [of v] by simp

lemma uint_word32_bound: "\<bar>uint (v :: 32 word)\<bar> < 10 ^ 20"
  using uint_bounded [of v] by simp

lemma uint_word64_bound: "\<bar>uint (v :: 64 word)\<bar> < 10 ^ 20"
  using uint_bounded [of v] by simp

lemmas word_bounds = sint_word16_bound sint_word32_bound sint_word64_bound
  uint_word16_bound uint_word32_bound uint_word64_bound

lemma sint_scast_short [simp]: "sint (scast (v :: 16 word) :: 32 word) = sint v"
  by (simp add: sint_up_scast is_up)

lemma uint_ucast_ushort [simp]: "uint (ucast (v :: 16 word) :: 32 word) = uint v"
  by (simp add: uint_up_ucast is_up)

fun item_number :: "log_item \<Rightarrow> int" where
  "item_number (LShort v) = sint v"
| "item_number (LUShort v) = uint v"
| "item_number (LInt v) = sint v"
| "item_number (LUInt v) = uint v"
| "item_number (LLong v) = sint v"
| "item_number (LULong v) = uint v"
| "item_number (LLongLong v) = sint v"
| "item_number (LULongLong v) = uint v"
| "item_number _ = 0"

fun is_float :: "log_item \<Rightarrow> bool" where
  "is_float (LFloat t) = True"
| "is_float (LDouble t) = True"
| "is_float _ = False"

lemmas put_defs = put_int_def put_uint_def put_short_def put_ushort_def put_long_def put_ulong_def
  put_longlong_def put_ulonglong_def put_float_def put_char_def put_cstr_def put_ptr_def
  put_ucstr_def put_string_def put_fbuffer_def put_gtemplate_def

lemma put_integer_item:
  assumes "is_number i" "\<not> is_float i"
  shows "logstream_put ls i = format_integer ls (item_number i)"
    and "item_text i = dec_int (item_number i)" and "\<bar>item_number i\<bar> < 10 ^ 20"
proof -
  show "logstream_put ls i = format_integer ls (item_number i)"
    using assms by (cases i) (simp_all add: put_defs)
  show "item_text i = dec_int (item_number i)" using assms by (cases i) simp_all
  show "\<bar>item_number i\<bar> < 10 ^ 20"
    by (cases i) (simp_all only: item_number.simps word_bounds, simp_all)
qed

lemma put_float_item:
  assumes "is_float i"
  shows "logstream_put ls i = put_double ls (item_text i)"
    and "item_ok i \<longleftrightarrow> length (item_text i) < MAX_NUM_SIZE" and "is_number i"
  using assms by (cases i; simp add: put_defs)+

lemma strlen_le [simp]: "strlen s \<le> length s"
  by (simp add: strlen_def c_str_def length_takeWhile_le)

lemma take_strlen [simp]: "take (strlen s) s = c_str s"
  by (simp add: strlen_def c_str_def takeWhile_eq_take [symmetric])

text \<open>The three pointer overloads share one reduction, at the string or at the null text.\<close>

lemma put_cstr_append:
  "\<exists>buf len. put_cstr ls p = bind_res (fixedbuffer_append (ls_buffer ls) buf len)
      (\<lambda>fb. Inr (ls\<lparr>ls_buffer := fb\<rparr>)) \<and> len \<le> length buf \<and>
      take len buf = (case p of None \<Rightarrow> ''(null)'' | Some s \<Rightarrow> c_str s)"
proof (cases p)
  case None
  then show ?thesis
    by (intro exI [of _ "''(null)''"] exI [of _ 6]) (simp add: put_cstr_def)
next
  case (Some s)
  then show ?thesis by (intro exI [of _ s] exI [of _ "strlen s"]) (simp add: put_cstr_def)
qed

lemma put_text_item:
  assumes "\<not> is_number i" "item_ok i"
  shows "\<exists>buf len. logstream_put ls i = bind_res (fixedbuffer_append (ls_buffer ls) buf len)
            (\<lambda>fb. Inr (ls\<lparr>ls_buffer := fb\<rparr>)) \<and> len \<le> length buf \<and> take len buf = item_text i"
proof (cases i)
  case (LGtemplate g)
  let ?d = "case gt_data g of None \<Rightarrow> [] | Some s \<Rightarrow> s"
  have "size_of_int (gt_len g) = nat (gt_len g)" using assms LGtemplate by simp
  with assms LGtemplate show ?thesis
    by (intro exI [of _ ?d] exI [of _ "nat (gt_len g)"]) (simp add: put_defs)
next
  case (LFBuffer b)
  with assms show ?thesis
    by (intro exI [of _ "fb_text b"] exI [of _ "length (fb_text b)"])
      (simp add: put_defs fixedbuffer_to_string_text)
next
  case (LChar c)
  then show ?thesis by (intro exI [of _ "[c]"] exI [of _ 1]) (simp add: put_defs)
next
  case (LString s)
  then show ?thesis by (intro exI [of _ s] exI [of _ "length s"]) (simp add: put_defs)
next
  case (LPtr p)
  then show ?thesis using put_cstr_append [of ls p] by (simp add: put_ptr_def)
next
  case (LCStr p)
  then show ?thesis using put_cstr_append [of ls p] by simp
next
  case (LUCStr p)
  then show ?thesis using put_cstr_append [of ls p] by (simp add: put_ucstr_def)
qed (use assms in simp_all)

section \<open>The stream as a bounded sink of items\<close>

text \<open>
  What a writer of log lines relies on: an item is either taken whole or dropped whole, no item
  fails, and the space needed exceeds the length of the text by at most \<open>slack\<close>.
\<close>

locale item_sink =
  fixes put :: "'s \<Rightarrow> 'i \<Rightarrow> 's result" and invar :: "'s \<Rightarrow> bool"
    and text_of :: "'s \<Rightarrow> string" and room :: "'s \<Rightarrow> nat"
    and valid :: "'i \<Rightarrow> bool" and itxt :: "'i \<Rightarrow> string" and need :: "'i \<Rightarrow> nat" and slack :: nat
  assumes put_fits: "invar s \<Longrightarrow> valid i \<Longrightarrow> need i \<le> room s \<Longrightarrow>
      \<exists>s'. put s i = Inr s' \<and> invar s' \<and> text_of s' = text_of s @ itxt i \<and>
           room s' = room s - length (itxt i)"
    and put_drops: "invar s \<Longrightarrow> valid i \<Longrightarrow> room s < need i \<Longrightarrow> put s i = Inr s"
    and need_slack: "valid i \<Longrightarrow> need i \<le> length (itxt i) + slack"
    and need_text: "valid i \<Longrightarrow> length (itxt i) < need i"
begin

lemma put_total:
  assumes "invar s" "valid i"
  obtains s' ks where "put s i = Inr s'" "invar s'" "subseq ks [i]"
    "text_of s' = text_of s @ concat (map itxt ks)" "length (text_of s') + room s' = length (text_of s) + room s"
proof (cases "need i \<le> room s")
  case True
  then have "length (itxt i) \<le> room s" using need_text [OF assms(2)] by simp
  with put_fits [OF assms True] that [of _ "[i]"] show thesis by auto
next
  case False
  with put_drops [of s i] assms that [of s "[]"] show thesis by simp
qed

lemma puts_total:
  assumes "invar s" "\<forall>i \<in> set xs. valid i"
  shows "\<exists>s' ks. fold_res put s xs = Inr s' \<and> invar s' \<and> subseq ks xs \<and>
           text_of s' = text_of s @ concat (map itxt ks) \<and> length (text_of s') + room s' = length (text_of s) + room s"
  using assms
proof (induction xs arbitrary: s)
  case (Cons i xs)
  then obtain s1 is1 where 1: "put s i = Inr s1" "invar s1" "subseq is1 [i]"
    "text_of s1 = text_of s @ concat (map itxt is1)" "length (text_of s1) + room s1 = length (text_of s) + room s"
    by (metis put_total list.set_intros(1))
  obtain s2 is2 where 2: "fold_res put s1 xs = Inr s2" "invar s2" "subseq is2 xs"
    "text_of s2 = text_of s1 @ concat (map itxt is2)" "length (text_of s2) + room s2 = length (text_of s1) + room s1"
    using Cons.IH [OF 1(2)] Cons.prems(2) by auto
  have "subseq (is1 @ is2) (i # xs)"
    using list_emb_append_mono [OF 1(3) 2(3)] by simp
  with 1 2 show ?case by (intro exI [of _ s2] exI [of _ "is1 @ is2"]) simp
qed auto

lemma puts_all_fit:
  assumes "invar s" "\<forall>i \<in> set xs. valid i" "length (concat (map itxt xs)) + slack \<le> room s"
  shows "\<exists>s'. fold_res put s xs = Inr s' \<and> invar s' \<and> text_of s' = text_of s @ concat (map itxt xs) \<and>
           room s' = room s - length (concat (map itxt xs))"
  using assms
proof (induction xs arbitrary: s)
  case (Cons i xs)
  have "need i \<le> room s" using need_slack [of i] Cons.prems by simp
  then obtain s1 where 1: "put s i = Inr s1" "invar s1" "text_of s1 = text_of s @ itxt i"
    "room s1 = room s - length (itxt i)"
    using put_fits Cons.prems by (metis list.set_intros(1))
  have "length (concat (map itxt xs)) + slack \<le> room s1" using Cons.prems(3) 1(4) by simp
  then obtain s2 where "fold_res put s1 xs = Inr s2" "invar s2"
    "text_of s2 = text_of s1 @ concat (map itxt xs)" "room s2 = room s1 - length (concat (map itxt xs))"
    using Cons.IH [OF 1(2)] Cons.prems(2) by auto
  with 1 show ?case by simp
qed simp

end

lemma logstream_put_fits:
  assumes "ls_inv ls" "item_ok i" "item_need i \<le> ls_room ls"
  shows "\<exists>ls'. logstream_put ls i = Inr ls' \<and> ls_inv ls' \<and> ls_text ls' = ls_text ls @ item_text i \<and>
           ls_room ls' = ls_room ls - length (item_text i)"
proof (cases "is_number i")
  case True
  then have room: "MAX_NUM_SIZE \<le> ls_room ls" using assms(3) by (simp add: item_need_def)
  show ?thesis
  proof (cases "is_float i")
    case True
    with put_double_fits [OF assms(1) room] put_float_item [OF True] assms(2) show ?thesis by simp
  next
    case False
    note num = put_integer_item [OF \<open>is_number i\<close> False]
    show ?thesis using format_integer_fits [OF assms(1) room num(3)] num(1,2) by simp
  qed
next
  case False
  then obtain buf len where "logstream_put ls i = bind_res (fixedbuffer_append (ls_buffer ls) buf len)
      (\<lambda>fb. Inr (ls\<lparr>ls_buffer := fb\<rparr>))" "len \<le> length buf" "take len buf = item_text i"
    using put_text_item assms(2) by metis
  moreover from this have "length (item_text i) = len" by (metis length_take min.absorb2)
  ultimately show ?thesis
    using ls_fits_append [OF assms(1), of len buf] assms(3) False by (simp add: item_need_def)
qed

lemma logstream_put_drops:
  assumes "ls_inv ls" "item_ok i" "ls_room ls < item_need i"
  shows "logstream_put ls i = Inr ls"
proof (cases "is_number i")
  case True
  then have "ls_room ls < MAX_NUM_SIZE" using assms(3) by (simp add: item_need_def)
  then show ?thesis
    using True assms(1) put_float_item(1) [of i] put_integer_item(1) [of i]
      put_double_drops format_integer_drops by (cases "is_float i") simp_all
next
  case False
  then obtain buf len where "logstream_put ls i = bind_res (fixedbuffer_append (ls_buffer ls) buf len)
      (\<lambda>fb. Inr (ls\<lparr>ls_buffer := fb\<rparr>))" "len \<le> length buf" "take len buf = item_text i"
    using put_text_item assms(2) by metis
  moreover from this have "length (item_text i) = len" by (metis length_take min.absorb2)
  ultimately show ?thesis
    using ls_drops_append [OF assms(1), of len buf] assms(3) False by (simp add: item_need_def)
qed

lemma item_text_short:
  assumes "is_number i" "item_ok i"
  shows "length (item_text i) < MAX_NUM_SIZE"
proof (cases "is_float i")
  case True
  then show ?thesis using put_float_item assms by simp
next
  case False
  then show ?thesis
    using put_integer_item(2,3) [OF assms(1) False] length_dec_int [of "item_number i" 20]
    by (simp add: MAX_NUM_SIZE_def)
qed

interpretation lsink: item_sink logstream_put ls_inv ls_text ls_room item_ok item_text item_need
  MAX_NUM_SIZE
proof unfold_locales
  fix i assume "item_ok i"
  then show "item_need i \<le> length (item_text i) + MAX_NUM_SIZE" "length (item_text i) < item_need i"
    using item_text_short by (auto simp: item_need_def MAX_NUM_SIZE_def)
qed (simp_all add: logstream_put_fits logstream_put_drops)

section \<open>Properties\<close>

text \<open>
  C25.  Any output expression on a well-formed stream, with any free space, succeeds: no operator
  writes outside the buffer, the cursor stays inside, and the text grows by the texts of a
  subsequence of the items, so an item that does not fit is dropped whole and never cut.
\<close>

theorem logstream_output_safe:
  assumes "ls_inv ls" and "\<forall>i \<in> set items. item_ok i"
  shows "\<exists>ls' kept. fold_res logstream_put ls items = Inr ls' \<and> ls_inv ls' \<and> subseq kept items \<and>
           ls_text ls' = ls_text ls @ concat (map item_text kept) \<and>
           length (ls_text ls') + ls_room ls' = length (ls_text ls) + ls_room ls"
  using assms by (rule lsink.puts_total)

definition stream_example :: logstream where
  "stream_example = \<lparr>ls_buffer = fixedbuffer_new (replicate KB_BUFFER_SIZE NUL)\<rparr>"

lemma stream_example_inv [simp]: "ls_inv stream_example"
  by (simp add: ls_inv_def stream_example_def fb_inv_new KB_BUFFER_SIZE_def)

lemma stream_example_text [simp]: "ls_text stream_example = []"
  by (simp add: ls_text_def stream_example_def buf_simps)

lemma stream_example_room [simp]: "ls_room stream_example = 1024"
  by (simp add: ls_room_def stream_example_def buf_simps KB_BUFFER_SIZE_def)

theorem logstream_output_safe_witness:
  "\<exists>ls' kept. fold_res logstream_put stream_example [LCStr (Some ''pi: ''), LDouble ''3.14'', LChar CHR ''!''] = Inr ls' \<and>
     ls_inv ls' \<and> subseq kept [LCStr (Some ''pi: ''), LDouble ''3.14'', LChar CHR ''!''] \<and>
     ls_text ls' = ls_text stream_example @ concat (map item_text kept) \<and>
     length (ls_text ls') + ls_room ls' = length (ls_text stream_example) + ls_room stream_example"
  by (rule logstream_output_safe) (simp_all add: MAX_NUM_SIZE_def)

text \<open>
  C26.  The hand-written printing loop agrees with decimal notation: for every 64-bit signed or
  unsigned value (and so for the narrower overloads) a stream with room for a number gets exactly
  the decimal text of the value, the minimum of the type included, and reading that text back gives
  the value.
\<close>

theorem format_integer_decimal:
  assumes "ls_inv ls" and "MAX_NUM_SIZE \<le> ls_room ls" and "- (2 ^ 63) \<le> n" and "n < 2 ^ 64"
  shows "\<exists>ls'. format_integer ls n = Inr ls' \<and> ls_inv ls' \<and> ls_text ls' = ls_text ls @ dec_int n \<and>
           read_int (drop (length (ls_text ls)) (ls_text ls')) = n"
proof -
  have "\<bar>n\<bar> < 10 ^ 20" using assms(3,4) by (simp add: abs_less_iff)
  from format_integer_fits [OF assms(1,2) this] show ?thesis by (auto simp: read_int_dec_int)
qed

theorem format_integer_decimal_witness:
  "\<exists>ls'. format_integer stream_example (- (2 ^ 63)) = Inr ls' \<and> ls_inv ls' \<and>
     ls_text ls' = ls_text stream_example @ dec_int (- (2 ^ 63)) \<and>
     read_int (drop (length (ls_text stream_example)) (ls_text ls')) = - (2 ^ 63)"
  by (rule format_integer_decimal) (simp_all add: MAX_NUM_SIZE_def)

end
