(* ===== verification/LogLevel.thy ===== *)
theory LogLevel
  imports Prelude
begin

text \<open>
  The enumeration \<^verbatim>\<open>logger::loglevel\<close> of \<^verbatim>\<open>include/log/logging.h\<close>, ordered by its values, and the form in
  which the network components record what they hand to the \<^verbatim>\<open>LOG_*F\<close> macros.
\<close>

datatype loglevel = TRACE | DEBUG | INFO | WARN | ERROR | FATAL | LEVEL_COUNT

primrec level_value :: "loglevel \<Rightarrow> nat" where
  "level_value TRACE = 0"
| "level_value DEBUG = 1"
| "level_value INFO = 2"
| "level_value WARN = 3"
| "level_value ERROR = 4"
| "level_value FATAL = 5"
| "level_value LEVEL_COUNT = 6"

lemma level_value_inject: "level_value a = level_value b \<Longrightarrow> a = b"
  by (cases a; cases b) simp_all

text \<open>Enumerators compare by their values.\<close>

instantiation loglevel :: linorder
begin

definition less_eq_loglevel :: "loglevel \<Rightarrow> loglevel \<Rightarrow> bool" where
  "less_eq_loglevel a b \<longleftrightarrow> level_value a \<le> level_value b"

definition less_loglevel :: "loglevel \<Rightarrow> loglevel \<Rightarrow> bool" where
  "less_loglevel a b \<longleftrightarrow> level_value a < level_value b"

instance
  by standard (auto simp: less_eq_loglevel_def less_loglevel_def intro: level_value_inject)

end

type_synonym log_call = "loglevel \<times> string"

end
