(* ===== verification/Logging.thy ===== *)
theory Logging
  imports LogStream LogLevel
begin

text \<open>
  The logger of \<^verbatim>\<open>include/log/logging.h\<close> and \<^verbatim>\<open>src/log/logging.cpp\<close> with the time stamp of
  \<^verbatim>\<open>include/common/time.h\<close>: levels, base names, the prefix a logger writes on construction, the
  destructor that hands the line to the output function, and the \<^verbatim>\<open>LOG_*\<close> macros.
  The level enumeration itself is in \<open>LogLevel\<close>.
\<close>

section \<open>Time stamps\<close>

text \<open>
  Broken-down local time, as \<^verbatim>\<open>localtime_r\<close> delivers it.  \<open>time_to_cstring\<close> runs \<^verbatim>\<open>strftime\<close> with
  the format \<^verbatim>\<open>%Y-%m-%d %H:%M:%S\<close> over the thread-local 64 byte buffer and returns its new bytes.
\<close>

record tm =
  tm_year :: int
  tm_mon :: int
  tm_mday :: int
  tm_hour :: int
  tm_min :: int
  tm_sec :: int

definition pad2 :: "int \<Rightarrow> string" where
  "pad2 n = (if n < 10 then CHR ''0'' # dec_int n else dec_int n)"

definition time_text :: "tm \<Rightarrow> string" where
  "time_text t =
     dec_int (tm_year t + 1900) @ ''-'' @ pad2 (tm_mon t + 1) @ ''-'' @ pad2 (tm_mday t) @ '' '' @
     pad2 (tm_hour t) @ '':'' @ pad2 (tm_min t) @ '':'' @ pad2 (tm_sec t)"

definition time_to_cstring :: "string \<Rightarrow> tm \<Rightarrow> string" where
  "time_to_cstring buffer t = overwrite buffer 0 (time_text t @ [NUL])"

definition time_to_string :: "string \<Rightarrow> tm \<Rightarrow> string" where
  "time_to_string buffer t = c_str (time_to_cstring buffer t)"

section \<open>Level names and base names\<close>

definition level_name :: "string list" where
  "level_name = ['' [TRACE] '', '' [DEBUG] '', '' [INFO] '', '' [WARN] '', '' [ERROR] '', '' [FATAL] '']"

definition level_name_len :: "int list" where
  "level_name_len = [9, 9, 8, 8, 9, 9]"

definition initloglevel :: loglevel where
  "initloglevel = INFO"

text \<open>\<^verbatim>\<open>strrchr\<close>: the index of the last occurrence of a character.\<close>

fun strrchr :: "string \<Rightarrow> char \<Rightarrow> nat option" where
  "strrchr [] c = None"
| "strrchr (x # xs) c =
     (case strrchr xs c of Some i \<Rightarrow> Some (Suc i) | None \<Rightarrow> if x = c then Some 0 else None)"

record sfile =
  sf_data :: string
  sf_size :: int

definition sfile_new :: "string \<Rightarrow> sfile" where
  "sfile_new filename =
     (let d = (case strrchr filename CHR ''/'' of Some i \<Rightarrow> drop (Suc i) filename | None \<Rightarrow> filename)
      in \<lparr>sf_data = d, sf_size = int (strlen d)\<rparr>)"

section \<open>The logger\<close>

text \<open>
  What a logger takes from its surroundings: the uninitialised bytes of its stack buffer, the
  thread's time buffer, the clock, and the texts of \<^verbatim>\<open>strerror_r\<close>.
\<close>

record log_env =
  le_raw :: string
  le_timebuf :: string
  le_now :: tm
  le_strerror :: "errno \<Rightarrow> string"

record logger_impl =
  im_stream :: logstream
  im_level :: loglevel
  im_line :: "32 word"
  im_base :: sfile

record log_globals =
  g_loglevel :: loglevel
  g_output :: nat                      \<comment> \<open>which output function is installed\<close>
  g_flush :: nat                       \<comment> \<open>which flush function is installed\<close>
  g_out :: "(nat \<times> string) list"       \<comment> \<open>calls of the output function, with the bytes given to it\<close>
  g_flushed :: "nat list"              \<comment> \<open>calls of the flush function\<close>

definition format_time :: "log_env \<Rightarrow> logstream \<Rightarrow> logstream result" where
  "format_time env ls =
     put_gtemplate ls \<lparr>gt_data = Some (time_to_cstring (le_timebuf env) (le_now env)), gt_len = 19\<rparr>"

definition errno_msg :: "log_env \<Rightarrow> errno \<Rightarrow> string" where
  "errno_msg env e = le_strerror env e"

text \<open>The item for \<^verbatim>\<open>level_name[level]\<close>; \<^verbatim>\<open>LEVEL_COUNT\<close> indexes behind the table.\<close>

definition level_item :: "loglevel \<Rightarrow> log_item result" where
  "level_item level =
     (if level_value level < length level_name
      then Inr (LGtemplate \<lparr>gt_data = Some (level_name ! level_value level),
                            gt_len = level_name_len ! level_value level\<rparr>)
      else Inl Out_Of_Bounds)"

definition logger_impl_new ::
    "log_env \<Rightarrow> loglevel \<Rightarrow> errno \<Rightarrow> string \<Rightarrow> 32 word \<Rightarrow> logger_impl result" where
  "logger_impl_new env level err path line =
     (let base = sfile_new path;
          ls0 = \<lparr>ls_buffer = fixedbuffer_new (le_raw env)\<rparr> in
      bind_res (format_time env ls0) (\<lambda>ls1.
      bind_res (fold_res logstream_put ls1
        [LChar CHR '' '', LGtemplate \<lparr>gt_data = Some (sf_data base), gt_len = sf_size base\<rparr>,
         LChar CHR '':'', LInt line]) (\<lambda>ls2.
      bind_res (level_item level) (\<lambda>li.
      bind_res (logstream_put ls2 li) (\<lambda>ls3.
      bind_res (if err \<noteq> 0 then fold_res logstream_put ls3
                  [LCStr (Some (errno_msg env err)), LCStr (Some '' (errno=''),
                   LInt (word_of_int err), LCStr (Some '') '')]
                else Inr ls3) (\<lambda>ls4.
      Inr \<lparr>im_stream = ls4, im_level = level, im_line = line, im_base = base\<rparr>))))))"

definition logger_impl_finish :: "logger_impl \<Rightarrow> logger_impl result" where
  "logger_impl_finish im =
     bind_res (put_char (im_stream im) CHR 0x0A) (\<lambda>ls. Inr (im\<lparr>im_stream := ls\<rparr>))"

definition logger_new_info :: "log_env \<Rightarrow> string \<Rightarrow> 32 word \<Rightarrow> logger_impl result" where
  "logger_new_info env path line = logger_impl_new env INFO 0 path line"

definition logger_new_level :: "log_env \<Rightarrow> string \<Rightarrow> 32 word \<Rightarrow> loglevel \<Rightarrow> logger_impl result" where
  "logger_new_level env path line level = logger_impl_new env level 0 path line"

definition logger_new_func ::
    "log_env \<Rightarrow> string \<Rightarrow> 32 word \<Rightarrow> loglevel \<Rightarrow> string \<Rightarrow> logger_impl result" where
  "logger_new_func env path line level func =
     bind_res (logger_impl_new env level 0 path line) (\<lambda>im.
     bind_res (fold_res logstream_put (im_stream im)
                 [LChar CHR ''{'', LCStr (Some func), LCStr (Some ''} '')]) (\<lambda>ls.
     Inr (im\<lparr>im_stream := ls\<rparr>)))"

text \<open>
  The destructor: the finished line goes to the installed output function; a fatal logger flushes
  and aborts the process, which the second component reports.
\<close>

definition logger_destroy ::
    "log_globals \<Rightarrow> logger_impl \<Rightarrow> log_globals \<times> cxx_error option" where
  "logger_destroy g im =
     (case logger_impl_finish im of
        Inl e \<Rightarrow> (g, Some e)
      | Inr im' \<Rightarrow>
        (let buf = ls_buffer (im_stream im');
             g1 = g\<lparr>g_out := g_out g @ [(g_output g, take (nat (fixedbuffer_used buf)) (fb_data buf))]\<rparr>
         in if im_level im' = FATAL
            then (g1\<lparr>g_flushed := g_flushed g1 @ [g_flush g1]\<rparr>, Some Aborted)
            else (g1, None)))"

definition logger_set_level :: "log_globals \<Rightarrow> loglevel \<Rightarrow> log_globals" where
  "logger_set_level g level = g\<lparr>g_loglevel := level\<rparr>"

definition logger_set_output :: "log_globals \<Rightarrow> nat \<Rightarrow> log_globals" where
  "logger_set_output g out = g\<lparr>g_output := out\<rparr>"

definition logger_set_flush :: "log_globals \<Rightarrow> nat \<Rightarrow> log_globals" where
  "logger_set_flush g f = g\<lparr>g_flush := f\<rparr>"

definition cai_loglevel :: "log_globals \<Rightarrow> loglevel" where
  "cai_loglevel g = g_loglevel g"

section \<open>The macros\<close>

text \<open>
  A use of a macro builds a temporary logger, streams the items and destroys the logger.  The guard
  of \<^verbatim>\<open>LOG_DEBUG\<close> and \<^verbatim>\<open>LOG_INFO\<close> is written \<^verbatim>\<open>cai::logger::loglevel() <= ...\<close>: inside the class
  that name is the enumeration type, so the expression is a value-initialised enumerator.
\<close>

definition loglevel_value_init :: loglevel where
  "loglevel_value_init = TRACE"

definition log_statement ::
    "log_globals \<Rightarrow> logger_impl result \<Rightarrow> log_item list \<Rightarrow> log_globals \<times> cxx_error option" where
  "log_statement g logger items =
     (case bind_res logger (\<lambda>im. bind_res (fold_res logstream_put (im_stream im) items)
                                  (\<lambda>ls. Inr (im\<lparr>im_stream := ls\<rparr>))) of
        Inl e \<Rightarrow> (g, Some e)
      | Inr im \<Rightarrow> logger_destroy g im)"

definition LOG_DEBUG ::
    "log_env \<Rightarrow> string \<Rightarrow> 32 word \<Rightarrow> string \<Rightarrow> log_item list \<Rightarrow> log_globals \<Rightarrow> log_globals \<times> cxx_error option" where
  "LOG_DEBUG env path line func items g =
     (if loglevel_value_init \<le> DEBUG
      then log_statement g (logger_new_func env path line DEBUG func) items else (g, None))"

definition LOG_INFO ::
    "log_env \<Rightarrow> string \<Rightarrow> 32 word \<Rightarrow> log_item list \<Rightarrow> log_globals \<Rightarrow> log_globals \<times> cxx_error option" where
  "LOG_INFO env path line items g =
     (if loglevel_value_init \<le> INFO
      then log_statement g (logger_new_info env path line) items else (g, None))"

definition LOG_WARN ::
    "log_env \<Rightarrow> string \<Rightarrow> 32 word \<Rightarrow> log_item list \<Rightarrow> log_globals \<Rightarrow> log_globals \<times> cxx_error option" where
  "LOG_WARN env path line items g = log_statement g (logger_new_level env path line WARN) items"

definition LOG_ERROR ::
    "log_env \<Rightarrow> string \<Rightarrow> 32 word \<Rightarrow> log_item list \<Rightarrow> log_globals \<Rightarrow> log_globals \<times> cxx_error option" where
  "LOG_ERROR env path line items g = log_statement g (logger_new_level env path line ERROR) items"

definition LOG_FATAL ::
    "log_env \<Rightarrow> string \<Rightarrow> 32 word \<Rightarrow> log_item list \<Rightarrow> log_globals \<Rightarrow> log_globals \<times> cxx_error option" where
  "LOG_FATAL env path line items g = log_statement g (logger_new_level env path line FATAL) items"

text \<open>
  The \<^verbatim>\<open>LOG_*F\<close> macros format into a local array of 1024 bytes first; \<open>formatted\<close> is the full text
  of the \<^verbatim>\<open>printf\<close> conversion.
\<close>

definition logf_item :: "string \<Rightarrow> log_item" where
  "logf_item formatted = LCStr (Some (snprintf_buf 1024 formatted))"

definition LOG_DEBUGF ::
    "log_env \<Rightarrow> string \<Rightarrow> 32 word \<Rightarrow> string \<Rightarrow> string \<Rightarrow> log_globals \<Rightarrow> log_globals \<times> cxx_error option" where
  "LOG_DEBUGF env path line func formatted g =
     (if loglevel_value_init \<le> DEBUG
      then log_statement g (logger_new_func env path line DEBUG func) [logf_item formatted]
      else (g, None))"

definition LOG_INFOF ::
    "log_env \<Rightarrow> string \<Rightarrow> 32 word \<Rightarrow> string \<Rightarrow> log_globals \<Rightarrow> log_globals \<times> cxx_error option" where
  "LOG_INFOF env path line formatted g = LOG_INFO env path line [logf_item formatted] g"

definition LOG_WARNF ::
    "log_env \<Rightarrow> string \<Rightarrow> 32 word \<Rightarrow> string \<Rightarrow> log_globals \<Rightarrow> log_globals \<times> cxx_error option" where
  "LOG_WARNF env path line formatted g = LOG_WARN env path line [logf_item formatted] g"

definition LOG_ERRORF ::
    "log_env \<Rightarrow> string \<Rightarrow> 32 word \<Rightarrow> string \<Rightarrow> log_globals \<Rightarrow> log_globals \<times> cxx_error option" where
  "LOG_ERRORF env path line formatted g = LOG_ERROR env path line [logf_item formatted] g"

definition LOG_FATALF ::
    "log_env \<Rightarrow> string \<Rightarrow> 32 word \<Rightarrow> string \<Rightarrow> log_globals \<Rightarrow> log_globals \<times> cxx_error option" where
  "LOG_FATALF env path line formatted g = LOG_FATAL env path line [logf_item formatted] g"

section \<open>Base names\<close>

lemma strrchr_None: "strrchr s c = None \<longleftrightarrow> c \<notin> set s"
  by (induction s) (auto split: option.splits)

lemma strrchr_Some:
  "strrchr s c = Some i \<Longrightarrow> i < length s \<and> s ! i = c \<and> c \<notin> set (drop (Suc i) s)"
proof (induction s arbitrary: i)
  case (Cons x xs)
  then show ?case
    by (cases "strrchr xs c") (auto simp: strrchr_None split: if_splits)
qed simp

lemma sfile_data_no_slash: "CHR ''/'' \<notin> set (sf_data (sfile_new f))"
proof (cases "strrchr f CHR ''/''")
  case None
  then have "CHR ''/'' \<notin> set f" by (simp add: strrchr_None)
  with None show ?thesis by (simp add: sfile_new_def Let_def del: strrchr.simps)
next
  case (Some i)
  then show ?thesis using strrchr_Some [OF Some] by (simp add: sfile_new_def Let_def)
qed

lemma sfile_size_le: "sf_size (sfile_new f) \<le> int (length (sf_data (sfile_new f)))"
  by (simp add: sfile_new_def Let_def)

lemma sfile_size_nonneg: "0 \<le> sf_size (sfile_new f)"
  by (simp add: sfile_new_def Let_def)

lemma length_sf_data: "length (sf_data (sfile_new f)) \<le> length f"
  by (simp add: sfile_new_def Let_def split: option.splits)

text \<open>
  The base name a log line shows contains no slash and is what follows the last slash of the
  path: the path itself when it has none.
\<close>

theorem sfile_basename:
  "CHR ''/'' \<notin> set (sf_data (sfile_new path)) \<and>
   (sf_data (sfile_new path) = path \<or> (\<exists>dir. path = dir @ ''/'' @ sf_data (sfile_new path)))"
proof (cases "strrchr path CHR ''/''")
  case None
  then show ?thesis using sfile_data_no_slash [of path] by (simp add: sfile_new_def Let_def)
next
  case (Some i)
  then have "path = take i path @ ''/'' @ drop (Suc i) path"
    using strrchr_Some [OF Some] id_take_nth_drop [of i path] by simp
  then show ?thesis
    using Some sfile_data_no_slash [of path] by (auto simp: sfile_new_def Let_def)
qed

section \<open>Lines\<close>

definition tm_ok :: "tm \<Rightarrow> bool" where
  "tm_ok t \<longleftrightarrow> -900 \<le> tm_year t \<and> tm_year t < 8100 \<and> 0 \<le> tm_mon t \<and> tm_mon t < 12 \<and>
     0 \<le> tm_mday t \<and> tm_mday t < 32 \<and> 0 \<le> tm_hour t \<and> tm_hour t < 24 \<and>
     0 \<le> tm_min t \<and> tm_min t < 60 \<and> 0 \<le> tm_sec t \<and> tm_sec t \<le> 60"

definition log_env_ok :: "log_env \<Rightarrow> bool" where
  "log_env_ok env \<longleftrightarrow> length (le_raw env) = KB_BUFFER_SIZE \<and> length (le_timebuf env) = 64 \<and>
     tm_ok (le_now env)"

definition log_prefix :: "log_env \<Rightarrow> loglevel \<Rightarrow> string \<Rightarrow> 32 word \<Rightarrow> string" where
  "log_prefix env level path line =
     time_text (le_now env) @ '' '' @ c_str (sf_data (sfile_new path)) @ '':'' @ dec_int (sint line) @
     level_name ! level_value level"

definition prefix_items :: "log_env \<Rightarrow> loglevel \<Rightarrow> string \<Rightarrow> 32 word \<Rightarrow> log_item list" where
  "prefix_items env level path line =
     [LGtemplate \<lparr>gt_data = Some (time_to_cstring (le_timebuf env) (le_now env)), gt_len = 19\<rparr>,
      LChar CHR '' '',
      LGtemplate \<lparr>gt_data = Some (sf_data (sfile_new path)), gt_len = sf_size (sfile_new path)\<rparr>,
      LChar CHR '':'', LInt line,
      LGtemplate \<lparr>gt_data = Some (level_name ! level_value level),
                  gt_len = level_name_len ! level_value level\<rparr>]"

definition log_start :: "log_env \<Rightarrow> logstream" where
  "log_start env = \<lparr>ls_buffer = fixedbuffer_new (le_raw env)\<rparr>"

definition log_emit :: "log_globals \<Rightarrow> loglevel \<Rightarrow> string \<Rightarrow> log_globals \<times> cxx_error option" where
  "log_emit g level text =
     (let g1 = g\<lparr>g_out := g_out g @ [(g_output g, text)]\<rparr> in
      if level = FATAL then (g1\<lparr>g_flushed := g_flushed g1 @ [g_flush g1]\<rparr>, Some Aborted)
      else (g1, None))"

lemma level_item_Inr:
  "level \<noteq> LEVEL_COUNT \<Longrightarrow>
     level_item level = Inr (LGtemplate \<lparr>gt_data = Some (level_name ! level_value level),
                                         gt_len = level_name_len ! level_value level\<rparr>)"
  by (cases level) (simp_all add: level_item_def level_name_def)

lemma logger_new_level_items:
  assumes "level \<noteq> LEVEL_COUNT"
  shows "logger_new_level env path line level =
     bind_res (fold_res logstream_put (log_start env) (prefix_items env level path line))
       (\<lambda>ls. Inr \<lparr>im_stream = ls, im_level = level, im_line = line, im_base = sfile_new path\<rparr>)"
  using assms
  by (simp add: logger_new_level_def logger_impl_new_def format_time_def level_item_Inr
      prefix_items_def log_start_def Let_def bind_res_assoc)

lemma logger_destroy_emit:
  "logger_destroy g im = (case put_char (im_stream im) CHR 0x0A of
       Inl e \<Rightarrow> (g, Some e) | Inr ls \<Rightarrow> log_emit g (im_level im) (ls_text ls))"
  by (cases "put_char (im_stream im) CHR 0x0A")
    (simp_all add: logger_destroy_def logger_impl_finish_def log_emit_def ls_text_def fb_text_def
      fixedbuffer_used_def Let_def)

lemma log_statement_items:
  assumes "level \<noteq> LEVEL_COUNT"
  shows "log_statement g (logger_new_level env path line level) items =
     (case fold_res logstream_put (log_start env)
             (prefix_items env level path line @ items @ [LChar CHR 0x0A]) of
        Inl e \<Rightarrow> (g, Some e) | Inr ls \<Rightarrow> log_emit g level (ls_text ls))"
  using assms
  by (auto simp: log_statement_def logger_new_level_items fold_res_append logger_destroy_emit
      bind_res_def split: sum.splits)

lemma length_pad2: "0 \<le> n \<Longrightarrow> n < 100 \<Longrightarrow> length (pad2 n) = 2"
proof (cases "n < 10")
  case False
  assume "n < 100"
  then have "10 ^ 1 \<le> nat n" "nat n < 10 ^ Suc 1" using False by simp_all
  then have "length (dec_nat (nat n)) = Suc 1" by (rule length_dec_nat_exact)
  with False show ?thesis by (simp add: pad2_def dec_int_def)
qed (simp add: pad2_def dec_int_def dec_nat.simps)

lemma length_time_text: "tm_ok t \<Longrightarrow> length (time_text t) = 19"
proof -
  assume t: "tm_ok t"
  then have "length (dec_int (tm_year t + 1900)) = 4"
    using length_dec_nat_exact [of 3 "nat (tm_year t + 1900)"]
    by (simp add: tm_ok_def dec_int_def nat_less_iff le_nat_iff)
  with t show ?thesis by (simp add: time_text_def length_pad2 tm_ok_def)
qed

lemma take_time_cstring:
  "log_env_ok env \<Longrightarrow> take 19 (time_to_cstring (le_timebuf env) (le_now env)) = time_text (le_now env)"
  by (simp add: time_to_cstring_def overwrite_def length_time_text log_env_ok_def)

lemma length_time_cstring: "log_env_ok env \<Longrightarrow> length (time_to_cstring (le_timebuf env) (le_now env)) = 64"
  by (simp add: time_to_cstring_def length_time_text log_env_ok_def)

lemma level_name_len_correct:
  "level \<noteq> LEVEL_COUNT \<Longrightarrow>
     level_name_len ! level_value level = int (length (level_name ! level_value level)) \<and>
     length (level_name ! level_value level) \<le> 9"
  by (cases level) (simp_all add: level_name_len_def level_name_def)

lemma prefix_items_ok:
  assumes "log_env_ok env" "level \<noteq> LEVEL_COUNT" "length path < 2 ^ 31"
  shows "\<forall>i \<in> set (prefix_items env level path line). item_ok i"
  using assms sfile_size_le [of path] sfile_size_nonneg [of path] length_sf_data [of path]
    level_name_len_correct [OF assms(2)]
  by (simp add: prefix_items_def length_time_cstring)

lemma prefix_items_text:
  assumes "log_env_ok env" "level \<noteq> LEVEL_COUNT"
  shows "concat (map item_text (prefix_items env level path line)) = log_prefix env level path line"
proof -
  have "sf_size (sfile_new path) = int (strlen (sf_data (sfile_new path)))"
    by (simp add: sfile_new_def Let_def)
  then show ?thesis
    using assms level_name_len_correct [OF assms(2)]
    by (simp add: prefix_items_def log_prefix_def take_time_cstring)
qed

lemma log_start_inv [simp]: "log_env_ok env \<Longrightarrow> ls_inv (log_start env)"
  by (simp add: ls_inv_def log_start_def log_env_ok_def fb_inv_new KB_BUFFER_SIZE_def)

lemma log_start_text [simp]: "ls_text (log_start env) = []"
  by (simp add: ls_text_def log_start_def buf_simps)

lemma log_start_room [simp]: "log_env_ok env \<Longrightarrow> ls_room (log_start env) = 1024"
  by (simp add: ls_room_def log_start_def log_env_ok_def buf_simps KB_BUFFER_SIZE_def)

section \<open>Properties\<close>

text \<open>
  C27.  The line a log statement writes: when time stamp, base name, line number, level name and the
  streamed items leave 48 bytes of the 1024 byte buffer free, the installed output function gets
  exactly one call, with these texts in this order and a newline; only a fatal statement flushes
  and aborts.
\<close>

theorem log_line_layout:
  assumes "log_env_ok env" and "level \<noteq> LEVEL_COUNT" and "length path < 2 ^ 31"
    and "\<forall>i \<in> set items. item_ok i"
    and "length (log_prefix env level path line @ concat (map item_text items)) + 49 \<le> KB_BUFFER_SIZE"
  shows "log_statement g (logger_new_level env path line level) items =
    (let g1 = g\<lparr>g_out := g_out g @ [(g_output g,
                 log_prefix env level path line @ concat (map item_text items) @ [CHR 0x0A])]\<rparr>
     in if level = FATAL then (g1\<lparr>g_flushed := g_flushed g @ [g_flush g]\<rparr>, Some Aborted) else (g1, None))"
proof -
  let ?xs = "prefix_items env level path line @ items @ [LChar CHR 0x0A]"
  have all: "concat (map item_text ?xs) =
      log_prefix env level path line @ concat (map item_text items) @ [CHR 0x0A]"
    using prefix_items_text [OF assms(1,2)] by simp
  have ok: "\<forall>i \<in> set ?xs. item_ok i"
    using prefix_items_ok [OF assms(1-3)] assms(4) by auto
  have "length (concat (map item_text ?xs)) + MAX_NUM_SIZE \<le> ls_room (log_start env)"
    using assms(1,5) all by (simp add: KB_BUFFER_SIZE_def MAX_NUM_SIZE_def)
  from lsink.puts_all_fit [OF log_start_inv [OF assms(1)] ok this] all show ?thesis
    by (auto simp: log_statement_items [OF assms(2)] log_emit_def Let_def)
qed

definition log_env_example :: log_env where
  "log_env_example = \<lparr>le_raw = replicate KB_BUFFER_SIZE NUL, le_timebuf = replicate 64 NUL,
     le_now = \<lparr>tm_year = 125, tm_mon = 2, tm_mday = 9, tm_hour = 17, tm_min = 5, tm_sec = 30\<rparr>,
     le_strerror = (\<lambda>_. ''error'')\<rparr>"

definition log_globals_example :: log_globals where
  "log_globals_example = \<lparr>g_loglevel = initloglevel, g_output = 0, g_flush = 0, g_out = [], g_flushed = []\<rparr>"

lemma log_env_example_ok [simp]: "log_env_ok log_env_example"
  by (simp add: log_env_ok_def log_env_example_def tm_ok_def)

theorem log_line_layout_witness:
  "log_statement log_globals_example (logger_new_level log_env_example ''src/net/tcp_conn.cpp'' 7 ERROR)
       [LCStr (Some ''write error'')] =
    (let g1 = log_globals_example\<lparr>g_out := g_out log_globals_example @ [(g_output log_globals_example,
        log_prefix log_env_example ERROR ''src/net/tcp_conn.cpp'' 7 @
        concat (map item_text [LCStr (Some ''write error'')]) @ [CHR 0x0A])]\<rparr>
     in if ERROR = FATAL
        then (g1\<lparr>g_flushed := g_flushed log_globals_example @ [g_flush log_globals_example]\<rparr>, Some Aborted)
        else (g1, None))"
proof (rule log_line_layout)
  show "length (log_prefix log_env_example ERROR ''src/net/tcp_conn.cpp'' 7 @
      concat (map item_text [LCStr (Some ''write error'')])) + 49 \<le> KB_BUFFER_SIZE"
    by code_simp
qed simp_all

text \<open>
  The level threshold has no effect: after \<^verbatim>\<open>set_level\<close> with any level, \<^verbatim>\<open>LOG_INFO\<close> still hands
  exactly one line (of at most 1023 bytes, whatever the items) to the output function.  The guard of
  the macro compares a value-initialised enumerator instead of the threshold.
\<close>

theorem log_info_ignores_level:
  assumes "log_env_ok env" and "length path < 2 ^ 31" and "\<forall>i \<in> set items. item_ok i"
  shows "\<exists>text. LOG_INFO env path line items (logger_set_level g threshold) =
           ((logger_set_level g threshold)\<lparr>g_out := g_out g @ [(g_output g, text)]\<rparr>, None) \<and>
           length text < KB_BUFFER_SIZE"
proof -
  let ?xs = "prefix_items env INFO path line @ items @ [LChar CHR 0x0A]"
  have ok: "\<forall>i \<in> set ?xs. item_ok i"
    using prefix_items_ok [OF assms(1) _ assms(2), of INFO line] assms(3) by auto
  obtain ls where ls: "fold_res logstream_put (log_start env) ?xs = Inr ls" "ls_inv ls"
    "length (ls_text ls) + ls_room ls = 1024"
    using lsink.puts_total [OF log_start_inv [OF assms(1)] ok] assms(1) by auto
  have "0 < ls_room ls" using ls(2) by (simp add: ls_inv_def ls_room_def fb_inv_def fb_room_def)
  then have "length (ls_text ls) < KB_BUFFER_SIZE" using ls(3) by (simp add: KB_BUFFER_SIZE_def)
  moreover have "LOG_INFO env path line items (logger_set_level g threshold) =
      log_emit (logger_set_level g threshold) INFO (ls_text ls)"
    using ls(1) log_statement_items [of INFO "logger_set_level g threshold" env path line items]
    by (simp add: LOG_INFO_def loglevel_value_init_def less_eq_loglevel_def logger_new_info_def
        logger_new_level_def)
  ultimately show ?thesis
    by (auto simp: log_emit_def logger_set_level_def Let_def)
qed

theorem log_info_ignores_level_witness:
  "\<exists>text. LOG_INFO log_env_example ''a.cpp'' 3 [LCStr (Some ''hi'')] (logger_set_level log_globals_example FATAL) =
     ((logger_set_level log_globals_example FATAL)\<lparr>g_out := g_out log_globals_example @
        [(g_output log_globals_example, text)]\<rparr>, None) \<and> length text < KB_BUFFER_SIZE"
  by (rule log_info_ignores_level) simp_all

end
