(* ===== verification/CThread.thy ===== *)
theory CThread
  imports Prelude
begin

text \<open>
  Thread identity (\<^verbatim>\<open>include/thread/cthread.h\<close>, \<^verbatim>\<open>src/thread/cthread.cpp\<close>) and the thread wrapper
  (\<^verbatim>\<open>include/thread/thread.h\<close>, \<^verbatim>\<open>src/thread/thread.cpp\<close>).
\<close>

section \<open>Cached thread identifiers\<close>

text \<open>
  The thread-local \<^verbatim>\<open>tid_\<close> starts at 0; \<open>gettid\<close> is the kernel's answer for the calling thread.  Both
  functions return the new value of the variable.
\<close>

definition cthread_tid_init :: tid where
  "cthread_tid_init = 0"

definition cthread_cache :: "tid \<Rightarrow> tid" where
  "cthread_cache gettid = gettid"

definition cthread_tid :: "tid \<Rightarrow> tid \<Rightarrow> tid \<times> tid" where
  "cthread_tid gettid cached =
     (let tid' = (if cached = 0 then cthread_cache gettid else cached) in (tid', tid'))"

lemma cthread_tid_caches:
  assumes "gettid \<noteq> 0"
  shows "fst (cthread_tid gettid cthread_tid_init) = gettid"
    and "cthread_tid other (snd (cthread_tid gettid cthread_tid_init)) = (gettid, gettid)"
  using assms by (simp_all add: cthread_tid_def cthread_cache_def cthread_tid_init_def Let_def)

section \<open>The thread wrapper\<close>

text \<open>
  \<open>th_thread\<close> is the owned \<^verbatim>\<open>std::thread\<close>: none, or one that is joinable or not.  The function to run
  is only an identity here; \<open>th_running\<close> records the functions the spawned threads were given.
\<close>

record thread =
  th_started :: bool
  th_joined :: bool
  th_thread :: "bool option"
  th_tid :: tid
  th_func :: nat
  th_name :: string
  th_running :: "nat list"

text \<open>\<^verbatim>\<open>set_default\<close>: \<^verbatim>\<open>++tcount_\<close> is a wrapping 32-bit counter shared by all threads.\<close>

definition thread_set_default :: "32 word \<Rightarrow> thread \<Rightarrow> thread \<times> 32 word" where
  "thread_set_default tcount th =
     (if th_name th = [] then
        (let tcount' = tcount + 1 in
         (th\<lparr>th_name := snprintf_buf 32 (''thread'' @ dec_int (sint tcount'))\<rparr>, tcount'))
      else (th, tcount))"

definition thread_new :: "32 word \<Rightarrow> nat \<Rightarrow> string \<Rightarrow> thread \<times> 32 word" where
  "thread_new tcount func name =
     thread_set_default tcount
       \<lparr>th_started = False, th_joined = False, th_thread = None, th_tid = 0, th_func = func,
        th_name = name, th_running = []\<rparr>"

definition thread_get_tid :: "thread \<Rightarrow> tid" where
  "thread_get_tid th = th_tid th"

text \<open>
  \<^verbatim>\<open>start\<close>: \<open>spawned\<close> tells whether the system could create a thread.  Assigning the new
  \<^verbatim>\<open>std::thread\<close> destroys the old one, which terminates the process if it is still joinable.  The
  new thread executes \<^verbatim>\<open>tid_ = thread::tid()\<close> before it runs the function.
\<close>

definition thread_start :: "bool \<Rightarrow> thread \<Rightarrow> thread result" where
  "thread_start spawned th =
     (let th1 = th\<lparr>th_started := True\<rparr> in
      if \<not> spawned then Inl System_Error
      else if th_thread th1 = Some True then Inl Terminated
      else (let th2 = th1\<lparr>th_thread := Some True\<rparr>;
                th3 = th2\<lparr>th_tid := thread_get_tid th2\<rparr>
            in Inr (th3\<lparr>th_running := th_running th3 @ [th_func th3]\<rparr>)))"

definition thread_join :: "thread \<Rightarrow> thread result" where
  "thread_join th =
     (let th1 = th\<lparr>th_joined := True\<rparr> in
      case th_thread th1 of
        None \<Rightarrow> Inl Null_Deref
      | Some joinable \<Rightarrow>
          if joinable then Inr (th1\<lparr>th_thread := Some False\<rparr>) else Inl System_Error)"

text \<open>The destructor detaches an unjoined thread, then the owned \<^verbatim>\<open>std::thread\<close> is destroyed.\<close>

definition thread_destroy :: "thread \<Rightarrow> unit result" where
  "thread_destroy th =
     bind_res (if th_started th \<and> \<not> th_joined th then
                 (case th_thread th of
                    None \<Rightarrow> Inl Null_Deref
                  | Some joinable \<Rightarrow> if joinable then Inr (Some False) else Inl System_Error)
               else Inr (th_thread th))
       (\<lambda>t. if t = Some True then Inl Terminated else Inr ())"

datatype thread_op = Start | Join

fun thread_apply :: "thread \<Rightarrow> thread_op \<Rightarrow> thread result" where
  "thread_apply th Start = thread_start True th"
| "thread_apply th Join = thread_join th"

section \<open>Life cycle\<close>

text \<open>A thread is joinable exactly while it was started and not yet joined.\<close>

definition thread_inv :: "thread \<Rightarrow> bool" where
  "thread_inv th \<longleftrightarrow> th_tid th = 0 \<and>
     (th_thread th = Some True \<longleftrightarrow> th_started th \<and> \<not> th_joined th) \<and>
     (th_thread th = None \<longleftrightarrow> \<not> th_started th) \<and> (th_joined th \<longrightarrow> th_started th)"

lemma thread_set_default_frame [simp]:
  "th_started (fst (thread_set_default c th)) = th_started th"
  "th_joined (fst (thread_set_default c th)) = th_joined th"
  "th_thread (fst (thread_set_default c th)) = th_thread th"
  "th_tid (fst (thread_set_default c th)) = th_tid th"
  "th_func (fst (thread_set_default c th)) = th_func th"
  "th_running (fst (thread_set_default c th)) = th_running th"
  by (simp_all add: thread_set_default_def Let_def)

lemma thread_inv_new [inv_intros]: "thread_inv (fst (thread_new c f n))"
  by (simp add: thread_inv_def thread_new_def)

lemma thread_start_fresh:
  assumes "thread_inv th" "\<not> th_started th"
  shows "\<exists>th'. thread_start True th = Inr th' \<and> thread_inv th' \<and> th_started th' \<and>
           th_running th' = th_running th @ [th_func th]"
  using assms by (simp add: thread_start_def thread_inv_def thread_get_tid_def Let_def)

lemma thread_start_running:
  "thread_inv th \<Longrightarrow> th_started th \<Longrightarrow> \<not> th_joined th \<Longrightarrow> thread_start True th = Inl Terminated"
  by (simp add: thread_start_def thread_inv_def Let_def)

lemma thread_join_running:
  assumes "thread_inv th" "th_started th" "\<not> th_joined th"
  shows "\<exists>th'. thread_join th = Inr th' \<and> thread_inv th' \<and> th_joined th'"
proof -
  have "th_thread th = Some True" using assms by (simp add: thread_inv_def)
  with assms show ?thesis by (simp add: thread_join_def thread_inv_def Let_def)
qed

lemma thread_destroy_safe: "thread_inv th \<Longrightarrow> thread_destroy th = Inr ()"
  by (cases "th_thread th") (auto simp: thread_destroy_def thread_inv_def)

lemma thread_apply_tid:
  "thread_apply th x = Inr th' \<Longrightarrow> th_tid th' = th_tid th"
  by (cases x) (auto simp: thread_start_def thread_join_def thread_get_tid_def Let_def
      split: if_splits option.splits)

section \<open>Properties\<close>


text \<open>
  The identifier of a wrapped thread is never recorded: after any sequence of starts and joins
  that returns, \<^verbatim>\<open>tid()\<close> is still 0, because the spawned function assigns the member to itself
  instead of asking \<^verbatim>\<open>cthread::tid()\<close>.
\<close>

theorem thread_tid_stays_zero:
  assumes "fold_res thread_apply (fst (thread_new c f n)) ops = Inr th"
  shows "thread_get_tid th = 0"
proof -
  have "th_tid th = th_tid th0" if "fold_res thread_apply th0 ops = Inr th" for th0
    using that
  proof (induction ops arbitrary: th0)
    case (Cons x ops)
    then show ?case by (auto simp: bind_res_eq_Inr dest: thread_apply_tid)
  qed simp
  from this [OF assms] show ?thesis by (simp add: thread_get_tid_def thread_new_def)
qed

theorem thread_tid_stays_zero_witness:
  "\<exists>th. fold_res thread_apply (fst (thread_new 0 7 ''worker'')) [Start, Join] = Inr th \<and>
     thread_get_tid th = 0"
proof -
  obtain th where th: "fold_res thread_apply (fst (thread_new 0 7 ''worker'')) [Start, Join] = Inr th"
    by (simp add: thread_new_def thread_set_default_def thread_start_def thread_join_def Let_def)
  with thread_tid_stays_zero [OF th] show ?thesis by blast
qed

end
