(* ===== verification/TPool.thy ===== *)
theory TPool
  imports CThread
begin

text \<open>
  The task pool of \<^verbatim>\<open>include/thread/tpool.h\<close> and \<^verbatim>\<open>src/thread/tpool.cpp\<close>: the operations of the class,
  and the interleavings of its clients with the worker loop \<^verbatim>\<open>run()\<close> as a step relation whose steps
  are the critical sections of the code.
\<close>

section \<open>The class\<close>

text \<open>A task is a \<^verbatim>\<open>std::function\<close>, possibly empty; \<open>tp_inits\<close> counts calls of the init callback in \<^verbatim>\<open>start\<close>.\<close>

type_synonym task = "nat option"

record tpool =
  tp_name :: string
  tp_init_callback :: bool
  tp_threads :: "thread list"
  tp_queue :: "task list"
  tp_running :: bool
  tp_tsize :: nat
  tp_inits :: nat

definition tpool_new :: "string \<Rightarrow> tpool" where
  "tpool_new name = \<lparr>tp_name = name, tp_init_callback = False, tp_threads = [], tp_queue = [],
     tp_running = False, tp_tsize = 0, tp_inits = 0\<rparr>"

definition tpool_set_tcallback :: "tpool \<Rightarrow> bool \<Rightarrow> tpool" where
  "tpool_set_tcallback p cb = p\<lparr>tp_init_callback := cb\<rparr>"

definition tpool_set_tsize :: "tpool \<Rightarrow> int \<Rightarrow> tpool" where
  "tpool_set_tsize p num = p\<lparr>tp_tsize := size_of_int num\<rparr>"

text \<open>
  \<^verbatim>\<open>start\<close>: \<open>reserve\<close> throws beyond the maximal size of a vector of pointers; the loop creates thread
  \<open>i\<close>, named after the pool and \<open>i + 1\<close>, and starts the element at index \<open>i\<close>.
\<close>

definition tpool_spawn :: "tpool \<Rightarrow> nat \<Rightarrow> tpool result" where
  "tpool_spawn p i =
     (let th = fst (thread_new 0 0 (tp_name p @ snprintf_buf 32 (dec_nat (i + 1))));
          ths = tp_threads p @ [th] in
      bind_res (thread_start True (ths ! i)) (\<lambda>th'. Inr (p\<lparr>tp_threads := ths[i := th']\<rparr>)))"

definition tpool_start :: "tpool \<Rightarrow> tpool result" where
  "tpool_start p =
     (let p1 = p\<lparr>tp_running := True\<rparr> in
      if tp_tsize p1 > 1152921504606846975 then Inl Length_Error
      else bind_res (fold_res tpool_spawn p1 [0..<tp_tsize p1]) (\<lambda>p2.
           Inr (if tp_tsize p2 = 0 \<and> tp_init_callback p2 then p2\<lparr>tp_inits := tp_inits p2 + 1\<rparr> else p2)))"

definition tpool_stop :: "tpool \<Rightarrow> tpool" where
  "tpool_stop p = p\<lparr>tp_running := False\<rparr>"

definition tpool_qsize :: "tpool \<Rightarrow> nat" where
  "tpool_qsize p = length (tp_queue p)"

definition tpool_add :: "tpool \<Rightarrow> task \<Rightarrow> tpool" where
  "tpool_add p tf = p\<lparr>tp_queue := tp_queue p @ [tf]\<rparr>"

definition tpool_join_all :: "tpool \<Rightarrow> thread list result" where
  "tpool_join_all p =
     fold_res (\<lambda>done th. bind_res (thread_join th) (\<lambda>th'. Inr (done @ [th']))) [] (tp_threads p)"

definition tpool_destroy :: "tpool \<Rightarrow> thread list result" where
  "tpool_destroy p = tpool_join_all (tpool_stop p)"

text \<open>
  The critical section of \<^verbatim>\<open>run\<close>: with an empty queue the worker returns when the pool is stopped and
  otherwise waits on the condition variable; a non-empty queue yields its front.
\<close>

datatype take_result = Return | Wait | Take task

definition tpool_take :: "tpool \<Rightarrow> take_result \<times> tpool" where
  "tpool_take p =
     (case tp_queue p of
        [] \<Rightarrow> (if \<not> tp_running p then Return else Wait, p)
      | t # q \<Rightarrow> (Take t, p\<lparr>tp_queue := q\<rparr>))"

section \<open>Creating and joining the threads\<close>

definition spawned_thread :: "string \<Rightarrow> nat \<Rightarrow> thread \<Rightarrow> bool" where
  "spawned_thread name i th \<longleftrightarrow> thread_inv th \<and> th_started th \<and> \<not> th_joined th \<and>
     th_name th = name @ snprintf_buf 32 (dec_nat (i + 1))"

lemma thread_start_new:
  assumes "name \<noteq> []"
  shows "\<exists>th. thread_start True (fst (thread_new c f name)) = Inr th \<and> thread_inv th \<and>
           th_started th \<and> \<not> th_joined th \<and> th_name th = name"
  using assms
  by (simp add: thread_new_def thread_set_default_def thread_start_def thread_inv_def
      thread_get_tid_def Let_def)

lemma tpool_spawn_next:
  assumes "length (tp_threads p) = n"
  shows "\<exists>th. tpool_spawn p n = Inr (p\<lparr>tp_threads := tp_threads p @ [th]\<rparr>) \<and>
           spawned_thread (tp_name p) n th"
proof -
  let ?name = "tp_name p @ snprintf_buf 32 (dec_nat (n + 1))"
  have "?name \<noteq> []" by (simp add: snprintf_buf_def)
  from thread_start_new [OF this, of 0 0] obtain th where
    "thread_start True (fst (thread_new 0 0 ?name)) = Inr th" "spawned_thread (tp_name p) n th"
    by (auto simp: spawned_thread_def)
  with assms show ?thesis by (auto simp: tpool_spawn_def Let_def)
qed

lemma tpool_spawn_all:
  assumes "tp_threads p = []"
  shows "\<exists>ths. fold_res tpool_spawn p [0..<n] = Inr (p\<lparr>tp_threads := ths\<rparr>) \<and> length ths = n \<and>
           (\<forall>i < n. spawned_thread (tp_name p) i (ths ! i))"
proof (induction n)
  case 0
  then show ?case using assms by (intro exI [of _ "[]"]) simp
next
  case (Suc n)
  then obtain ths where ths: "fold_res tpool_spawn p [0..<n] = Inr (p\<lparr>tp_threads := ths\<rparr>)"
    "length ths = n" "\<forall>i < n. spawned_thread (tp_name p) i (ths ! i)" by blast
  obtain th where "tpool_spawn (p\<lparr>tp_threads := ths\<rparr>) n = Inr (p\<lparr>tp_threads := ths @ [th]\<rparr>)"
    "spawned_thread (tp_name p) n th"
    using tpool_spawn_next [of "p\<lparr>tp_threads := ths\<rparr>" n] ths(2) by auto
  with ths show ?case
    by (intro exI [of _ "ths @ [th]"]) (auto simp: fold_res_append nth_append less_Suc_eq)
qed

lemma join_all_ok:
  assumes "\<forall>th \<in> set ths. thread_inv th \<and> th_started th \<and> \<not> th_joined th"
  shows "\<exists>ds. fold_res (\<lambda>done th. bind_res (thread_join th) (\<lambda>th'. Inr (done @ [th']))) acc ths =
           Inr (acc @ ds) \<and> length ds = length ths \<and> (\<forall>d \<in> set ds. th_joined d)"
  using assms
proof (induction ths arbitrary: acc)
  case (Cons th ths)
  from Cons.prems have "thread_inv th" "th_started th" "\<not> th_joined th" by simp_all
  from thread_join_running [OF this] obtain th' where th': "thread_join th = Inr th'" "th_joined th'"
    by blast
  have "\<forall>th \<in> set ths. thread_inv th \<and> th_started th \<and> \<not> th_joined th"
    using Cons.prems by simp
  from Cons.IH [OF this, of "acc @ [th']"] obtain ds where
    "fold_res (\<lambda>done th. bind_res (thread_join th) (\<lambda>th'. Inr (done @ [th'])))
      (acc @ [th']) ths = Inr ((acc @ [th']) @ ds)" "length ds = length ths" "\<forall>d \<in> set ds. th_joined d"
    by blast
  with th' show ?case by (intro exI [of _ "th' # ds"]) simp
qed simp

section \<open>Workers and clients interleaved\<close>

text \<open>
  Where a worker thread is in \<^verbatim>\<open>run\<close>: before the init callback, about to lock the mutex, asleep on the
  condition variable, executing a task, returned, or past the \<^verbatim>\<open>catch\<close> block.
\<close>

datatype worker = W_Init | W_Check | W_Wait | W_Run task | W_Done | W_Dead

record pool_sys =
  ps_pool :: tpool
  ps_workers :: "worker list"
  ps_added :: "task list"      \<comment> \<open>every task ever added, in order\<close>
  ps_taken :: "task list"      \<comment> \<open>every task taken by a worker, in order\<close>

primrec after_take :: "take_result \<Rightarrow> worker" where
  "after_take Return = W_Done"
| "after_take Wait = W_Wait"
| "after_take (Take t) = W_Run t"

primrec taken_tasks :: "take_result \<Rightarrow> task list" where
  "taken_tasks Return = []"
| "taken_tasks Wait = []"
| "taken_tasks (Take t) = [t]"

definition notify_all :: "worker list \<Rightarrow> worker list" where
  "notify_all ws = map (\<lambda>w. if w = W_Wait then W_Check else w) ws"

text \<open>One step of worker \<open>i\<close>; an empty task is skipped, so it cannot throw.\<close>

inductive work :: "pool_sys \<Rightarrow> pool_sys \<Rightarrow> bool" where
  init_ok: "\<lbrakk>i < length (ps_workers s); ps_workers s ! i = W_Init\<rbrakk> \<Longrightarrow>
     work s (s\<lparr>ps_workers := (ps_workers s)[i := W_Check]\<rparr>)"
| init_throws: "\<lbrakk>i < length (ps_workers s); ps_workers s ! i = W_Init; tp_init_callback (ps_pool s)\<rbrakk> \<Longrightarrow>
     work s (s\<lparr>ps_workers := (ps_workers s)[i := W_Dead]\<rparr>)"
| check: "\<lbrakk>i < length (ps_workers s); ps_workers s ! i = W_Check; tpool_take (ps_pool s) = (r, p)\<rbrakk> \<Longrightarrow>
     work s (s\<lparr>ps_pool := p, ps_workers := (ps_workers s)[i := after_take r],
               ps_taken := ps_taken s @ taken_tasks r\<rparr>)"
| run_ok: "\<lbrakk>i < length (ps_workers s); ps_workers s ! i = W_Run t\<rbrakk> \<Longrightarrow>
     work s (s\<lparr>ps_workers := (ps_workers s)[i := W_Check]\<rparr>)"
| run_throws: "\<lbrakk>i < length (ps_workers s); ps_workers s ! i = W_Run (Some t)\<rbrakk> \<Longrightarrow>
     work s (s\<lparr>ps_workers := (ps_workers s)[i := W_Dead]\<rparr>)"

text \<open>
  A step of the whole system: a worker's step, a spurious wake-up, or a client calling \<^verbatim>\<open>add\<close> (with
  \<^verbatim>\<open>notify_one\<close> waking some waiter, if there is one) or \<^verbatim>\<open>stop\<close>.
\<close>

inductive pool_step :: "pool_sys \<Rightarrow> pool_sys \<Rightarrow> bool" where
  worker: "work s t \<Longrightarrow> pool_step s t"
| spurious: "\<lbrakk>i < length (ps_workers s); ps_workers s ! i = W_Wait\<rbrakk> \<Longrightarrow>
     pool_step s (s\<lparr>ps_workers := (ps_workers s)[i := W_Check]\<rparr>)"
| add_wakes: "\<lbrakk>i < length (ps_workers s); ps_workers s ! i = W_Wait\<rbrakk> \<Longrightarrow>
     pool_step s (s\<lparr>ps_pool := tpool_add (ps_pool s) t, ps_added := ps_added s @ [t],
                    ps_workers := (ps_workers s)[i := W_Check]\<rparr>)"
| add_no_waiter: "W_Wait \<notin> set (ps_workers s) \<Longrightarrow>
     pool_step s (s\<lparr>ps_pool := tpool_add (ps_pool s) t, ps_added := ps_added s @ [t]\<rparr>)"
| stop: "pool_step s (s\<lparr>ps_pool := tpool_stop (ps_pool s), ps_workers := notify_all (ps_workers s)\<rparr>)"

inductive_cases workE: "work s t"
inductive_cases pool_stepE: "pool_step s t"

text \<open>A started pool: every worker at the beginning of \<^verbatim>\<open>run\<close>, tasks possibly queued before.\<close>

definition pool_init :: "pool_sys \<Rightarrow> bool" where
  "pool_init s \<longleftrightarrow> tp_running (ps_pool s) \<and> (\<exists>n. ps_workers s = replicate n W_Init) \<and>
     ps_taken s = [] \<and> ps_added s = tp_queue (ps_pool s)"

section \<open>Invariant\<close>

text \<open>
  Tasks are taken in the order they were added and none is lost or duplicated; a stopped pool has no
  sleeping worker and a running pool no returned one; while a worker sleeps there are at least as
  many workers about to check as tasks in the queue.
\<close>

definition pool_inv :: "pool_sys \<Rightarrow> bool" where
  "pool_inv s \<longleftrightarrow> ps_added s = ps_taken s @ tp_queue (ps_pool s) \<and>
     (tp_running (ps_pool s) \<or> W_Wait \<notin> set (ps_workers s)) \<and>
     (tp_running (ps_pool s) \<longrightarrow> W_Done \<notin> set (ps_workers s)) \<and>
     (W_Wait \<in> set (ps_workers s) \<longrightarrow>
        length (tp_queue (ps_pool s)) \<le> count_list (ps_workers s) W_Check)"

lemmas take_cases = tpool_take_def list.case

lemma pool_inv_set_worker:
  assumes "pool_inv s" "i < length (ps_workers s)" "w \<noteq> W_Wait" "w \<noteq> W_Done"
    and "ps_workers s ! i \<noteq> W_Check"
  shows "pool_inv (s\<lparr>ps_workers := (ps_workers s)[i := w]\<rparr>)"
proof -
  have "count_list (ps_workers s) W_Check \<le> count_list ((ps_workers s)[i := w]) W_Check"
    using count_list_update [OF assms(2), of w W_Check] assms(5) by auto
  with assms in_set_update [of W_Wait "ps_workers s" i w] in_set_update [of W_Done "ps_workers s" i w]
  show ?thesis by (auto simp: pool_inv_def)
qed

lemma pool_inv_check:
  assumes inv: "pool_inv s" and i: "i < length (ps_workers s)" "ps_workers s ! i = W_Check"
    and take: "tpool_take (ps_pool s) = (r, p)"
  shows "pool_inv (s\<lparr>ps_pool := p, ps_workers := (ps_workers s)[i := after_take r],
                     ps_taken := ps_taken s @ taken_tasks r\<rparr>)"
proof (cases "tp_queue (ps_pool s)")
  case Nil
  then have "p = ps_pool s" "r = (if tp_running (ps_pool s) then Wait else Return)"
    using take by (auto simp: tpool_take_def)
  with Nil inv i show ?thesis
    using in_set_update [of W_Wait "ps_workers s" i W_Done]
      in_set_update [of W_Done "ps_workers s" i W_Wait]
    by (auto simp: pool_inv_def)
next
  case (Cons t q)
  then have r: "r = Take t" "p = (ps_pool s)\<lparr>tp_queue := q\<rparr>"
    using take by (auto simp: tpool_take_def)
  have "count_list ((ps_workers s)[i := W_Run t]) W_Check + 1 = count_list (ps_workers s) W_Check"
    using count_list_update [OF i(1), of "W_Run t" W_Check] i(2) by simp
  with r Cons inv show ?thesis
    using in_set_update [of W_Wait "ps_workers s" i "W_Run t"]
      in_set_update [of W_Done "ps_workers s" i "W_Run t"]
    by (auto simp: pool_inv_def)
qed

lemma pool_inv_work: "work s t \<Longrightarrow> pool_inv s \<Longrightarrow> pool_inv t"
  by (induction rule: work.induct) (simp_all add: pool_inv_set_worker pool_inv_check)

lemma pool_inv_add_wakes:
  assumes "pool_inv s" "i < length (ps_workers s)" "ps_workers s ! i = W_Wait"
  shows "pool_inv (s\<lparr>ps_pool := tpool_add (ps_pool s) t, ps_added := ps_added s @ [t],
                     ps_workers := (ps_workers s)[i := W_Check]\<rparr>)"
proof -
  have "W_Wait \<in> set (ps_workers s)" using assms(2,3) nth_mem by force
  moreover have "count_list ((ps_workers s)[i := W_Check]) W_Check = count_list (ps_workers s) W_Check + 1"
    using count_list_update [OF assms(2), of W_Check W_Check] assms(3) by simp
  ultimately show ?thesis
    using assms(1) in_set_update [of W_Done "ps_workers s" i W_Check]
    by (auto simp: pool_inv_def tpool_add_def)
qed

lemma pool_inv_step: "pool_inv s \<Longrightarrow> pool_step s t \<Longrightarrow> pool_inv t"
proof (erule pool_stepE)
  assume "pool_inv s" "work s t"
  then show "pool_inv t" using pool_inv_work by blast
next
  fix i assume "pool_inv s" "t = s\<lparr>ps_workers := (ps_workers s)[i := W_Check]\<rparr>"
    "i < length (ps_workers s)" "ps_workers s ! i = W_Wait"
  then show "pool_inv t" by (simp add: pool_inv_set_worker)
next
  assume "pool_inv s"
    and "t = s\<lparr>ps_pool := tpool_stop (ps_pool s), ps_workers := notify_all (ps_workers s)\<rparr>"
  then show "pool_inv t" by (auto simp: pool_inv_def tpool_stop_def notify_all_def)
qed (simp_all add: pool_inv_add_wakes, simp add: pool_inv_def tpool_add_def)

interpretation tpm: inductive_invariant pool_init pool_step pool_inv
proof
  fix s assume "pool_init s"
  then show "pool_inv s" by (auto simp: pool_init_def pool_inv_def)
qed (rule pool_inv_step)

section \<open>Draining\<close>

text \<open>
  Worker steps of a stopped pool shrink a measure, so a stopped pool without new tasks comes to
  rest; at rest every worker has returned or died.
\<close>

primrec weight :: "worker \<Rightarrow> nat" where
  "weight W_Init = 2"
| "weight W_Check = 1"
| "weight W_Wait = 0"
| "weight (W_Run t) = 2"
| "weight W_Done = 0"
| "weight W_Dead = 0"

definition load :: "pool_sys \<Rightarrow> nat" where
  "load s = 2 * length (tp_queue (ps_pool s)) + sum_list (map weight (ps_workers s))"

lemma load_update:
  "i < length ws \<Longrightarrow> weight w < weight (ws ! i) \<Longrightarrow>
     sum_list (map weight (ws[i := w])) < sum_list (map weight ws)"
  using sum_list_map_update [of i ws weight w] by simp

lemma work_decreases_load: "work s t \<Longrightarrow> \<not> tp_running (ps_pool s) \<Longrightarrow> load t < load s"
proof (induction rule: work.induct)
  case (check i s r p)
  show ?case
  proof (cases "tp_queue (ps_pool s)")
    case Nil
    with check show ?thesis using load_update [OF check(1), of W_Done]
      by (auto simp: tpool_take_def load_def)
  next
    case (Cons t q)
    with check show ?thesis using sum_list_map_update [OF check(1), of weight "W_Run t"]
      by (auto simp: tpool_take_def load_def)
  qed
qed (simp_all add: load_def load_update)

lemma work_stopped: "work s t \<Longrightarrow> \<not> tp_running (ps_pool s) \<Longrightarrow> \<not> tp_running (ps_pool t)"
  by (induction rule: work.induct) (auto simp: tpool_take_def split: list.splits)

lemma work_added: "work s t \<Longrightarrow> ps_added t = ps_added s"
  by (induction rule: work.induct) simp_all

lemma work_workers: "work s t \<Longrightarrow> length (ps_workers t) = length (ps_workers s)"
  by (induction rule: work.induct) simp_all

text \<open>Without new tasks, a worker that has returned leaves an empty queue behind.\<close>

definition drained_by_done :: "pool_sys \<Rightarrow> bool" where
  "drained_by_done s \<longleftrightarrow> (W_Done \<in> set (ps_workers s) \<longrightarrow> tp_queue (ps_pool s) = [])"

lemma work_drained: "work s t \<Longrightarrow> drained_by_done s \<Longrightarrow> drained_by_done t"
proof (induction rule: work.induct)
  case (check i s r p)
  then show ?case
    using in_set_update [of W_Done "ps_workers s" i "after_take r"]
    by (auto simp: drained_by_done_def tpool_take_def split: list.splits if_splits)
qed (auto simp: drained_by_done_def dest: in_set_update)

lemma work_enabled:
  assumes "i < length (ps_workers s)" "ps_workers s ! i \<notin> {W_Wait, W_Done, W_Dead}"
  shows "\<exists>t. work s t"
proof (cases "ps_workers s ! i")
  case W_Check
  then show ?thesis using assms(1) work.check by (metis surj_pair)
next
  case W_Init
  then show ?thesis using work.init_ok [OF assms(1)] by blast
next
  case (W_Run x)
  then show ?thesis using work.run_ok [OF assms(1)] by blast
qed (use assms(2) in simp_all)

lemma work_rest:
  assumes "\<not> Ex (work s)" "w \<in> set (ps_workers s)"
  shows "w \<in> {W_Wait, W_Done, W_Dead}"
  using assms work_enabled by (metis in_set_conv_nth)

lemma work_run_frame:
  assumes "work\<^sup>*\<^sup>* s t" "\<not> tp_running (ps_pool s)" "pool_inv s" "drained_by_done s"
  shows "\<not> tp_running (ps_pool t) \<and> pool_inv t \<and> drained_by_done t \<and> ps_added t = ps_added s \<and>
         length (ps_workers t) = length (ps_workers s)"
  using assms(1)
proof (induction rule: rtranclp_induct)
  case base
  then show ?case using assms by simp
next
  case (step y z)
  then show ?case
    using work_stopped work_added work_workers work_drained pool_inv_work by metis
qed

lemma work_finite:
  assumes "\<not> tp_running (ps_pool s)" "f 0 = s" "\<forall>n. work (f n) (f (Suc n))"
  shows False
proof -
  have "\<not> tp_running (ps_pool (f n)) \<and> load (f n) + n \<le> load s" for n
  proof (induction n)
    case (Suc n)
    with assms(3) work_decreases_load [of "f n" "f (Suc n)"] work_stopped [of "f n" "f (Suc n)"] show ?case by force
  qed (use assms in simp)
  from this [of "Suc (load s)"] show False by simp
qed

lemma work_comes_to_rest:
  assumes "\<not> tp_running (ps_pool s)"
  shows "\<exists>t. work\<^sup>*\<^sup>* s t \<and> \<not> Ex (work t)"
  using assms
proof (induction "load s" arbitrary: s rule: less_induct)
  case less
  show ?case
  proof (cases "Ex (work s)")
    case True
    then obtain u where u: "work s u" by blast
    then obtain t where "work\<^sup>*\<^sup>* u t" "\<not> Ex (work t)"
      using less work_decreases_load work_stopped by metis
    with u show ?thesis by (meson converse_rtranclp_into_rtranclp)
  qed auto
qed

section \<open>Properties\<close>

text \<open>
  C7.  Tasks are neither lost, duplicated nor reordered: in every reachable state, under every
  interleaving of clients, workers, spurious wake-ups and exceptions, the tasks added so far are the
  tasks taken by workers, in order, followed by the queue.
\<close>

theorem tpool_fifo:
  assumes "reach pool_init pool_step s"
  shows "ps_added s = ps_taken s @ tp_queue (ps_pool s)"
  using tpm.invar_reach [OF assms] by (simp add: pool_inv_def)

definition pool_example :: pool_sys where
  "pool_example = \<lparr>ps_pool = (tpool_new ''tpool'')\<lparr>tp_running := True, tp_queue := [Some 1]\<rparr>,
     ps_workers = [W_Init, W_Init], ps_added = [Some 1], ps_taken = []\<rparr>"

lemma pool_example_init [simp]: "pool_init pool_example"
proof -
  have "ps_workers pool_example = replicate 2 W_Init"
    by (simp add: pool_example_def numeral_eq_Suc)
  then show ?thesis unfolding pool_init_def by (auto simp: pool_example_def intro!: exI [of _ 2])
qed

theorem tpool_fifo_witness:
  "reach pool_init pool_step pool_example \<and>
   ps_added pool_example = ps_taken pool_example @ tp_queue (ps_pool pool_example)"
proof -
  have "reach pool_init pool_step pool_example" by (rule reach_init) simp
  then show ?thesis using tpool_fifo [of pool_example] by blast
qed

text \<open>
  C20.  No lost wake-up: in every reachable state in which some worker sleeps, at least as many workers
  are on their way to the queue as there are tasks in it; and a sleeping worker exists only while
  the pool is running.
\<close>

theorem tpool_no_lost_wakeup:
  assumes "reach pool_init pool_step s" and "W_Wait \<in> set (ps_workers s)"
  shows "tp_running (ps_pool s) \<and>
         length (tp_queue (ps_pool s)) \<le> count_list (ps_workers s) W_Check"
  using tpm.invar_reach [OF assms(1)] assms(2) by (auto simp: pool_inv_def)

definition pool_sleeping :: pool_sys where
  "pool_sleeping = \<lparr>ps_pool = (tpool_new ''tpool'')\<lparr>tp_running := True\<rparr>,
     ps_workers = [W_Wait], ps_added = [], ps_taken = []\<rparr>"

lemma pool_sleeping_reach: "reach pool_init pool_step pool_sleeping"
proof -
  let ?s0 = "pool_sleeping\<lparr>ps_workers := [W_Init]\<rparr>" and ?s1 = "pool_sleeping\<lparr>ps_workers := [W_Check]\<rparr>"
  have "pool_init ?s0"
    by (auto simp: pool_init_def pool_sleeping_def tpool_new_def intro!: exI [of _ 1])
  moreover have "work ?s0 ?s1" using work.init_ok [of 0 ?s0] by simp
  moreover have "work ?s1 pool_sleeping"
    using work.check [of 0 ?s1 Wait "ps_pool ?s1"]
    by (simp add: tpool_take_def pool_sleeping_def tpool_new_def)
  ultimately show ?thesis by (meson reach.intros pool_step.worker)
qed

theorem tpool_no_lost_wakeup_witness:
  "W_Wait \<in> set (ps_workers pool_sleeping) \<and> tp_running (ps_pool pool_sleeping) \<and>
   length (tp_queue (ps_pool pool_sleeping)) \<le> count_list (ps_workers pool_sleeping) W_Check"
  using tpool_no_lost_wakeup [OF pool_sleeping_reach] by (simp add: pool_sleeping_def)

text \<open>
  C19.  Stopping drains the pool: from any reachable running state, after \<^verbatim>\<open>stop\<close> and without further
  additions every run of the workers is finite and they come to rest; at rest every worker has left \<^verbatim>\<open>run\<close>,
  and if the pool has a worker and none was killed by an exception, the queue is empty and every
  task ever added was taken, so \<^verbatim>\<open>join\<close> in the destructor returns.
\<close>

theorem tpool_stop_drains:
  assumes "reach pool_init pool_step s" and "tp_running (ps_pool s)"
    and "s1 = s\<lparr>ps_pool := tpool_stop (ps_pool s), ps_workers := notify_all (ps_workers s)\<rparr>"
  shows "(\<nexists>f. f 0 = s1 \<and> (\<forall>n. work (f n) (f (Suc n)))) \<and> (\<exists>t. work\<^sup>*\<^sup>* s1 t \<and> \<not> Ex (work t)) \<and>
    (\<forall>t. work\<^sup>*\<^sup>* s1 t \<and> \<not> Ex (work t) \<longrightarrow>
       set (ps_workers t) \<subseteq> {W_Done, W_Dead} \<and>
       (ps_workers s \<noteq> [] \<and> W_Dead \<notin> set (ps_workers t) \<longrightarrow>
          tp_queue (ps_pool t) = [] \<and> ps_taken t = ps_added s))"
proof (intro conjI allI impI)
  have inv: "pool_inv s" by (rule tpm.invar_reach [OF assms(1)])
  have stopped: "\<not> tp_running (ps_pool s1)" and inv1: "pool_inv s1"
    using assms(3) pool_inv_step [OF inv] pool_step.stop by (auto simp: tpool_stop_def)
  have dr: "drained_by_done s1"
    using inv assms(2,3) by (auto simp: drained_by_done_def pool_inv_def notify_all_def)
  show "\<nexists>f. f 0 = s1 \<and> (\<forall>n. work (f n) (f (Suc n)))" using work_finite [OF stopped] by blast
  show "\<exists>t. work\<^sup>*\<^sup>* s1 t \<and> \<not> Ex (work t)" by (rule work_comes_to_rest [OF stopped])
  fix t assume t: "work\<^sup>*\<^sup>* s1 t \<and> \<not> Ex (work t)"
  note frame = work_run_frame [OF conjunct1 [OF t] stopped inv1 dr]
  show sub: "set (ps_workers t) \<subseteq> {W_Done, W_Dead}"
    using frame t work_rest by (fastforce simp: pool_inv_def)
  assume ne: "ps_workers s \<noteq> [] \<and> W_Dead \<notin> set (ps_workers t)"
  then have "ps_workers t \<noteq> []" using frame assms(3) by (auto simp: notify_all_def)
  then have "W_Done \<in> set (ps_workers t)" using sub ne by (cases "ps_workers t") auto
  then show "tp_queue (ps_pool t) = []" using frame by (simp add: drained_by_done_def)
  then show "ps_taken t = ps_added s" using frame assms(3) by (auto simp: pool_inv_def)
qed

theorem tpool_stop_drains_witness:
  "\<exists>t. work\<^sup>*\<^sup>* (pool_example\<lparr>ps_pool := tpool_stop (ps_pool pool_example),
          ps_workers := notify_all (ps_workers pool_example)\<rparr>) t \<and> \<not> Ex (work t) \<and>
     set (ps_workers t) \<subseteq> {W_Done, W_Dead}"
proof -
  have "reach pool_init pool_step pool_example" by (rule reach_init) simp
  moreover have "tp_running (ps_pool pool_example)" by (simp add: pool_example_def)
  ultimately show ?thesis using tpool_stop_drains [OF _ _ refl] by blast
qed



text \<open>
  A pool cannot be started twice: the second call starts the element at index 0, which is the
  running thread of the first call, and the process terminates.
\<close>

theorem tpool_second_start_terminates:
  assumes "tp_threads p = []" and "0 < tp_tsize p" and "tp_tsize p \<le> 1152921504606846975"
  shows "bind_res (tpool_start p) tpool_start = Inl Terminated"
proof -
  let ?p1 = "p\<lparr>tp_running := True\<rparr>"
  obtain ths where ths: "fold_res tpool_spawn ?p1 [0..<tp_tsize p] = Inr (?p1\<lparr>tp_threads := ths\<rparr>)"
    "length ths = tp_tsize p" "\<forall>i < tp_tsize p. spawned_thread (tp_name p) i (ths ! i)"
    using tpool_spawn_all [of ?p1 "tp_tsize p"] assms(1) by auto
  have first: "thread_start True (ths ! 0) = Inl Terminated"
    using ths(3) assms(2) thread_start_running by (auto simp: spawned_thread_def)
  have upt: "[0..<tp_tsize p] = 0 # [1..<tp_tsize p]"
    using assms(2) by (simp add: upt_conv_Cons)
  have "fold_res tpool_spawn (p\<lparr>tp_threads := ths, tp_running := True\<rparr>) [0..<tp_tsize p] = Inl Terminated"
    using first ths(2) assms(2) by (simp add: upt tpool_spawn_def Let_def nth_append)
  then show ?thesis using ths(1) assms by (simp add: tpool_start_def Let_def)
qed

theorem tpool_second_start_terminates_witness:
  "bind_res (tpool_start (tpool_set_tsize (tpool_new ''tpool'') 1)) tpool_start = Inl Terminated"
  by (rule tpool_second_start_terminates)
    (simp_all add: tpool_set_tsize_def tpool_new_def size_of_int_def)

end
