(* ===== verification/Chan.thy ===== *)
theory Chan
  imports LogLevel
begin

unbundle bit_operations_syntax

text \<open>
  Channels: \<^verbatim>\<open>include/net/chan.h\<close> and \<^verbatim>\<open>src/net/chan.cpp\<close>.  A channel is a descriptor with the events it
  asks for, the events that occurred, its registration state and four callbacks.  The calls into
  the event loop (\<^verbatim>\<open>update\<close>, \<^verbatim>\<open>remove\<close>) are modelled with the loop.
\<close>

section \<open>Model\<close>

type_synonym chan_ptr = nat

text \<open>The member functions that the library binds as callbacks, with the connection they are bound to.\<close>

datatype callback =
    Eloop_handle_read
  | Acceptor_handle_read
  | Conn_handle_read nat
  | Conn_handle_write nat
  | Conn_handle_close nat
  | Conn_handle_error nat

definition EPOLLIN :: "32 word" where "EPOLLIN = 1"
definition EPOLLPRI :: "32 word" where "EPOLLPRI = 2"
definition EPOLLOUT :: "32 word" where "EPOLLOUT = 4"
definition EPOLLERR :: "32 word" where "EPOLLERR = 8"
definition EPOLLHUP :: "32 word" where "EPOLLHUP = 16"

definition NONE_EVENT :: "32 word" where "NONE_EVENT = 0"
definition READ_EVENT :: "32 word" where "READ_EVENT = EPOLLIN OR EPOLLPRI"
definition WRITE_EVENT :: "32 word" where "WRITE_EVENT = EPOLLOUT"

record chan =
  ch_fd :: fd
  ch_events :: "32 word"
  ch_revents :: "32 word"
  ch_index :: int
  ch_tie :: "nat option"     \<comment> \<open>the object the weak pointer refers to\<close>
  ch_tied :: bool
  ch_read_callback :: "callback option"
  ch_write_callback :: "callback option"
  ch_close_callback :: "callback option"
  ch_error_callback :: "callback option"

definition chan_new :: "fd \<Rightarrow> chan" where
  "chan_new f = \<lparr>ch_fd = f, ch_events = 0, ch_revents = 0, ch_index = -1, ch_tie = None,
     ch_tied = False, ch_read_callback = None, ch_write_callback = None, ch_close_callback = None,
     ch_error_callback = None\<rparr>"

definition chan_tie :: "chan \<Rightarrow> nat \<Rightarrow> chan" where
  "chan_tie ch obj = ch\<lparr>ch_tie := Some obj, ch_tied := True\<rparr>"

definition chan_set_revents :: "chan \<Rightarrow> 32 word \<Rightarrow> chan" where
  "chan_set_revents ch revt = ch\<lparr>ch_revents := revt\<rparr>"

definition chan_set_index :: "chan \<Rightarrow> int \<Rightarrow> chan" where
  "chan_set_index ch idx = ch\<lparr>ch_index := idx\<rparr>"

text \<open>The changes of the event mask; each is followed by \<^verbatim>\<open>update()\<close> in the code.\<close>

datatype mask_op = Enable_Reading | Disable_Reading | Enable_Writing | Disable_Writing | Disable_All

primrec apply_mask :: "mask_op \<Rightarrow> 32 word \<Rightarrow> 32 word" where
  "apply_mask Enable_Reading e = e OR READ_EVENT"
| "apply_mask Disable_Reading e = e AND NOT READ_EVENT"
| "apply_mask Enable_Writing e = e OR WRITE_EVENT"
| "apply_mask Disable_Writing e = e AND NOT WRITE_EVENT"
| "apply_mask Disable_All e = NONE_EVENT"

definition chan_mask :: "mask_op \<Rightarrow> chan \<Rightarrow> chan" where
  "chan_mask m ch = ch\<lparr>ch_events := apply_mask m (ch_events ch)\<rparr>"

definition is_none_event :: "chan \<Rightarrow> bool" where
  "is_none_event ch \<longleftrightarrow> ch_events ch = NONE_EVENT"

definition is_writing :: "chan \<Rightarrow> bool" where
  "is_writing ch \<longleftrightarrow> ch_events ch AND WRITE_EVENT \<noteq> 0"

definition is_reading :: "chan \<Rightarrow> bool" where
  "is_reading ch \<longleftrightarrow> ch_events ch AND READ_EVENT \<noteq> 0"

text \<open>
  \<^verbatim>\<open>handle_event_with_guard\<close>: the message it logs and the callbacks it calls, in order.  The callbacks
  do not change \<^verbatim>\<open>revents_\<close>, which only the poller writes, nor the callbacks themselves.
\<close>

definition handle_event_with_guard :: "chan \<Rightarrow> log_call list \<times> callback list" where
  "handle_event_with_guard ch =
     ([(INFO, ''chan handle_event revents: '' @ dec_int (sint (ch_events ch)) @ [CHR 0x0A])],
      (if (ch_revents ch AND EPOLLHUP \<noteq> 0) \<and> \<not> (ch_revents ch AND EPOLLIN \<noteq> 0)
       then (case ch_close_callback ch of Some cb \<Rightarrow> [cb] | None \<Rightarrow> []) else []) @
      (if ch_revents ch AND EPOLLERR \<noteq> 0
       then (case ch_error_callback ch of Some cb \<Rightarrow> [cb] | None \<Rightarrow> []) else []) @
      (if ch_revents ch AND (EPOLLIN OR EPOLLPRI) \<noteq> 0
       then (case ch_read_callback ch of Some cb \<Rightarrow> [cb] | None \<Rightarrow> []) else []) @
      (if ch_revents ch AND EPOLLOUT \<noteq> 0
       then (case ch_write_callback ch of Some cb \<Rightarrow> [cb] | None \<Rightarrow> []) else []))"

text \<open>\<^verbatim>\<open>handle_event\<close>: \<open>alive\<close> tells which objects a weak pointer can still be promoted to.\<close>

definition handle_event ::
    "(nat \<Rightarrow> bool) \<Rightarrow> chan \<Rightarrow> log_call list \<times> callback list" where
  "handle_event alive ch =
     (if ch_tied ch then
        (case ch_tie ch of
           Some obj \<Rightarrow> if alive obj then handle_event_with_guard ch else ([], [])
         | None \<Rightarrow> ([], []))
      else handle_event_with_guard ch)"

section \<open>Event masks as bits\<close>

lemmas event_defs = EPOLLIN_def EPOLLPRI_def EPOLLOUT_def EPOLLERR_def EPOLLHUP_def NONE_EVENT_def
  READ_EVENT_def WRITE_EVENT_def

lemma and_pow2_neq_0: "(w AND 2 ^ n \<noteq> (0 :: 'a::len word)) = (bit w n \<and> n < LENGTH('a))"
proof -
  have "w AND 2 ^ n = (if bit w n then 2 ^ n else 0)"
    by (rule bit_word_eqI) (auto simp: bit_simps)
  then show ?thesis by (auto dest: bit_imp_le_length)
qed

lemma event_bit [simp]:
  "(w AND EPOLLIN \<noteq> 0) = bit w 0"
  "(w AND EPOLLPRI \<noteq> 0) = bit w 1"
  "(w AND EPOLLOUT \<noteq> 0) = bit w 2"
  "(w AND EPOLLERR \<noteq> 0) = bit w 3"
  "(w AND EPOLLHUP \<noteq> 0) = bit w 4"
  for w :: "32 word"
  using and_pow2_neq_0 [of w 0] and_pow2_neq_0 [of w 1] and_pow2_neq_0 [of w 2]
    and_pow2_neq_0 [of w 3] and_pow2_neq_0 [of w 4]
  by (simp_all add: event_defs)

lemma read_event_bit [simp]: "(w AND (EPOLLIN OR EPOLLPRI) \<noteq> 0) = (bit w 0 \<or> bit w 1)" for w :: "32 word"
proof -
  have "w AND (EPOLLIN OR EPOLLPRI) = (w AND EPOLLIN) OR (w AND EPOLLPRI)"
    by (rule bit_word_eqI) (auto simp: bit_simps)
  then show ?thesis using event_bit(1,2) [of w] by (auto simp: or_eq_0_iff)
qed

lemma is_writing_bit: "is_writing ch \<longleftrightarrow> bit (ch_events ch) 2"
  by (simp add: is_writing_def WRITE_EVENT_def)

lemma is_reading_bit: "is_reading ch \<longleftrightarrow> bit (ch_events ch) 0 \<or> bit (ch_events ch) 1"
  by (simp add: is_reading_def READ_EVENT_def)

lemma chan_mask_writing [simp]:
  "is_writing (chan_mask m ch) =
     (case m of Enable_Writing \<Rightarrow> True | Disable_Writing \<Rightarrow> False | Disable_All \<Rightarrow> False
      | _ \<Rightarrow> is_writing ch)"
  by (cases m) (simp_all add: chan_mask_def is_writing_bit event_defs bit_simps)

lemma chan_mask_reading [simp]:
  "is_reading (chan_mask m ch) =
     (case m of Enable_Reading \<Rightarrow> True | Disable_Reading \<Rightarrow> False | Disable_All \<Rightarrow> False
      | _ \<Rightarrow> is_reading ch)"
  by (cases m) (auto simp: chan_mask_def is_reading_bit event_defs bit_simps)

lemma chan_mask_frame [simp]:
  "ch_fd (chan_mask m ch) = ch_fd ch" "ch_index (chan_mask m ch) = ch_index ch"
  "ch_revents (chan_mask m ch) = ch_revents ch" "ch_tied (chan_mask m ch) = ch_tied ch"
  "ch_tie (chan_mask m ch) = ch_tie ch"
  "ch_read_callback (chan_mask m ch) = ch_read_callback ch"
  "ch_write_callback (chan_mask m ch) = ch_write_callback ch"
  "ch_close_callback (chan_mask m ch) = ch_close_callback ch"
  "ch_error_callback (chan_mask m ch) = ch_error_callback ch"
  by (simp_all add: chan_mask_def)

end
