(* ===== verification/Poller.thy ===== *)
theory Poller
  imports Chan
begin

unbundle bit_operations_syntax

text \<open>
  The poller interface and its epoll implementation: \<^verbatim>\<open>include/net/poller.h\<close>, \<^verbatim>\<open>src/net/poller.cpp\<close>,
  \<^verbatim>\<open>include/net/epoll_poller.h\<close>, \<^verbatim>\<open>src/net/epoll_poller.cpp\<close>, \<^verbatim>\<open>src/net/default_poller.cpp\<close>.  The
  kernel's \<^verbatim>\<open>epoll_ctl\<close> is a parameter \<open>K\<close>: from the calls made so far and the new call to an error
  number, or to success.
\<close>

section \<open>Model\<close>

definition NEW :: int where "NEW = -1"
definition ADDED :: int where "ADDED = 1"
definition DELETED :: int where "DELETED = 2"

datatype ctl_op = EPOLL_CTL_ADD | EPOLL_CTL_DEL | EPOLL_CTL_MOD

primrec ctl_op_value :: "ctl_op \<Rightarrow> int" where
  "ctl_op_value EPOLL_CTL_ADD = 1"
| "ctl_op_value EPOLL_CTL_DEL = 2"
| "ctl_op_value EPOLL_CTL_MOD = 3"

record ctl_call =
  ctl_operation :: ctl_op
  ctl_fd :: fd
  ctl_events :: "32 word"
  ctl_ptr :: chan_ptr

type_synonym epoll_ctl = "ctl_call list \<Rightarrow> ctl_call \<Rightarrow> errno option"

record epoll_poller =
  ep_chs :: "fd \<rightharpoonup> chan_ptr"
  ep_nevents :: nat                    \<comment> \<open>size of the vector \<^verbatim>\<open>events_\<close>\<close>
  ep_calls :: "ctl_call list"          \<comment> \<open>calls of \<^verbatim>\<open>epoll_ctl\<close> so far\<close>
  ep_log :: "log_call list"

definition INIT_EVENT_LIST_SIZE :: nat where
  "INIT_EVENT_LIST_SIZE = 16"

text \<open>The constructor; \<open>epollfd\<close> is the result of \<^verbatim>\<open>epoll_create1\<close>.\<close>

definition epoll_poller_new :: "int \<Rightarrow> epoll_poller result" where
  "epoll_poller_new epollfd =
     (if epollfd < 0 then Inl Aborted
      else Inr \<lparr>ep_chs = Map.empty, ep_nevents = INIT_EVENT_LIST_SIZE, ep_calls = [], ep_log = []\<rparr>)"

text \<open>\<^verbatim>\<open>new_default_poller\<close>: a null pointer when \<^verbatim>\<open>CAI_USE_POLL\<close> is in the environment.\<close>

definition new_default_poller :: "bool \<Rightarrow> int \<Rightarrow> epoll_poller option result" where
  "new_default_poller cai_use_poll epollfd =
     (if cai_use_poll then Inr None else bind_res (epoll_poller_new epollfd) (\<lambda>p. Inr (Some p)))"

definition epoll_update :: "epoll_ctl \<Rightarrow> ctl_op \<Rightarrow> chan_ptr \<Rightarrow> chan \<Rightarrow> epoll_poller \<Rightarrow> epoll_poller" where
  "epoll_update K operation ptr ch p =
     (let c = \<lparr>ctl_operation = operation, ctl_fd = ch_fd ch, ctl_events = ch_events ch, ctl_ptr = ptr\<rparr>;
          p' = p\<lparr>ep_calls := ep_calls p @ [c]\<rparr> in
      case K (ep_calls p) c of
        None \<Rightarrow> p'
      | Some e \<Rightarrow> p'\<lparr>ep_log := ep_log p @ [(ERROR, ''epoll_ctl op:'' @ dec_int (ctl_op_value operation) @
          '' fd:'' @ dec_int (ch_fd ch) @ '' error:'' @ dec_int e)]\<rparr>)"

definition epoll_update_chan ::
    "epoll_ctl \<Rightarrow> epoll_poller \<Rightarrow> chan_ptr \<Rightarrow> chan \<Rightarrow> chan \<times> epoll_poller" where
  "epoll_update_chan K p ptr ch =
     (let index = ch_index ch in
      if index = NEW \<or> index = DELETED then
        (let p1 = (if index = NEW then p\<lparr>ep_chs := (ep_chs p)(ch_fd ch \<mapsto> ptr)\<rparr> else p);
             ch1 = chan_set_index ch ADDED
         in (ch1, epoll_update K EPOLL_CTL_ADD ptr ch1 p1))
      else (ch, epoll_update K EPOLL_CTL_MOD ptr ch p))"

definition epoll_remove_chan ::
    "epoll_ctl \<Rightarrow> epoll_poller \<Rightarrow> chan_ptr \<Rightarrow> chan \<Rightarrow> chan \<times> epoll_poller" where
  "epoll_remove_chan K p ptr ch =
     (let p1 = p\<lparr>ep_chs := (ep_chs p)(ch_fd ch := None)\<rparr>;
          ch1 = chan_set_index ch DELETED
      in (ch1, epoll_update K EPOLL_CTL_DEL ptr ch1 p1))"

definition poller_has_chan :: "epoll_poller \<Rightarrow> chan_ptr \<Rightarrow> chan \<Rightarrow> bool" where
  "poller_has_chan p ptr ch \<longleftrightarrow> ep_chs p (ch_fd ch) = Some ptr"

text \<open>
  The channels live in the memory of their owners; \<open>chans\<close> maps the address of each live one to its
  state.  A pointer without a channel behind it is a dangling pointer.
\<close>

type_synonym chan_store = "chan_ptr \<rightharpoonup> chan"

fun fill_active_chs ::
    "chan_store \<Rightarrow> (32 word \<times> chan_ptr) list \<Rightarrow> (chan_ptr list \<times> chan_store) result" where
  "fill_active_chs chans [] = Inr ([], chans)"
| "fill_active_chs chans ((evs, ptr) # ready) =
     (case chans ptr of
        None \<Rightarrow> Inl Null_Deref
      | Some ch \<Rightarrow>
          bind_res (fill_active_chs (chans(ptr \<mapsto> chan_set_revents ch evs)) ready)
            (\<lambda>(active, chans'). Inr (ptr # active, chans')))"

text \<open>
  \<^verbatim>\<open>poll\<close>: the outcome of \<^verbatim>\<open>epoll_wait\<close> is an argument, an error number or the ready entries (none on a
  timeout); a full event vector is doubled.
\<close>

definition epoll_poll ::
    "epoll_poller \<Rightarrow> chan_store \<Rightarrow> errno + (32 word \<times> chan_ptr) list \<Rightarrow>
       (chan_ptr list \<times> epoll_poller \<times> chan_store) result" where
  "epoll_poll p chans outcome =
     (case outcome of
        Inl e \<Rightarrow> Inr ([], p, chans)
      | Inr ready \<Rightarrow>
          if length ready > 0 then
            bind_res (fill_active_chs chans ready) (\<lambda>(active, chans').
            Inr (active,
                 if length ready = ep_nevents p then p\<lparr>ep_nevents := ep_nevents p * 2\<rparr> else p,
                 chans'))
          else Inr ([], p, chans))"

section \<open>The poller interface\<close>

text \<open>A run of removals (marked \<open>True\<close>) and updates of channels.\<close>

primrec poller_run ::
    "('p \<Rightarrow> chan_ptr \<Rightarrow> chan \<Rightarrow> chan \<times> 'p) \<Rightarrow> ('p \<Rightarrow> chan_ptr \<Rightarrow> chan \<Rightarrow> chan \<times> 'p) \<Rightarrow>
       'p \<Rightarrow> (bool \<times> chan_ptr \<times> chan) list \<Rightarrow> 'p" where
  "poller_run update remove p [] = p"
| "poller_run update remove p (x # xs) =
     (case x of (rem, ptr, ch) \<Rightarrow>
        poller_run update remove (snd ((if rem then remove else update) p ptr ch)) xs)"

text \<open>
  What the event loop expects of any poller: a channel is known from its first update until its
  removal, and operations on one descriptor do not disturb another.
\<close>

locale poller_contract =
  fixes update :: "'p \<Rightarrow> chan_ptr \<Rightarrow> chan \<Rightarrow> chan \<times> 'p"
    and remove :: "'p \<Rightarrow> chan_ptr \<Rightarrow> chan \<Rightarrow> chan \<times> 'p"
    and has :: "'p \<Rightarrow> chan_ptr \<Rightarrow> chan \<Rightarrow> bool"
  assumes has_first_update: "ch_index ch = NEW \<Longrightarrow> has (snd (update p ptr ch)) ptr ch"
    and has_later_update: "ch_index ch \<noteq> NEW \<Longrightarrow> has (snd (update p ptr ch)) qtr ch' = has p qtr ch'"
    and has_remove: "\<not> has (snd (remove p ptr ch)) ptr ch"
    and update_frame: "ch_fd ch \<noteq> ch_fd ch' \<Longrightarrow> has (snd (update p ptr ch)) qtr ch' = has p qtr ch'"
    and remove_frame: "ch_fd ch \<noteq> ch_fd ch' \<Longrightarrow> has (snd (remove p ptr ch)) qtr ch' = has p qtr ch'"
    and has_same_fd: "ch_fd ch = ch_fd ch' \<Longrightarrow> has p ptr ch = has p ptr ch'"
    and update_fd: "ch_fd (fst (update p ptr ch)) = ch_fd ch"
    and update_index: "ch_index (fst (update p ptr ch)) \<noteq> NEW"
begin

lemma has_poller_run:
  assumes "has p ptr ch"
    and "\<forall>(rem, qtr, ch') \<in> set ops. ch_fd ch' \<noteq> ch_fd ch \<or> (\<not> rem \<and> ch_index ch' \<noteq> NEW)"
  shows "has (poller_run update remove p ops) ptr ch"
  using assms
proof (induction ops arbitrary: p)
  case (Cons x ops)
  obtain rem qtr ch' where x: "x = (rem, qtr, ch')" by (cases x)
  have "has (snd ((if rem then remove else update) p qtr ch')) ptr ch"
    using Cons.prems x update_frame remove_frame has_later_update by auto
  with Cons x show ?case by auto
qed simp

lemma known_until_removed:
  assumes "ch_index ch = NEW"
    and "\<forall>(rem, qtr, ch') \<in> set ops. ch_fd ch' \<noteq> ch_fd ch \<or> (\<not> rem \<and> ch_index ch' \<noteq> NEW)"
  shows "has (poller_run update remove (snd (update p ptr ch)) ops) ptr ch \<and>
         \<not> has (snd (remove (poller_run update remove (snd (update p ptr ch)) ops) ptr ch)) ptr ch"
  using has_poller_run [OF has_first_update [OF assms(1)] assms(2)] has_remove by blast

end

lemma epoll_update_chs [simp]: "ep_chs (epoll_update K op ptr ch p) = ep_chs p"
  by (simp add: epoll_update_def Let_def split: option.splits)

lemma epoll_update_nevents [simp]: "ep_nevents (epoll_update K op ptr ch p) = ep_nevents p"
  by (simp add: epoll_update_def Let_def split: option.splits)

lemma epoll_update_calls [simp]:
  "ep_calls (epoll_update K op ptr ch p) = ep_calls p @
     [\<lparr>ctl_operation = op, ctl_fd = ch_fd ch, ctl_events = ch_events ch, ctl_ptr = ptr\<rparr>]"
  by (simp add: epoll_update_def Let_def split: option.splits)

lemma chan_set_index_frame [simp]:
  "ch_fd (chan_set_index ch i) = ch_fd ch" "ch_events (chan_set_index ch i) = ch_events ch"
  "ch_index (chan_set_index ch i) = i"
  by (simp_all add: chan_set_index_def)

interpretation epc: poller_contract "epoll_update_chan K" "epoll_remove_chan K" poller_has_chan for K
  by unfold_locales
    (auto simp: epoll_update_chan_def epoll_remove_chan_def poller_has_chan_def Let_def
      NEW_def ADDED_def DELETED_def)

section \<open>The kernel's interest list\<close>

text \<open>
  What the manual says of \<^verbatim>\<open>epoll_ctl\<close>: adding a descriptor that is registered and changing or
  deleting one that is not are errors, and everything else is done.
\<close>

fun ctl_apply :: "(fd \<rightharpoonup> 32 word \<times> chan_ptr) \<Rightarrow> ctl_call \<Rightarrow> (fd \<rightharpoonup> 32 word \<times> chan_ptr)" where
  "ctl_apply m c =
     (case ctl_operation c of
        EPOLL_CTL_ADD \<Rightarrow> if m (ctl_fd c) = None then m(ctl_fd c \<mapsto> (ctl_events c, ctl_ptr c)) else m
      | EPOLL_CTL_MOD \<Rightarrow> if m (ctl_fd c) = None then m else m(ctl_fd c \<mapsto> (ctl_events c, ctl_ptr c))
      | EPOLL_CTL_DEL \<Rightarrow> m(ctl_fd c := None))"

definition interest :: "ctl_call list \<Rightarrow> fd \<rightharpoonup> 32 word \<times> chan_ptr" where
  "interest calls = foldl ctl_apply Map.empty calls"

definition ctl_valid :: "ctl_call list \<Rightarrow> ctl_call \<Rightarrow> bool" where
  "ctl_valid calls c \<longleftrightarrow> (ctl_operation c = EPOLL_CTL_ADD) = (interest calls (ctl_fd c) = None)"

definition epoll_documented :: "epoll_ctl \<Rightarrow> bool" where
  "epoll_documented K \<longleftrightarrow> (\<forall>calls c. K calls c = None \<longleftrightarrow> ctl_valid calls c)"

text \<open>
  A channel agrees with the kernel when it is registered, with its current mask and address,
  exactly if its index says so.
\<close>

definition chan_synced :: "epoll_poller \<Rightarrow> chan_ptr \<Rightarrow> chan \<Rightarrow> bool" where
  "chan_synced p ptr ch \<longleftrightarrow> ch_index ch \<in> {NEW, ADDED, DELETED} \<and>
     interest (ep_calls p) (ch_fd ch) =
       (if ch_index ch = ADDED then Some (ch_events ch, ptr) else None)"

text \<open>Between a change of the mask and the update only registration and address agree.\<close>

definition chan_registered :: "epoll_poller \<Rightarrow> chan_ptr \<Rightarrow> chan \<Rightarrow> bool" where
  "chan_registered p ptr ch \<longleftrightarrow> ch_index ch \<in> {NEW, ADDED, DELETED} \<and>
     (interest (ep_calls p) (ch_fd ch) = None \<longleftrightarrow> ch_index ch \<noteq> ADDED)"

lemma chan_synced_registered: "chan_synced p ptr ch \<Longrightarrow> chan_registered p ptr (chan_mask m ch)"
  by (simp add: chan_synced_def chan_registered_def)

lemma interest_snoc [simp]: "interest (calls @ [c]) = ctl_apply (interest calls) c"
  by (simp add: interest_def)

lemma epoll_update_log_valid:
  assumes "epoll_documented K"
    and "ctl_valid (ep_calls p) \<lparr>ctl_operation = op, ctl_fd = ch_fd ch, ctl_events = ch_events ch, ctl_ptr = ptr\<rparr>"
  shows "ep_log (epoll_update K op ptr ch p) = ep_log p"
proof -
  have "K (ep_calls p) \<lparr>ctl_operation = op, ctl_fd = ch_fd ch, ctl_events = ch_events ch, ctl_ptr = ptr\<rparr> = None"
    using assms by (simp only: epoll_documented_def)
  then show ?thesis by (simp add: epoll_update_def Let_def)
qed

lemma update_chan_syncs:
  assumes "epoll_documented K" "chan_registered p ptr ch"
  defines "ch' \<equiv> fst (epoll_update_chan K p ptr ch)" and "p' \<equiv> snd (epoll_update_chan K p ptr ch)"
  shows "chan_synced p' ptr ch'" "ch_index ch' = ADDED" "ep_log p' = ep_log p"
    "ch_events ch' = ch_events ch" "ch_fd ch' = ch_fd ch"
    "\<forall>f. f \<noteq> ch_fd ch \<longrightarrow> interest (ep_calls p') f = interest (ep_calls p) f"
proof -
  consider (old) "ch_index ch = ADDED" | (new) "ch_index ch = NEW \<or> ch_index ch = DELETED"
    using assms(2) by (auto simp: chan_registered_def)
  then have "chan_synced p' ptr ch' \<and> ch_index ch' = ADDED \<and> ep_log p' = ep_log p \<and>
      ch_events ch' = ch_events ch \<and> ch_fd ch' = ch_fd ch \<and>
      (\<forall>f. f \<noteq> ch_fd ch \<longrightarrow> interest (ep_calls p') f = interest (ep_calls p) f)"
  proof cases
    case old
    then have "interest (ep_calls p) (ch_fd ch) \<noteq> None"
      using assms(2) by (simp add: chan_registered_def)
    with old epoll_update_log_valid [OF assms(1), of p EPOLL_CTL_MOD ch ptr] show ?thesis
      by (simp add: p'_def ch'_def epoll_update_chan_def chan_synced_def ctl_valid_def Let_def
          NEW_def ADDED_def DELETED_def)
  next
    case new
    let ?p1 = "if ch_index ch = NEW then p\<lparr>ep_chs := (ep_chs p)(ch_fd ch \<mapsto> ptr)\<rparr> else p"
    let ?ch1 = "chan_set_index ch ADDED"
    have none: "interest (ep_calls p) (ch_fd ch) = None"
      using assms(2) new by (auto simp: chan_registered_def ADDED_def NEW_def DELETED_def)
    have eq: "epoll_update_chan K p ptr ch = (?ch1, epoll_update K EPOLL_CTL_ADD ptr ?ch1 ?p1)"
      using new by (auto simp: epoll_update_chan_def Let_def)
    have "ep_log (epoll_update K EPOLL_CTL_ADD ptr ?ch1 ?p1) = ep_log ?p1"
      using none by (intro epoll_update_log_valid [OF assms(1)]) (simp add: ctl_valid_def)
    with eq none show ?thesis
      by (simp add: p'_def ch'_def chan_synced_def NEW_def ADDED_def DELETED_def)
  qed
  then show "chan_synced p' ptr ch'" "ch_index ch' = ADDED" "ep_log p' = ep_log p"
    "ch_events ch' = ch_events ch" "ch_fd ch' = ch_fd ch"
    "\<forall>f. f \<noteq> ch_fd ch \<longrightarrow> interest (ep_calls p') f = interest (ep_calls p) f" by blast+
qed

lemma remove_chan_syncs:
  assumes "epoll_documented K" "chan_synced p ptr ch"
  defines "ch' \<equiv> fst (epoll_remove_chan K p ptr ch)" and "p' \<equiv> snd (epoll_remove_chan K p ptr ch)"
  shows "chan_synced p' ptr ch'" "ch_index ch' = DELETED" "ch_fd ch' = ch_fd ch"
    "ch_index ch = ADDED \<Longrightarrow> ep_log p' = ep_log p"
    "\<forall>f. f \<noteq> ch_fd ch \<longrightarrow> interest (ep_calls p') f = interest (ep_calls p) f"
    "interest (ep_calls p') (ch_fd ch) = None"
  using assms
  by (auto simp: epoll_remove_chan_def chan_synced_def epoll_update_def epoll_documented_def
      ctl_valid_def Let_def NEW_def ADDED_def DELETED_def split: option.splits)

section \<open>Delivering events\<close>

lemma fill_active_ok:
  assumes "\<forall>(e, q) \<in> set ready. chans q \<noteq> None"
  shows "\<exists>chans'. fill_active_chs chans ready = Inr (map snd ready, chans') \<and> dom chans' = dom chans \<and>
           (\<forall>q. q \<notin> snd ` set ready \<longrightarrow> chans' q = chans q) \<and>
           (distinct (map snd ready) \<longrightarrow>
              (\<forall>(e, q) \<in> set ready. chans' q = map_option (\<lambda>ch. chan_set_revents ch e) (chans q)))"
  using assms
proof (induction ready arbitrary: chans)
  case (Cons x ready)
  obtain e q where x: "x = (e, q)" by (cases x)
  with Cons.prems obtain ch where ch: "chans q = Some ch" by auto
  let ?c1 = "chans(q \<mapsto> chan_set_revents ch e)"
  have "\<forall>(e, q) \<in> set ready. ?c1 q \<noteq> None" using Cons.prems by auto
  from Cons.IH [OF this] obtain c2 where c2: "fill_active_chs ?c1 ready = Inr (map snd ready, c2)"
    "dom c2 = dom ?c1" "\<forall>q. q \<notin> snd ` set ready \<longrightarrow> c2 q = ?c1 q"
    "distinct (map snd ready) \<longrightarrow>
       (\<forall>(e, q) \<in> set ready. c2 q = map_option (\<lambda>ch. chan_set_revents ch e) (?c1 q))" by blast
  have 1: "fill_active_chs chans (x # ready) = Inr (map snd (x # ready), c2)"
    using x ch c2(1) by simp
  have 2: "dom c2 = dom chans" using c2(2) ch by auto
  have 3: "c2 q' = chans q'" if "q' \<notin> snd ` set (x # ready)" for q'
    using that c2(3) x by simp
  have 4: "c2 q' = map_option (\<lambda>ch. chan_set_revents ch e') (chans q')"
    if "distinct (map snd (x # ready))" "(e', q') \<in> set (x # ready)" for e' q'
  proof (cases "(e', q') \<in> set ready")
    case True
    then have "q' \<noteq> q" using that(1) x by force
    moreover have "c2 q' = map_option (\<lambda>ch. chan_set_revents ch e') (?c1 q')"
      using c2(4) True that(1) by auto
    ultimately show ?thesis by simp
  next
    case False
    then have "q' = q" "e' = e" using that(2) x by auto
    moreover have "q \<notin> snd ` set ready" using that(1) x by simp
    ultimately show ?thesis using c2(3) ch by simp
  qed
  from 1 2 3 4 show ?case by blast
qed simp

section \<open>Properties\<close>

text \<open>
  C14.  The kernel always knows what a channel asks for: with \<^verbatim>\<open>epoll_ctl\<close> as documented, any of the five
  mask changes followed by \<^verbatim>\<open>update_chan\<close> on a channel that agreed with the kernel before registers
  exactly the new mask under the channel's address, provokes no error, and leaves every other
  descriptor as it was; removing a registered channel takes it out, again without error.
\<close>

theorem epoll_interest_follows_mask:
  assumes "epoll_documented K" and "chan_synced p ptr ch"
  shows "(case epoll_update_chan K p ptr (chan_mask m ch) of (ch', p') \<Rightarrow>
            interest (ep_calls p') =
              (interest (ep_calls p))(ch_fd ch \<mapsto> (apply_mask m (ch_events ch), ptr)) \<and>
            chan_synced p' ptr ch' \<and> ch_index ch' = ADDED \<and> ep_log p' = ep_log p \<and>
            (case epoll_remove_chan K p' ptr ch' of (ch'', p'') \<Rightarrow>
               interest (ep_calls p'') = (interest (ep_calls p))(ch_fd ch := None) \<and>
               chan_synced p'' ptr ch'' \<and> ep_log p'' = ep_log p))"
proof -
  obtain ch' p' where u: "epoll_update_chan K p ptr (chan_mask m ch) = (ch', p')" by fastforce
  obtain ch'' p'' where r: "epoll_remove_chan K p' ptr ch' = (ch'', p'')" by fastforce
  note up = update_chan_syncs [OF assms(1) chan_synced_registered [OF assms(2)], of m, unfolded u fst_conv snd_conv]
  note rem = remove_chan_syncs [OF assms(1) up(1), unfolded r fst_conv snd_conv]
  have ev: "ch_events ch' = apply_mask m (ch_events ch)" "ch_fd ch' = ch_fd ch"
    using up(4,5) by (simp_all add: chan_mask_def)
  have "interest (ep_calls p') = (interest (ep_calls p))(ch_fd ch \<mapsto> (apply_mask m (ch_events ch), ptr))"
    using up(1,2,6) ev by (auto simp: chan_synced_def)
  moreover have "interest (ep_calls p'') = (interest (ep_calls p))(ch_fd ch := None)"
  proof
    fix f show "interest (ep_calls p'') f = ((interest (ep_calls p))(ch_fd ch := None)) f"
      using rem(5,6) up(6) ev(2) by (cases "f = ch_fd ch") simp_all
  qed
  ultimately show ?thesis using u r up rem(1,4) by simp
qed

definition ctl_manual :: epoll_ctl where
  "ctl_manual calls c = (if ctl_valid calls c then None
     else Some (if ctl_operation c = EPOLL_CTL_ADD then 17 else 2))"

lemma ctl_manual_documented [simp]: "epoll_documented ctl_manual"
  by (simp add: epoll_documented_def ctl_manual_def)

definition poller_example :: epoll_poller where
  "poller_example = \<lparr>ep_chs = Map.empty, ep_nevents = 16, ep_calls = [], ep_log = []\<rparr>"

lemma chan_new_synced [simp]: "chan_synced poller_example ptr (chan_new f)"
  by (simp add: chan_synced_def poller_example_def chan_new_def interest_def NEW_def ADDED_def)

theorem epoll_interest_follows_mask_witness:
  "(case epoll_update_chan ctl_manual poller_example 100 (chan_mask Enable_Reading (chan_new 5)) of (ch', p') \<Rightarrow>
      interest (ep_calls p') = (interest (ep_calls poller_example))(ch_fd (chan_new 5) \<mapsto>
        (apply_mask Enable_Reading (ch_events (chan_new 5)), 100)) \<and>
      chan_synced p' 100 ch' \<and> ch_index ch' = ADDED \<and> ep_log p' = ep_log poller_example \<and>
      (case epoll_remove_chan ctl_manual p' 100 ch' of (ch'', p'') \<Rightarrow>
         interest (ep_calls p'') = (interest (ep_calls poller_example))(ch_fd (chan_new 5) := None) \<and>
         chan_synced p'' 100 ch'' \<and> ep_log p'' = ep_log poller_example))"
  by (rule epoll_interest_follows_mask) simp_all

text \<open>
  C29.  A channel is known to the poller from its first update on, through any later updates of it and any
  operations on other descriptors, until it is removed.
\<close>

theorem poller_knows_until_removed:
  assumes "ch_index ch = NEW"
    and "\<forall>(rem, qtr, ch') \<in> set ops. ch_fd ch' \<noteq> ch_fd ch \<or> (\<not> rem \<and> ch_index ch' \<noteq> NEW)"
  shows "poller_has_chan (poller_run (epoll_update_chan K) (epoll_remove_chan K)
            (snd (epoll_update_chan K p ptr ch)) ops) ptr ch \<and>
         \<not> poller_has_chan (snd (epoll_remove_chan K (poller_run (epoll_update_chan K) (epoll_remove_chan K)
            (snd (epoll_update_chan K p ptr ch)) ops) ptr ch)) ptr ch"
  using assms by (rule epc.known_until_removed)

theorem poller_knows_until_removed_witness:
  "poller_has_chan (poller_run (epoll_update_chan ctl_manual) (epoll_remove_chan ctl_manual)
      (snd (epoll_update_chan ctl_manual poller_example 100 (chan_new 5))) [(True, 200, chan_new 6)]) 100 (chan_new 5) \<and>
   \<not> poller_has_chan (snd (epoll_remove_chan ctl_manual (poller_run (epoll_update_chan ctl_manual)
      (epoll_remove_chan ctl_manual) (snd (epoll_update_chan ctl_manual poller_example 100 (chan_new 5)))
      [(True, 200, chan_new 6)]) 100 (chan_new 5))) 100 (chan_new 5)"
  by (rule poller_knows_until_removed) (simp_all add: chan_new_def NEW_def)

text \<open>
  C28.  Polling delivers every ready entry exactly once and in order: when all reported addresses belong to
  live channels, the active list is the list of reported addresses, each reported channel carries
  the reported events, no other channel changes, and a full event vector doubles.
\<close>

theorem epoll_poll_delivers:
  assumes "\<forall>(e, q) \<in> set ready. chans q \<noteq> None" and "distinct (map snd ready)"
  shows "\<exists>p' chans'. epoll_poll p chans (Inr ready) = Inr (map snd ready, p', chans') \<and>
           (\<forall>(e, q) \<in> set ready. chans' q = map_option (\<lambda>ch. chan_set_revents ch e) (chans q)) \<and>
           (\<forall>q. q \<notin> snd ` set ready \<longrightarrow> chans' q = chans q) \<and>
           ep_nevents p' = (if ready \<noteq> [] \<and> length ready = ep_nevents p then 2 * ep_nevents p
                            else ep_nevents p)"
proof (cases "ready = []")
  case True
  then show ?thesis by (simp add: epoll_poll_def)
next
  case False
  from fill_active_ok [OF assms(1)] obtain chans' where
    "fill_active_chs chans ready = Inr (map snd ready, chans')"
    "\<forall>q. q \<notin> snd ` set ready \<longrightarrow> chans' q = chans q"
    "\<forall>(e, q) \<in> set ready. chans' q = map_option (\<lambda>ch. chan_set_revents ch e) (chans q)"
    using assms(2) by blast
  with False show ?thesis by (simp add: epoll_poll_def)
qed

theorem epoll_poll_delivers_witness:
  "\<exists>p' chans'. epoll_poll (poller_example\<lparr>ep_nevents := 1\<rparr>) [100 \<mapsto> chan_new 5] (Inr [(4, 100)]) =
       Inr (map snd [(4, 100)], p', chans') \<and> ep_nevents p' = 2"
  using epoll_poll_delivers [of "[(4, 100)]" "[100 \<mapsto> chan_new 5]" "poller_example\<lparr>ep_nevents := 1\<rparr>"]
  by auto

text \<open>
  A removed channel that is enabled again is registered with the kernel but unknown to the poller:
  removal marks it deleted rather than new, and updating a deleted channel does not enter it into
  the map that \<^verbatim>\<open>has_chan\<close> consults.
\<close>

theorem removed_chan_not_readmitted:
  assumes "epoll_documented K" and "chan_synced p ptr ch" and "ch_index ch = ADDED"
  shows "(case epoll_remove_chan K p ptr ch of (ch1, p1) \<Rightarrow>
          case epoll_update_chan K p1 ptr (chan_mask Enable_Reading ch1) of (ch2, p2) \<Rightarrow>
            interest (ep_calls p2) (ch_fd ch) = Some (ch_events ch2, ptr) \<and> \<not> poller_has_chan p2 ptr ch2)"
proof -
  obtain ch1 p1 where r: "epoll_remove_chan K p ptr ch = (ch1, p1)" by fastforce
  obtain ch2 p2 where u: "epoll_update_chan K p1 ptr (chan_mask Enable_Reading ch1) = (ch2, p2)" by fastforce
  note rem = remove_chan_syncs [OF assms(1,2), unfolded r fst_conv snd_conv]
  note up = update_chan_syncs [OF assms(1) chan_synced_registered [OF rem(1)], of Enable_Reading, unfolded u fst_conv snd_conv]
  have "interest (ep_calls p2) (ch_fd ch2) = Some (ch_events ch2, ptr)" "ch_fd ch2 = ch_fd ch"
    using up(1,2,5) rem(3) by (auto simp: chan_synced_def)
  moreover have "\<not> poller_has_chan p1 ptr ch" using epc.has_remove [of K p ptr ch] r by simp
  moreover have "ep_chs p2 = ep_chs p1"
    using u rem(2) by (auto simp: epoll_update_chan_def Let_def NEW_def DELETED_def split: if_splits)
  ultimately show ?thesis using r u by (simp add: poller_has_chan_def)
qed

theorem removed_chan_not_readmitted_witness:
  "(case epoll_remove_chan ctl_manual (poller_example\<lparr>ep_calls := [\<lparr>ctl_operation = EPOLL_CTL_ADD, ctl_fd = 5,
          ctl_events = 0, ctl_ptr = 100\<rparr>]\<rparr>) 100 (chan_set_index (chan_new 5) ADDED) of (ch1, p1) \<Rightarrow>
    case epoll_update_chan ctl_manual p1 100 (chan_mask Enable_Reading ch1) of (ch2, p2) \<Rightarrow>
      interest (ep_calls p2) (ch_fd (chan_set_index (chan_new 5) ADDED)) = Some (ch_events ch2, 100) \<and>
      \<not> poller_has_chan p2 100 ch2)"
  by (rule removed_chan_not_readmitted)
    (simp_all add: chan_synced_def chan_new_def interest_def)

end
