(* ===== verification/ELoop.thy ===== *)
theory ELoop
  imports Poller CThread
begin

text \<open>
  The event loop: \<^verbatim>\<open>include/net/eloop.h\<close> and \<^verbatim>\<open>src/net/eloop.cpp\<close>.  A loop owns a poller, an eventfd with
  its channel for wake-ups, and a mutex-protected vector of functors handed over by other threads.
  Functors are values of a type parameter; what running one does is an argument of the operations
  that run them.  The kernel's eventfd is a parameter \<open>E\<close>, its \<^verbatim>\<open>epoll_ctl\<close> the parameter \<open>K\<close>.
\<close>

section \<open>Model\<close>

text \<open>The channels of a loop live in \<open>el_chans\<close>: the address of each live one mapped to its state.\<close>

record 'f eloop =
  el_looping :: bool
  el_quit :: bool
  el_calling_pending_functors :: bool
  el_thread_id :: tid
  el_poller :: "epoll_poller option"
  el_wakeup_fd :: fd
  el_wakeup_ch :: chan_ptr
  el_active_chs :: "chan_ptr list"
  el_pending_functors :: "'f list"
  el_chans :: chan_store
  el_eventfd :: nat                  \<comment> \<open>counter behind \<^verbatim>\<open>wakeup_fd_\<close>\<close>
  el_log :: "log_call list"

text \<open>
  The kernel's side of an eventfd: how reading and writing eight bytes change the counter and what
  the calls return.
\<close>

record eventfd =
  efd_write :: "nat \<Rightarrow> nat \<times> int"
  efd_read :: "nat \<Rightarrow> nat \<times> int"

definition eloop_is_in_loop_thread :: "tid \<Rightarrow> 'f eloop \<Rightarrow> bool" where
  "eloop_is_in_loop_thread cur l \<longleftrightarrow> el_thread_id l = cur"

definition create_eventfd :: "int \<Rightarrow> fd result" where
  "create_eventfd evtfd = (if evtfd < 0 then Inl Aborted else Inr evtfd)"

text \<open>
  \<^verbatim>\<open>update_chan\<close> and \<^verbatim>\<open>remove_chan\<close> hand the channel at address \<open>ptr\<close> to the poller, which may write its
  index back.
\<close>

definition eloop_poller_call ::
    "(epoll_poller \<Rightarrow> chan_ptr \<Rightarrow> chan \<Rightarrow> chan \<times> epoll_poller) \<Rightarrow> chan_ptr \<Rightarrow> 'f eloop \<Rightarrow> 'f eloop result" where
  "eloop_poller_call f ptr l =
     (case (el_poller l, el_chans l ptr) of
        (Some p, Some ch) \<Rightarrow>
          (case f p ptr ch of (ch', p') \<Rightarrow>
             Inr (l\<lparr>el_poller := Some p', el_chans := (el_chans l)(ptr \<mapsto> ch')\<rparr>))
      | _ \<Rightarrow> Inl Null_Deref)"

definition eloop_update_chan :: "epoll_ctl \<Rightarrow> chan_ptr \<Rightarrow> 'f eloop \<Rightarrow> 'f eloop result" where
  "eloop_update_chan K ptr l = eloop_poller_call (epoll_update_chan K) ptr l"

definition eloop_remove_chan :: "epoll_ctl \<Rightarrow> chan_ptr \<Rightarrow> 'f eloop \<Rightarrow> 'f eloop result" where
  "eloop_remove_chan K ptr l = eloop_poller_call (epoll_remove_chan K) ptr l"

definition eloop_has_chan :: "chan_ptr \<Rightarrow> 'f eloop \<Rightarrow> bool result" where
  "eloop_has_chan ptr l =
     (case (el_poller l, el_chans l ptr) of
        (Some p, Some ch) \<Rightarrow> Inr (poller_has_chan p ptr ch)
      | _ \<Rightarrow> Inl Null_Deref)"

text \<open>
  \<^verbatim>\<open>enable_reading\<close>, \<^verbatim>\<open>disable_writing\<close> and the others on the channel at \<open>ptr\<close>: change the mask, then
  \<^verbatim>\<open>chan::update\<close>; and \<^verbatim>\<open>chan::remove\<close>.
\<close>

definition chan_set_mask :: "epoll_ctl \<Rightarrow> mask_op \<Rightarrow> chan_ptr \<Rightarrow> 'f eloop \<Rightarrow> 'f eloop result" where
  "chan_set_mask K m ptr l =
     (case el_chans l ptr of
        None \<Rightarrow> Inl Null_Deref
      | Some ch \<Rightarrow> eloop_update_chan K ptr (l\<lparr>el_chans := (el_chans l)(ptr \<mapsto> chan_mask m ch)\<rparr>))"

definition chan_remove :: "epoll_ctl \<Rightarrow> chan_ptr \<Rightarrow> 'f eloop \<Rightarrow> 'f eloop result" where
  "chan_remove K ptr l = eloop_remove_chan K ptr l"

text \<open>
  Construction in thread \<open>cur\<close>: \<open>epollfd\<close> and \<open>evtfd\<close> are what \<^verbatim>\<open>epoll_create1\<close> and \<^verbatim>\<open>eventfd\<close> returned,
  \<open>has_loop\<close> tells whether \<^verbatim>\<open>t_loop_in_this_thread\<close> is set, \<open>this\<close> is the text of \<^verbatim>\<open>%p\<close> and \<open>wptr\<close> the
  address of the new wake-up channel.
\<close>

definition eloop_new ::
    "epoll_ctl \<Rightarrow> tid \<Rightarrow> bool \<Rightarrow> bool \<Rightarrow> int \<Rightarrow> int \<Rightarrow> string \<Rightarrow> chan_ptr \<Rightarrow> 'f eloop result" where
  "eloop_new K cur has_loop cai_use_poll epollfd evtfd this wptr =
     bind_res (new_default_poller cai_use_poll epollfd) (\<lambda>p.
     bind_res (create_eventfd evtfd) (\<lambda>wfd.
     if has_loop then Inl Aborted
     else
       (let wch = (chan_new wfd)\<lparr>ch_read_callback := Some Eloop_handle_read\<rparr> in
        chan_set_mask K Enable_Reading wptr
          \<lparr>el_looping = False, el_quit = False, el_calling_pending_functors = False,
           el_thread_id = cur, el_poller = p, el_wakeup_fd = wfd, el_wakeup_ch = wptr,
           el_active_chs = [], el_pending_functors = [], el_chans = [wptr \<mapsto> wch], el_eventfd = 0,
           el_log = [(DEBUG, ''eloop created '' @ this @ '' in thread '' @ dec_int cur @ '' '' @ [CHR 0x0A])]\<rparr>)))"

text \<open>Destruction; afterwards \<^verbatim>\<open>t_loop_in_this_thread\<close> is null and the wake-up channel is gone.\<close>

definition eloop_destroy :: "epoll_ctl \<Rightarrow> 'f eloop \<Rightarrow> 'f eloop result" where
  "eloop_destroy K l =
     bind_res (chan_set_mask K Disable_All (el_wakeup_ch l) l) (\<lambda>l1.
     bind_res (chan_remove K (el_wakeup_ch l) l1) (\<lambda>l2.
     Inr (l2\<lparr>el_chans := (el_chans l2)(el_wakeup_ch l := None)\<rparr>)))"

definition eloop_handle_read :: "eventfd \<Rightarrow> 'f eloop \<Rightarrow> 'f eloop" where
  "eloop_handle_read E l =
     (case efd_read E (el_eventfd l) of (c, n) \<Rightarrow>
        let l1 = l\<lparr>el_eventfd := c\<rparr> in
        if n \<noteq> 8 then l1\<lparr>el_log := el_log l1 @
          [(ERROR, ''eloop::handle_read() reads '' @ dec_int n @ '' bytes instead of 8'')]\<rparr>
        else l1)"

definition eloop_wakeup :: "eventfd \<Rightarrow> 'f eloop \<Rightarrow> 'f eloop" where
  "eloop_wakeup E l =
     (case efd_write E (el_eventfd l) of (c, n) \<Rightarrow>
        let l1 = l\<lparr>el_eventfd := c\<rparr> in
        if n \<noteq> 8 then l1\<lparr>el_log := el_log l1 @
          [(ERROR, ''eloop::wakeup() writes '' @ dec_int n @ '' bytes instead of 8'')]\<rparr>
        else l1)"

text \<open>
  \<^verbatim>\<open>quit\<close> and \<^verbatim>\<open>queue_in_loop\<close> change shared state and then may write the eventfd; the two halves are
  separate definitions because other threads can run in between.
\<close>

definition eloop_set_quit :: "'f eloop \<Rightarrow> 'f eloop" where
  "eloop_set_quit l = l\<lparr>el_quit := True\<rparr>"

definition eloop_quit :: "eventfd \<Rightarrow> tid \<Rightarrow> 'f eloop \<Rightarrow> 'f eloop" where
  "eloop_quit E cur l =
     (let l1 = eloop_set_quit l in
      if \<not> eloop_is_in_loop_thread cur l1 then eloop_wakeup E l1 else l1)"

definition eloop_push :: "'f \<Rightarrow> 'f eloop \<Rightarrow> 'f eloop" where
  "eloop_push cb l = l\<lparr>el_pending_functors := el_pending_functors l @ [cb]\<rparr>"

definition eloop_queue_in_loop :: "eventfd \<Rightarrow> tid \<Rightarrow> 'f \<Rightarrow> 'f eloop \<Rightarrow> 'f eloop" where
  "eloop_queue_in_loop E cur cb l =
     (let l1 = eloop_push cb l in
      if \<not> eloop_is_in_loop_thread cur l1 \<or> el_calling_pending_functors l1
      then eloop_wakeup E l1 else l1)"

text \<open>\<^verbatim>\<open>run_in_loop\<close>: \<open>call\<close> runs the functor in the calling thread.\<close>

definition eloop_run_in_loop ::
    "eventfd \<Rightarrow> tid \<Rightarrow> ('f \<Rightarrow> 'f eloop \<Rightarrow> 'f eloop result) \<Rightarrow> 'f \<Rightarrow> 'f eloop \<Rightarrow> 'f eloop result" where
  "eloop_run_in_loop E cur call cb l =
     (if eloop_is_in_loop_thread cur l then call cb l else Inr (eloop_queue_in_loop E cur cb l))"

text \<open>The pieces of \<^verbatim>\<open>do_pending_functors\<close>: raise the flag, swap the vector out, lower the flag.\<close>

definition eloop_begin_calling :: "'f eloop \<Rightarrow> 'f eloop" where
  "eloop_begin_calling l = l\<lparr>el_calling_pending_functors := True\<rparr>"

definition eloop_swap_pending :: "'f eloop \<Rightarrow> 'f list \<times> 'f eloop" where
  "eloop_swap_pending l = (el_pending_functors l, l\<lparr>el_pending_functors := []\<rparr>)"

definition eloop_end_calling :: "'f eloop \<Rightarrow> 'f eloop" where
  "eloop_end_calling l = l\<lparr>el_calling_pending_functors := False\<rparr>"

text \<open>The pieces of \<^verbatim>\<open>loop\<close>.\<close>

definition eloop_loop_begin :: "string \<Rightarrow> 'f eloop \<Rightarrow> 'f eloop" where
  "eloop_loop_begin this l = l\<lparr>el_looping := True, el_quit := False,
     el_log := el_log l @ [(INFO, ''eloop '' @ this @ '' start looping '' @ [CHR 0x0A])]\<rparr>"

definition eloop_loop_end :: "string \<Rightarrow> 'f eloop \<Rightarrow> 'f eloop" where
  "eloop_loop_end this l = l\<lparr>el_looping := False,
     el_log := el_log l @ [(INFO, ''eloop '' @ this @ '' stop looping. '' @ [CHR 0x0A])]\<rparr>"

definition eloop_poll :: "errno + (32 word \<times> chan_ptr) list \<Rightarrow> 'f eloop \<Rightarrow> 'f eloop result" where
  "eloop_poll outcome l =
     (case el_poller l of
        None \<Rightarrow> Inl Null_Deref
      | Some p \<Rightarrow>
          bind_res (epoll_poll p (el_chans l) outcome) (\<lambda>(active, p', chans').
          Inr (l\<lparr>el_active_chs := active, el_poller := Some p', el_chans := chans'\<rparr>)))"

section \<open>Running functors and events in a larger state\<close>

text \<open>
  Functors and callbacks change more than their loop, so the operations that run them work on a
  state \<open>'w\<close> that contains the loop: \<open>get\<close> and \<open>put\<close> give access to it.  The vector of swapped functors
  is destroyed at the end of \<^verbatim>\<open>do_pending_functors\<close>: \<open>release\<close> says what the objects they hold do then.
\<close>

definition do_pending_functors ::
    "('w \<Rightarrow> 'f eloop) \<Rightarrow> ('f eloop \<Rightarrow> 'w \<Rightarrow> 'w) \<Rightarrow> ('w \<Rightarrow> 'f \<Rightarrow> 'w result) \<Rightarrow> ('f list \<Rightarrow> 'w \<Rightarrow> 'w result) \<Rightarrow>
       'w \<Rightarrow> 'w result" where
  "do_pending_functors get put call release w =
     (let (fs, l) = eloop_swap_pending (eloop_begin_calling (get w)) in
      bind_res (fold_res call (put l w) fs) (\<lambda>w'.
      release fs (put (eloop_end_calling (get w')) w')))"

text \<open>
  The event phase: each active channel is dispatched with the state that the earlier callbacks left;
  \<open>alive\<close> decides whether a tied object still exists and \<open>log\<close> records a message.
\<close>

definition dispatch_chan ::
    "('w \<Rightarrow> 'f eloop) \<Rightarrow> ('w \<Rightarrow> nat \<Rightarrow> bool) \<Rightarrow> (log_call list \<Rightarrow> 'w \<Rightarrow> 'w) \<Rightarrow>
       ('w \<Rightarrow> callback \<Rightarrow> 'w result) \<Rightarrow> 'w \<Rightarrow> chan_ptr \<Rightarrow> 'w result" where
  "dispatch_chan get alive log call w ptr =
     (case el_chans (get w) ptr of
        None \<Rightarrow> Inl Null_Deref
      | Some ch \<Rightarrow>
          (case handle_event (alive w) ch of (msgs, cbs) \<Rightarrow> fold_res call (log msgs w) cbs))"

text \<open>One turn of the \<^verbatim>\<open>while\<close> loop, with the outcome of \<^verbatim>\<open>epoll_wait\<close>.\<close>

definition loop_turn ::
    "('w \<Rightarrow> 'f eloop) \<Rightarrow> ('f eloop \<Rightarrow> 'w \<Rightarrow> 'w) \<Rightarrow> ('w \<Rightarrow> nat \<Rightarrow> bool) \<Rightarrow> (log_call list \<Rightarrow> 'w \<Rightarrow> 'w) \<Rightarrow>
       ('w \<Rightarrow> callback \<Rightarrow> 'w result) \<Rightarrow> ('w \<Rightarrow> 'f \<Rightarrow> 'w result) \<Rightarrow> ('f list \<Rightarrow> 'w \<Rightarrow> 'w result) \<Rightarrow>
       errno + (32 word \<times> chan_ptr) list \<Rightarrow> 'w \<Rightarrow> 'w result" where
  "loop_turn get put alive log call_cb call_f release outcome w =
     bind_res (eloop_poll outcome (get w)) (\<lambda>l.
     bind_res (fold_res (dispatch_chan get alive log call_cb) (put l w) (el_active_chs l)) (\<lambda>w1.
     do_pending_functors get put call_f release w1))"

text \<open>
  The \<^verbatim>\<open>while\<close> loop: one turn per outcome of \<^verbatim>\<open>epoll_wait\<close>, until \<^verbatim>\<open>quit_\<close> is seen; the list may end
  before, when the loop is still waiting.
\<close>

fun loop_while ::
    "('w \<Rightarrow> 'f eloop) \<Rightarrow> ('w \<Rightarrow> 'o \<Rightarrow> 'w result) \<Rightarrow> 'o list \<Rightarrow> 'w \<Rightarrow> (bool \<times> 'w) result" where
  "loop_while get turn outs w =
     (if el_quit (get w) then Inr (True, w)
      else (case outs of
              [] \<Rightarrow> Inr (False, w)
            | out # outs' \<Rightarrow> bind_res (turn w out) (loop_while get turn outs')))"

section \<open>The kernel's eventfd\<close>

text \<open>
  What the manual says of a non-blocking eventfd: a write of 1 adds one unless the counter would
  exceed its maximum, and then fails; a read resets a counter above zero, and fails at zero.  The
  descriptor is readable exactly when the counter is above zero.
\<close>

definition eventfd_max :: nat where
  "eventfd_max = 18446744073709551614"

definition eventfd_documented :: "eventfd \<Rightarrow> bool" where
  "eventfd_documented E \<longleftrightarrow>
     (\<forall>c \<le> eventfd_max. efd_write E c = (if c < eventfd_max then (c + 1, 8) else (c, -1)) \<and>
        efd_read E c = (if c = 0 then (0, -1) else (0, 8)))"

lemma eventfd_write_ready:
  assumes "eventfd_documented E" "el_eventfd l \<le> eventfd_max"
  shows "0 < el_eventfd (eloop_wakeup E l)" "el_eventfd (eloop_wakeup E l) \<le> eventfd_max"
  using assms by (auto simp: eventfd_documented_def eloop_wakeup_def eventfd_max_def Let_def
      split: if_splits)

lemma eventfd_read_bound:
  assumes "eventfd_documented E" "el_eventfd l \<le> eventfd_max"
  shows "el_eventfd (eloop_handle_read E l) = 0"
  using assms by (auto simp: eventfd_documented_def eloop_handle_read_def Let_def split: if_splits)

lemma eloop_wakeup_frame [simp]:
  "el_pending_functors (eloop_wakeup E l) = el_pending_functors l"
  "el_quit (eloop_wakeup E l) = el_quit l"
  "el_thread_id (eloop_wakeup E l) = el_thread_id l"
  "el_calling_pending_functors (eloop_wakeup E l) = el_calling_pending_functors l"
  "el_chans (eloop_wakeup E l) = el_chans l" "el_poller (eloop_wakeup E l) = el_poller l"
  by (simp_all add: eloop_wakeup_def Let_def split: prod.splits)

lemma eloop_handle_read_frame [simp]:
  "el_pending_functors (eloop_handle_read E l) = el_pending_functors l"
  "el_quit (eloop_handle_read E l) = el_quit l"
  "el_thread_id (eloop_handle_read E l) = el_thread_id l"
  "el_calling_pending_functors (eloop_handle_read E l) = el_calling_pending_functors l"
  by (simp_all add: eloop_handle_read_def Let_def split: prod.splits)

section \<open>The loop thread and its clients interleaved\<close>

text \<open>
  Where the loop thread is: before \<^verbatim>\<open>loop()\<close>, at the test of \<^verbatim>\<open>quit_\<close>, in \<^verbatim>\<open>epoll_wait\<close>, about to read
  the eventfd, in the event handlers, before the swap, running the swapped functors, or after
  \<^verbatim>\<open>loop()\<close>.
\<close>

datatype 'f loop_pc = L_Idle | L_Check | L_Poll | L_Wake | L_Handle | L_Swap | L_Run "'f list" | L_Stopped

record 'f loop_sys =
  sy_loop :: "'f eloop"
  sy_pc :: "'f loop_pc"
  sy_wakers :: nat          \<comment> \<open>clients between their change and their write to the eventfd\<close>
  sy_queued :: "'f list"    \<comment> \<open>every functor queued so far, in order\<close>
  sy_run :: "'f list"       \<comment> \<open>every functor run so far, in order\<close>

text \<open>
  A step of the loop thread, or of a client in another thread.  The loop thread's own calls of
  \<^verbatim>\<open>queue_in_loop\<close> and \<^verbatim>\<open>quit\<close>, from event handlers and functors, are single steps: nothing the loop
  thread does falls between their halves.
\<close>

inductive loop_step :: "eventfd \<Rightarrow> string \<Rightarrow> 'f loop_sys \<Rightarrow> 'f loop_sys \<Rightarrow> bool"
  for E :: eventfd and this :: string where
  start: "sy_pc s = L_Idle \<Longrightarrow>
     loop_step E this s (s\<lparr>sy_loop := eloop_loop_begin this (sy_loop s), sy_pc := L_Check\<rparr>)"
| check_quit: "\<lbrakk>sy_pc s = L_Check; el_quit (sy_loop s)\<rbrakk> \<Longrightarrow>
     loop_step E this s (s\<lparr>sy_loop := eloop_loop_end this (sy_loop s), sy_pc := L_Stopped\<rparr>)"
| check_go: "\<lbrakk>sy_pc s = L_Check; \<not> el_quit (sy_loop s)\<rbrakk> \<Longrightarrow> loop_step E this s (s\<lparr>sy_pc := L_Poll\<rparr>)"
| poll_other: "sy_pc s = L_Poll \<Longrightarrow> loop_step E this s (s\<lparr>sy_pc := L_Handle\<rparr>)"
| poll_wakeup: "\<lbrakk>sy_pc s = L_Poll; 0 < el_eventfd (sy_loop s)\<rbrakk> \<Longrightarrow> loop_step E this s (s\<lparr>sy_pc := L_Wake\<rparr>)"
| wake: "sy_pc s = L_Wake \<Longrightarrow>
     loop_step E this s (s\<lparr>sy_loop := eloop_handle_read E (sy_loop s), sy_pc := L_Handle\<rparr>)"
| own_queue: "sy_pc s = L_Handle \<or> sy_pc s = L_Run fs \<Longrightarrow>
     loop_step E this s (s\<lparr>sy_loop := eloop_queue_in_loop E (el_thread_id (sy_loop s)) f (sy_loop s),
                          sy_queued := sy_queued s @ [f]\<rparr>)"
| own_quit: "sy_pc s = L_Handle \<or> sy_pc s = L_Run fs \<Longrightarrow>
     loop_step E this s (s\<lparr>sy_loop := eloop_quit E (el_thread_id (sy_loop s)) (sy_loop s)\<rparr>)"
| begin_calling: "sy_pc s = L_Handle \<Longrightarrow>
     loop_step E this s (s\<lparr>sy_loop := eloop_begin_calling (sy_loop s), sy_pc := L_Swap\<rparr>)"
| swap: "\<lbrakk>sy_pc s = L_Swap; eloop_swap_pending (sy_loop s) = (fs, l)\<rbrakk> \<Longrightarrow>
     loop_step E this s (s\<lparr>sy_loop := l, sy_pc := L_Run fs\<rparr>)"
| run_one: "sy_pc s = L_Run (f # fs) \<Longrightarrow>
     loop_step E this s (s\<lparr>sy_pc := L_Run fs, sy_run := sy_run s @ [f]\<rparr>)"
| end_calling: "sy_pc s = L_Run [] \<Longrightarrow>
     loop_step E this s (s\<lparr>sy_loop := eloop_end_calling (sy_loop s), sy_pc := L_Check\<rparr>)"
| client_push: "loop_step E this s (s\<lparr>sy_loop := eloop_push f (sy_loop s),
                  sy_wakers := sy_wakers s + 1, sy_queued := sy_queued s @ [f]\<rparr>)"
| client_quit: "loop_step E this s (s\<lparr>sy_loop := eloop_set_quit (sy_loop s), sy_wakers := sy_wakers s + 1\<rparr>)"
| client_wakeup: "0 < sy_wakers s \<Longrightarrow>
     loop_step E this s (s\<lparr>sy_loop := eloop_wakeup E (sy_loop s), sy_wakers := sy_wakers s - 1\<rparr>)"

text \<open>A client's call outside the loop thread is the push, or the store, followed by the wake-up.\<close>

lemma client_calls:
  assumes "cur \<noteq> el_thread_id l"
  shows "eloop_queue_in_loop E cur f l = eloop_wakeup E (eloop_push f l)"
    and "eloop_quit E cur l = eloop_wakeup E (eloop_set_quit l)"
  using assms
  by (simp_all add: eloop_queue_in_loop_def eloop_quit_def eloop_is_in_loop_thread_def eloop_push_def
      eloop_set_quit_def Let_def)

definition loop_init :: "'f loop_sys \<Rightarrow> bool" where
  "loop_init s \<longleftrightarrow> sy_pc s = L_Idle \<and> sy_wakers s = 0 \<and> sy_queued s = [] \<and> sy_run s = [] \<and>
     el_pending_functors (sy_loop s) = [] \<and> el_eventfd (sy_loop s) = 0 \<and>
     \<not> el_calling_pending_functors (sy_loop s) \<and> \<not> el_quit (sy_loop s)"

section \<open>Invariant\<close>

primrec in_flight :: "'f loop_pc \<Rightarrow> 'f list" where
  "in_flight L_Idle = []" | "in_flight L_Check = []" | "in_flight L_Poll = []"
| "in_flight L_Wake = []" | "in_flight L_Handle = []" | "in_flight L_Swap = []"
| "in_flight (L_Run fs) = fs" | "in_flight L_Stopped = []"

primrec calling_at :: "'f loop_pc \<Rightarrow> bool" where
  "calling_at L_Idle = False" | "calling_at L_Check = False" | "calling_at L_Poll = False"
| "calling_at L_Wake = False" | "calling_at L_Handle = False" | "calling_at L_Swap = True"
| "calling_at (L_Run fs) = True" | "calling_at L_Stopped = False"

text \<open>Positions from which the loop reaches \<^verbatim>\<open>epoll_wait\<close> before the next swap.\<close>

primrec before_poll :: "'f loop_pc \<Rightarrow> bool" where
  "before_poll L_Idle = True" | "before_poll L_Check = True" | "before_poll L_Poll = True"
| "before_poll L_Wake = False" | "before_poll L_Handle = False" | "before_poll L_Swap = False"
| "before_poll (L_Run fs) = True" | "before_poll L_Stopped = False"

definition wake_due :: "'f loop_sys \<Rightarrow> bool" where
  "wake_due s \<longleftrightarrow> 0 < el_eventfd (sy_loop s) \<or> 0 < sy_wakers s"

definition loop_inv :: "'f loop_sys \<Rightarrow> bool" where
  "loop_inv s \<longleftrightarrow>
     el_eventfd (sy_loop s) \<le> eventfd_max \<and>
     el_calling_pending_functors (sy_loop s) = calling_at (sy_pc s) \<and>
     sy_queued s = sy_run s @ in_flight (sy_pc s) @ el_pending_functors (sy_loop s) \<and>
     (before_poll (sy_pc s) \<and> el_pending_functors (sy_loop s) \<noteq> [] \<longrightarrow> wake_due s) \<and>
     (sy_pc s = L_Poll \<and> el_quit (sy_loop s) \<longrightarrow> wake_due s)"

lemmas loop_op_defs = eloop_loop_begin_def eloop_loop_end_def eloop_begin_calling_def
  eloop_end_calling_def eloop_swap_pending_def eloop_push_def eloop_set_quit_def

lemma loop_inv_own_queue:
  assumes "eventfd_documented E" "loop_inv s" "sy_pc s = L_Handle \<or> sy_pc s = L_Run fs"
  shows "loop_inv (s\<lparr>sy_loop := eloop_queue_in_loop E (el_thread_id (sy_loop s)) f (sy_loop s),
                     sy_queued := sy_queued s @ [f]\<rparr>)"
proof -
  let ?l = "eloop_push f (sy_loop s)"
  have "el_eventfd ?l \<le> eventfd_max" using assms(2) by (simp add: loop_inv_def eloop_push_def)
  note ready = eventfd_write_ready [OF assms(1) this]
  from assms(3) show ?thesis
  proof
    assume "sy_pc s = L_Handle"
    with assms(2) show ?thesis
      by (simp add: loop_inv_def eloop_queue_in_loop_def eloop_is_in_loop_thread_def eloop_push_def)
  next
    assume "sy_pc s = L_Run fs"
    with assms(2) ready show ?thesis
      by (simp add: loop_inv_def wake_due_def eloop_queue_in_loop_def eloop_is_in_loop_thread_def
          eloop_push_def)
  qed
qed

lemma loop_inv_client_wakeup:
  assumes "eventfd_documented E" "loop_inv s"
  shows "loop_inv (s\<lparr>sy_loop := eloop_wakeup E (sy_loop s), sy_wakers := sy_wakers s - 1\<rparr>)"
  using assms eventfd_write_ready [OF assms(1), of "sy_loop s"]
  by (simp add: loop_inv_def wake_due_def)

lemma loop_inv_step:
  assumes "loop_step E this s t" "eventfd_documented E" "loop_inv s"
  shows "loop_inv t"
  using assms
proof (induction rule: loop_step.induct)
  case (wake s)
  then show ?case using eventfd_read_bound [of E "sy_loop s"] by (simp add: loop_inv_def)
next
  case (own_queue s fs f)
  then show ?case by (blast intro: loop_inv_own_queue)
next
  case (own_quit s fs)
  then show ?case
    by (auto simp: loop_inv_def wake_due_def eloop_quit_def eloop_is_in_loop_thread_def loop_op_defs)
next
  case (client_wakeup s)
  then show ?case using loop_inv_client_wakeup [of E s] by simp
qed (auto simp: loop_inv_def wake_due_def loop_op_defs)

interpretation elm: inductive_invariant loop_init "loop_step E this"
    "\<lambda>s. eventfd_documented E \<longrightarrow> loop_inv s" for E this
proof
  fix s :: "'a loop_sys"
  assume "loop_init s"
  then show "eventfd_documented E \<longrightarrow> loop_inv s" by (simp add: loop_init_def loop_inv_def)
qed (blast intro: loop_inv_step)

section \<open>What a wake-up leads to\<close>

lemma loop_runs_in_flight:
  "sy_pc s = L_Run fs \<Longrightarrow>
     (loop_step E this)\<^sup>*\<^sup>* s (s\<lparr>sy_pc := L_Run [], sy_run := sy_run s @ fs\<rparr>)"
proof (induction fs arbitrary: s)
  case (Cons f fs)
  let ?t = "s\<lparr>sy_pc := L_Run fs, sy_run := sy_run s @ [f]\<rparr>"
  have "loop_step E this s ?t" using Cons.prems by (rule loop_step.run_one)
  moreover have "(loop_step E this)\<^sup>*\<^sup>* ?t (s\<lparr>sy_pc := L_Run [], sy_run := sy_run s @ f # fs\<rparr>)"
    using Cons.IH [of ?t] by simp
  ultimately show ?case by (rule converse_rtranclp_into_rtranclp)
next
  case Nil
  then have "s\<lparr>sy_pc := L_Run []\<rparr> = s" by (cases s) simp
  then show ?case by simp
qed

lemma loop_turns_once:
  assumes "sy_pc s = L_Poll" "0 < el_eventfd (sy_loop s)"
  shows "\<exists>t. (loop_step E this)\<^sup>*\<^sup>* s t \<and> sy_pc t = L_Check \<and>
           sy_run t = sy_run s @ el_pending_functors (sy_loop s) \<and>
           sy_queued t = sy_queued s \<and> el_pending_functors (sy_loop t) = [] \<and>
           el_quit (sy_loop t) = el_quit (sy_loop s) \<and> sy_wakers t = sy_wakers s \<and>
           el_eventfd (sy_loop t) = el_eventfd (eloop_handle_read E (sy_loop s))"
proof -
  let ?fs = "el_pending_functors (sy_loop s)"
  define a where "a = s\<lparr>sy_pc := L_Wake\<rparr>"
  define b where "b = a\<lparr>sy_loop := eloop_handle_read E (sy_loop a), sy_pc := L_Handle\<rparr>"
  define c where "c = b\<lparr>sy_loop := eloop_begin_calling (sy_loop b), sy_pc := L_Swap\<rparr>"
  define d where "d = c\<lparr>sy_loop := (sy_loop c)\<lparr>el_pending_functors := []\<rparr>, sy_pc := L_Run ?fs\<rparr>"
  define e where "e = d\<lparr>sy_pc := L_Run [], sy_run := sy_run d @ ?fs\<rparr>"
  define t where "t = e\<lparr>sy_loop := eloop_end_calling (sy_loop e), sy_pc := L_Check\<rparr>"
  have "loop_step E this s a" using assms by (simp add: a_def loop_step.poll_wakeup)
  moreover have "loop_step E this a b" unfolding b_def by (rule loop_step.wake) (simp add: a_def)
  moreover have "loop_step E this b c" unfolding c_def by (rule loop_step.begin_calling) (simp add: b_def)
  moreover have "loop_step E this c d" unfolding d_def
    by (rule loop_step.swap) (simp_all add: a_def b_def c_def eloop_swap_pending_def eloop_begin_calling_def)
  moreover have "(loop_step E this)\<^sup>*\<^sup>* d e"
    unfolding e_def by (rule loop_runs_in_flight) (simp add: d_def)
  moreover have "loop_step E this e t" unfolding t_def by (rule loop_step.end_calling) (simp add: e_def)
  ultimately have "(loop_step E this)\<^sup>*\<^sup>* s t" by (meson converse_rtranclp_into_rtranclp rtranclp.rtrancl_into_rtrancl)
  then show ?thesis
    by (intro exI [of _ t]) (simp add: a_def b_def c_def d_def e_def t_def loop_op_defs)
qed

lemma loop_wakeup_drains:
  assumes "eventfd_documented E" and "reach loop_init (loop_step E this) s"
    and "sy_pc s = L_Poll" and "sy_wakers s = 0"
    and "el_pending_functors (sy_loop s) \<noteq> [] \<or> el_quit (sy_loop s)"
  shows "0 < el_eventfd (sy_loop s) \<and>
    (\<exists>t. (loop_step E this)\<^sup>*\<^sup>* s t \<and> sy_run t = sy_queued s \<and> el_pending_functors (sy_loop t) = [] \<and>
       sy_pc t = (if el_quit (sy_loop s) then L_Stopped else L_Check))"
proof -
  have inv: "loop_inv s" using elm.invar_reach [OF assms(2)] assms(1) by simp
  then have ready: "0 < el_eventfd (sy_loop s)"
    using assms(3-5) by (auto simp: loop_inv_def wake_due_def)
  have queued: "sy_queued s = sy_run s @ el_pending_functors (sy_loop s)"
    using inv assms(3) by (simp add: loop_inv_def)
  from loop_turns_once [OF assms(3) ready] obtain t where t: "(loop_step E this)\<^sup>*\<^sup>* s t"
    "sy_pc t = L_Check" "sy_run t = sy_queued s" "el_pending_functors (sy_loop t) = []"
    "el_quit (sy_loop t) = el_quit (sy_loop s)" using queued by metis
  let ?u = "t\<lparr>sy_loop := eloop_loop_end this (sy_loop t), sy_pc := L_Stopped\<rparr>"
  have "el_quit (sy_loop s) \<Longrightarrow> loop_step E this t ?u"
    using t by (simp add: loop_step.check_quit)
  then have "el_quit (sy_loop s) \<Longrightarrow> (loop_step E this)\<^sup>*\<^sup>* s ?u"
    using t(1) by (meson rtranclp.rtrancl_into_rtrancl)
  moreover have "sy_run ?u = sy_queued s" "el_pending_functors (sy_loop ?u) = []" "sy_pc ?u = L_Stopped"
    using t by (simp_all add: eloop_loop_end_def)
  ultimately have "el_quit (sy_loop s) \<Longrightarrow> ?thesis" using ready by metis
  moreover have "\<not> el_quit (sy_loop s) \<Longrightarrow> ?thesis" using t ready by metis
  ultimately show ?thesis by blast
qed

section \<open>Properties\<close>

definition eventfd_manual :: eventfd where
  "eventfd_manual = \<lparr>efd_write = (\<lambda>c. if c < eventfd_max then (c + 1, 8) else (c, -1)),
     efd_read = (\<lambda>c. if c = 0 then (0, -1) else (0, 8))\<rparr>"

lemma eventfd_manual_documented [simp]: "eventfd_documented eventfd_manual"
  by (simp add: eventfd_documented_def eventfd_manual_def)

definition eloop_example :: "nat eloop" where
  "eloop_example = \<lparr>el_looping = False, el_quit = False, el_calling_pending_functors = False,
     el_thread_id = 7, el_poller = None, el_wakeup_fd = 4, el_wakeup_ch = 0, el_active_chs = [],
     el_pending_functors = [], el_chans = Map.empty, el_eventfd = 0, el_log = []\<rparr>"

definition loop_sys_example :: "nat loop_sys" where
  "loop_sys_example = \<lparr>sy_loop = eloop_example, sy_pc = L_Idle, sy_wakers = 0, sy_queued = [], sy_run = []\<rparr>"

lemma loop_sys_example_init [simp]: "loop_init loop_sys_example"
  by (simp add: loop_init_def loop_sys_example_def eloop_example_def)

text \<open>The loop waits in \<^verbatim>\<open>epoll_wait\<close> while a client has queued functor 42 and woken it up.\<close>

definition loop_sys_waiting :: "nat loop_sys" where
  "loop_sys_waiting = loop_sys_example\<lparr>
     sy_loop := eloop_wakeup eventfd_manual (eloop_push 42 (eloop_loop_begin [] eloop_example)),
     sy_pc := L_Poll, sy_queued := [42]\<rparr>"

lemma loop_sys_waiting_reach [simp]: "reach loop_init (loop_step eventfd_manual []) loop_sys_waiting"
proof -
  let ?s = loop_sys_example
  let ?l = "eloop_loop_begin [] eloop_example"
  let ?a = "?s\<lparr>sy_loop := ?l, sy_pc := L_Check\<rparr>"
  let ?b = "?a\<lparr>sy_pc := L_Poll\<rparr>"
  let ?c = "?b\<lparr>sy_loop := eloop_push 42 (sy_loop ?b), sy_wakers := sy_wakers ?b + 1,
               sy_queued := sy_queued ?b @ [42]\<rparr>"
  let ?d = "?c\<lparr>sy_loop := eloop_wakeup eventfd_manual (sy_loop ?c), sy_wakers := sy_wakers ?c - 1\<rparr>"
  have "reach loop_init (loop_step eventfd_manual []) ?s" by (rule reach_init) simp
  moreover have "loop_step eventfd_manual [] ?s ?a"
    using loop_step.start [of ?s eventfd_manual "[]"] by (simp add: loop_sys_example_def)
  moreover have "loop_step eventfd_manual [] ?a ?b"
    by (rule loop_step.check_go) (simp_all add: eloop_loop_begin_def)
  moreover have "loop_step eventfd_manual [] ?b ?c" by (rule loop_step.client_push)
  moreover have "loop_step eventfd_manual [] ?c ?d" by (rule loop_step.client_wakeup) simp
  ultimately have "reach loop_init (loop_step eventfd_manual []) ?d" by (meson reach_step)
  moreover have "?d = loop_sys_waiting" by (simp add: loop_sys_waiting_def loop_sys_example_def)
  ultimately show ?thesis by simp
qed

text \<open>
  C15.  Functors handed to a loop, by other threads or by its own handlers and functors, are run
  exactly once and in the order they were queued: at every moment the functors queued so far are
  those already run, then those of the batch being run, then those still pending.
\<close>

theorem loop_functors_fifo:
  assumes "eventfd_documented E" and "reach loop_init (loop_step E this) s"
  shows "sy_queued s = sy_run s @ in_flight (sy_pc s) @ el_pending_functors (sy_loop s)"
  using elm.invar_reach [OF assms(2)] assms(1) by (simp add: loop_inv_def)

theorem loop_functors_fifo_witness:
  "sy_queued loop_sys_waiting = sy_run loop_sys_waiting @ in_flight (sy_pc loop_sys_waiting) @
     el_pending_functors (sy_loop loop_sys_waiting)"
  by (rule loop_functors_fifo [OF eventfd_manual_documented loop_sys_waiting_reach])

text \<open>
  C6.  No wake-up is lost: when the loop waits in \<^verbatim>\<open>epoll_wait\<close>, every client call has returned and
  there is a functor pending or \<^verbatim>\<open>quit\<close> was called, the eventfd is readable; and from there the loop
  thread runs, without any further event, everything that was queued, and returns from \<^verbatim>\<open>loop()\<close> if
  \<^verbatim>\<open>quit\<close> was called.
\<close>

theorem loop_no_lost_wakeup:
  assumes "eventfd_documented E" and "reach loop_init (loop_step E this) s"
    and "sy_pc s = L_Poll" and "sy_wakers s = 0"
    and "el_pending_functors (sy_loop s) \<noteq> [] \<or> el_quit (sy_loop s)"
  shows "0 < el_eventfd (sy_loop s) \<and>
    (\<exists>t. (loop_step E this)\<^sup>*\<^sup>* s t \<and> sy_run t = sy_queued s \<and> el_pending_functors (sy_loop t) = [] \<and>
       sy_pc t = (if el_quit (sy_loop s) then L_Stopped else L_Check))"
  using assms by (rule loop_wakeup_drains)

theorem loop_no_lost_wakeup_witness:
  "0 < el_eventfd (sy_loop loop_sys_waiting) \<and>
    (\<exists>t. (loop_step eventfd_manual [])\<^sup>*\<^sup>* loop_sys_waiting t \<and> sy_run t = [42] \<and>
       el_pending_functors (sy_loop t) = [] \<and> sy_pc t = L_Check)"
  using loop_no_lost_wakeup [OF eventfd_manual_documented loop_sys_waiting_reach]
  by (simp add: loop_sys_waiting_def loop_sys_example_def eloop_example_def eloop_loop_begin_def
      eloop_push_def)

text \<open>
  C37.  Construction of an event loop: it aborts when the thread already has a loop or the kernel
  gives no epoll or eventfd descriptor; with \<^verbatim>\<open>CAI_USE_POLL\<close> set it goes on to use a null poller; and
  otherwise the loop starts with nothing pending and its wake-up channel, with \<^verbatim>\<open>handle_read\<close> as read
  callback, known to the poller and registered in the kernel for read events.
\<close>

theorem eloop_new_outcomes:
  assumes "epoll_documented K"
  shows "case eloop_new K cur has_loop use_poll epollfd evtfd this wptr of
     Inl e \<Rightarrow> if (\<not> use_poll \<and> epollfd < 0) \<or> evtfd < 0 \<or> has_loop then e = Aborted
              else use_poll \<and> e = Null_Deref
   | Inr l \<Rightarrow> \<not> use_poll \<and> 0 \<le> epollfd \<and> 0 \<le> evtfd \<and> \<not> has_loop \<and>
       el_pending_functors l = [] \<and> el_thread_id l = cur \<and> \<not> el_quit l \<and>
       (\<exists>p ch. el_poller l = Some p \<and> el_chans l = [wptr \<mapsto> ch] \<and> poller_has_chan p wptr ch \<and>
          ch_read_callback ch = Some Eloop_handle_read \<and>
          interest (ep_calls p) evtfd = Some (READ_EVENT, wptr) \<and> ep_log p = [])"
proof (cases "use_poll \<or> epollfd < 0 \<or> evtfd < 0 \<or> has_loop")
  case True
  then show ?thesis
    by (auto simp: eloop_new_def new_default_poller_def epoll_poller_new_def create_eventfd_def
        chan_set_mask_def eloop_update_chan_def eloop_poller_call_def Let_def split: sum.splits if_splits)
next
  case False
  define p where "p = \<lparr>ep_chs = Map.empty, ep_nevents = INIT_EVENT_LIST_SIZE, ep_calls = [], ep_log = []\<rparr>"
  define ch where "ch = chan_mask Enable_Reading ((chan_new evtfd)\<lparr>ch_read_callback := Some Eloop_handle_read\<rparr>)"
  have new: "ch_index ch = NEW" "ch_fd ch = evtfd" "ch_events ch = READ_EVENT"
    "ch_read_callback ch = Some Eloop_handle_read"
    by (simp_all add: ch_def chan_new_def NEW_def chan_mask_def)
  then have reg: "chan_registered p wptr ch"
    by (simp add: chan_registered_def p_def interest_def NEW_def ADDED_def)
  obtain ch' p' where up: "epoll_update_chan K p wptr ch = (ch', p')" by fastforce
  have cb: "ch_read_callback ch' = Some Eloop_handle_read"
    using up new by (auto simp: epoll_update_chan_def Let_def chan_set_index_def split: if_splits)
  have "poller_has_chan p' wptr ch'"
    using epc.has_first_update [of ch K p wptr] epc.has_same_fd [of ch ch' p' wptr]
      epc.update_fd [of K p wptr ch] up new by simp
  moreover have "interest (ep_calls p') evtfd = Some (READ_EVENT, wptr)" "ep_log p' = []"
    using update_chan_syncs [OF assms reg] up new by (simp_all add: chan_synced_def p_def)
  ultimately have "\<exists>ch. [wptr \<mapsto> ch'] = [wptr \<mapsto> ch] \<and> poller_has_chan p' wptr ch \<and>
      ch_read_callback ch = Some Eloop_handle_read" "interest (ep_calls p') evtfd = Some (READ_EVENT, wptr)"
    "ep_log p' = []" using cb by blast+
  then show ?thesis using False up
    by (simp add: eloop_new_def new_default_poller_def epoll_poller_new_def create_eventfd_def
        chan_set_mask_def eloop_update_chan_def eloop_poller_call_def Let_def p_def [symmetric]
        ch_def [symmetric])
qed

theorem eloop_new_outcomes_witness:
  "case (eloop_new ctl_manual 7 False False 3 4 ''0x1'' 0 :: nat eloop result) of
     Inl e \<Rightarrow> False
   | Inr l \<Rightarrow> el_pending_functors l = [] \<and> el_thread_id l = 7"
  using eloop_new_outcomes [OF ctl_manual_documented, where cur = 7 and has_loop = False and
      use_poll = False and epollfd = 3 and evtfd = 4 and this = "''0x1''" and wptr = 0 and 'a = nat]
  by (auto split: sum.splits)

end
