(* ===== verification/ELoopThread.thy ===== *)
theory ELoopThread
  imports ELoop
begin

text \<open>
  A thread with an event loop: \<^verbatim>\<open>include/net/eloop_thread.h\<close> and \<^verbatim>\<open>src/net/eloop_thread.cpp\<close>.  The owner
  calls \<^verbatim>\<open>start_loop\<close> and later the destructor; the new thread runs \<^verbatim>\<open>thread_func\<close>.  The two are steps of
  one machine, whose inner part is the machine of the loop itself.
\<close>

section \<open>Model\<close>

record eloop_thread =
  et_loop :: bool               \<comment> \<open>\<^verbatim>\<open>loop_\<close> is not null\<close>
  et_exiting :: bool
  et_thread :: thread
  et_init_callback :: bool      \<comment> \<open>an init callback was given\<close>

text \<open>Construction; \<open>func\<close> identifies the bound \<^verbatim>\<open>thread_func\<close> and \<open>tcount\<close> is the counter of thread names.\<close>

definition eloop_thread_new :: "32 word \<Rightarrow> nat \<Rightarrow> bool \<Rightarrow> string \<Rightarrow> eloop_thread \<times> 32 word" where
  "eloop_thread_new tcount func init_callback name =
     (case thread_new tcount func name of (th, tcount') \<Rightarrow>
        (\<lparr>et_loop = False, et_exiting = False, et_thread = th, et_init_callback = init_callback\<rparr>, tcount'))"

text \<open>
  The owner: before \<^verbatim>\<open>start_loop\<close>, waiting for the condition, holding the returned pointer, in the
  destructor before \<^verbatim>\<open>quit_.store\<close>, before the wake-up, in \<^verbatim>\<open>join\<close>, and past the destructor.
\<close>

datatype owner_pc = M_New | M_Wait | M_Have | M_Quit | M_Wakeup | M_Join | M_Gone

text \<open>
  The new thread: not started, before the init callback, before publishing \<^verbatim>\<open>loop_\<close>, in
  \<^verbatim>\<open>loop.loop()\<close>, before clearing \<^verbatim>\<open>loop_\<close>, returned.
\<close>

datatype thread_pc = T_None | T_Init | T_Publish | T_Loop | T_Clear | T_Done

record 'f et_sys =
  es_obj :: eloop_thread
  es_owner :: owner_pc
  es_tpc :: thread_pc
  es_loop :: "'f loop_sys"      \<comment> \<open>the \<^verbatim>\<open>eloop\<close> on the new thread's stack\<close>
  es_inits :: nat               \<comment> \<open>calls of the init callback\<close>

text \<open>
  The loop's own steps are those of its machine in which nobody but the owner's destructor calls
  \<^verbatim>\<open>quit\<close>.
\<close>

inductive et_step :: "eventfd \<Rightarrow> string \<Rightarrow> 'f et_sys \<Rightarrow> 'f et_sys \<Rightarrow> bool"
  for E :: eventfd and this :: string where
  start_thread: "\<lbrakk>es_owner s = M_New; thread_start True (et_thread (es_obj s)) = Inr th; loop_init l\<rbrakk> \<Longrightarrow>
     et_step E this s (s\<lparr>es_obj := (es_obj s)\<lparr>et_thread := th\<rparr>, es_owner := M_Wait, es_tpc := T_Init, es_loop := l\<rparr>)"
| got_loop: "\<lbrakk>es_owner s = M_Wait; et_loop (es_obj s)\<rbrakk> \<Longrightarrow> et_step E this s (s\<lparr>es_owner := M_Have\<rparr>)"
| init_callback: "es_tpc s = T_Init \<Longrightarrow>
     et_step E this s (s\<lparr>es_inits := es_inits s + (if et_init_callback (es_obj s) then 1 else 0), es_tpc := T_Publish\<rparr>)"
| publish: "es_tpc s = T_Publish \<Longrightarrow>
     et_step E this s (s\<lparr>es_obj := (es_obj s)\<lparr>et_loop := True\<rparr>, es_tpc := T_Loop\<rparr>)"
| in_loop: "\<lbrakk>es_tpc s = T_Loop; loop_step E this (es_loop s) l;
     el_quit (sy_loop l) \<longrightarrow> el_quit (sy_loop (es_loop s))\<rbrakk> \<Longrightarrow>
     et_step E this s (s\<lparr>es_loop := l\<rparr>)"
| loop_returns: "\<lbrakk>es_tpc s = T_Loop; sy_pc (es_loop s) = L_Stopped\<rbrakk> \<Longrightarrow> et_step E this s (s\<lparr>es_tpc := T_Clear\<rparr>)"
| clear: "es_tpc s = T_Clear \<Longrightarrow>
     et_step E this s (s\<lparr>es_obj := (es_obj s)\<lparr>et_loop := False\<rparr>, es_tpc := T_Done\<rparr>)"
| destroy_no_loop: "\<lbrakk>es_owner s = M_New \<or> es_owner s = M_Have; \<not> et_loop (es_obj s)\<rbrakk> \<Longrightarrow>
     et_step E this s (s\<lparr>es_obj := (es_obj s)\<lparr>et_exiting := True\<rparr>, es_owner := M_Gone\<rparr>)"
| destroy: "\<lbrakk>es_owner s = M_Have; et_loop (es_obj s)\<rbrakk> \<Longrightarrow>
     et_step E this s (s\<lparr>es_obj := (es_obj s)\<lparr>et_exiting := True\<rparr>, es_owner := M_Quit\<rparr>)"
| quit: "es_owner s = M_Quit \<Longrightarrow>
     et_step E this s (s\<lparr>es_loop := (es_loop s)\<lparr>sy_loop := eloop_set_quit (sy_loop (es_loop s)),
                          sy_wakers := sy_wakers (es_loop s) + 1\<rparr>, es_owner := M_Wakeup\<rparr>)"
| wakeup: "\<lbrakk>es_owner s = M_Wakeup; 0 < sy_wakers (es_loop s)\<rbrakk> \<Longrightarrow>
     et_step E this s (s\<lparr>es_loop := (es_loop s)\<lparr>sy_loop := eloop_wakeup E (sy_loop (es_loop s)),
                          sy_wakers := sy_wakers (es_loop s) - 1\<rparr>, es_owner := M_Join\<rparr>)"
| join: "\<lbrakk>es_owner s = M_Join; es_tpc s = T_Done; thread_join (et_thread (es_obj s)) = Inr th\<rbrakk> \<Longrightarrow>
     et_step E this s (s\<lparr>es_obj := (es_obj s)\<lparr>et_thread := th\<rparr>, es_owner := M_Gone\<rparr>)"

inductive_cases et_stepE: "et_step E this s t"

definition et_init :: "'f et_sys \<Rightarrow> bool" where
  "et_init s \<longleftrightarrow> es_owner s = M_New \<and> es_tpc s = T_None \<and> es_inits s = 0 \<and>
     (\<exists>tcount func init_callback name. es_obj s = fst (eloop_thread_new tcount func init_callback name))"

section \<open>Invariant\<close>

text \<open>
  The owner holds the pointer only after the new thread ran the init callback and published it; the
  pointer is set while the loop runs; the thread is joinable until joined; and once the thread runs,
  its loop is in a state its own machine can reach.
\<close>

definition et_inv :: "eventfd \<Rightarrow> string \<Rightarrow> 'f et_sys \<Rightarrow> bool" where
  "et_inv E this s \<longleftrightarrow>
     thread_inv (et_thread (es_obj s)) \<and>
     (es_tpc s = T_None \<longleftrightarrow> \<not> th_started (et_thread (es_obj s))) \<and>
     (es_owner s = M_New \<longrightarrow> es_tpc s = T_None) \<and>
     (es_owner s \<noteq> M_Gone \<longrightarrow> \<not> th_joined (et_thread (es_obj s))) \<and>
     (et_loop (es_obj s) \<longleftrightarrow> es_tpc s \<in> {T_Loop, T_Clear}) \<and>
     (es_owner s \<in> {M_Have, M_Quit, M_Wakeup, M_Join} \<longrightarrow> es_tpc s \<in> {T_Loop, T_Clear, T_Done}) \<and>
     es_inits s = (if et_init_callback (es_obj s) \<and> es_tpc s \<notin> {T_None, T_Init} then 1 else 0) \<and>
     (es_tpc s \<noteq> T_None \<longrightarrow> reach loop_init (loop_step E this) (es_loop s))"

lemma et_inv_init: "et_init s \<Longrightarrow> et_inv E this s"
  by (auto simp: et_init_def et_inv_def eloop_thread_new_def thread_new_def thread_inv_def
      case_prod_beta)

lemma et_inv_start:
  assumes "et_inv E this s" "es_owner s = M_New" "thread_start True (et_thread (es_obj s)) = Inr th"
    and "loop_init l"
  shows "et_inv E this (s\<lparr>es_obj := (es_obj s)\<lparr>et_thread := th\<rparr>, es_owner := M_Wait, es_tpc := T_Init,
                          es_loop := l\<rparr>)"
proof -
  have "thread_inv (et_thread (es_obj s))" "\<not> th_started (et_thread (es_obj s))" "es_tpc s = T_None"
    "\<not> th_joined (et_thread (es_obj s))" "\<not> et_loop (es_obj s)" "es_inits s = 0"
    using assms(1,2) by (auto simp: et_inv_def)
  moreover from thread_start_fresh [OF this(1,2)] assms(3) have "thread_inv th" "th_started th" by auto
  moreover have "th_joined th = th_joined (et_thread (es_obj s))"
    using assms(3) by (auto simp: thread_start_def Let_def split: if_splits)
  moreover have "reach loop_init (loop_step E this) l" using assms(4) by (rule reach_init)
  ultimately show ?thesis by (simp add: et_inv_def)
qed

lemma et_inv_loop_step:
  assumes "et_inv E this s" "loop_step E this (es_loop s) l" "es_tpc s \<noteq> T_None"
  shows "et_inv E this (s\<lparr>es_loop := l\<rparr>)"
proof -
  have "reach loop_init (loop_step E this) (es_loop s)" using assms(1,3) by (simp add: et_inv_def)
  from this assms(2) have "reach loop_init (loop_step E this) l" by (rule reach_step)
  with assms(1,3) show ?thesis by (simp add: et_inv_def)
qed

lemma et_inv_step:
  assumes "et_step E this s t" "et_inv E this s"
  shows "et_inv E this t"
  using assms
proof (induction rule: et_step.induct)
  case (start_thread s th l)
  then show ?case by (intro et_inv_start)
next
  case (in_loop s l)
  then show ?case by (intro et_inv_loop_step) simp_all
next
  case (quit s)
  then have "es_tpc s \<noteq> T_None" by (auto simp: et_inv_def)
  then have "et_inv E this (s\<lparr>es_loop := (es_loop s)\<lparr>sy_loop := eloop_set_quit (sy_loop (es_loop s)),
      sy_wakers := sy_wakers (es_loop s) + 1\<rparr>\<rparr>)"
    by (rule et_inv_loop_step [OF quit(2) loop_step.client_quit])
  then show ?case using quit by (auto simp: et_inv_def)
next
  case (wakeup s)
  then have "es_tpc s \<noteq> T_None" by (auto simp: et_inv_def)
  then have "et_inv E this (s\<lparr>es_loop := (es_loop s)\<lparr>sy_loop := eloop_wakeup E (sy_loop (es_loop s)),
      sy_wakers := sy_wakers (es_loop s) - 1\<rparr>\<rparr>)"
    by (rule et_inv_loop_step [OF wakeup(3) loop_step.client_wakeup [OF wakeup(2)]])
  then show ?case using wakeup by (auto simp: et_inv_def)
next
  case (join s th)
  then have "thread_inv (et_thread (es_obj s))" "th_started (et_thread (es_obj s))"
    "\<not> th_joined (et_thread (es_obj s))" by (auto simp: et_inv_def)
  from thread_join_running [OF this] join(3) have "thread_inv th" "th_joined th" by auto
  then show ?case using join by (auto simp: et_inv_def thread_inv_def)
qed (auto simp: et_inv_def)

interpretation etm: inductive_invariant et_init "et_step E this" "et_inv E this" for E this
  by unfold_locales (blast intro: et_inv_init et_inv_step)+

section \<open>Stopping\<close>

text \<open>Once set while the loop runs, \<^verbatim>\<open>quit_\<close> stays set.\<close>

lemma quit_stays:
  "loop_step E this a b \<Longrightarrow> el_quit (sy_loop a) \<Longrightarrow> sy_pc a \<noteq> L_Idle \<Longrightarrow>
     el_quit (sy_loop b) \<and> sy_pc b \<noteq> L_Idle"
  by (induction rule: loop_step.induct)
    (auto simp: loop_op_defs eloop_quit_def eloop_queue_in_loop_def eloop_is_in_loop_thread_def Let_def)

lemma et_steps_loop:
  assumes "(loop_step E this)\<^sup>*\<^sup>* (es_loop s) l" "es_tpc s = T_Loop"
    and "el_quit (sy_loop (es_loop s))" "sy_pc (es_loop s) \<noteq> L_Idle"
  shows "(et_step E this)\<^sup>*\<^sup>* s (s\<lparr>es_loop := l\<rparr>) \<and> el_quit (sy_loop l) \<and> sy_pc l \<noteq> L_Idle"
  using assms(1)
proof (induction rule: rtranclp_induct)
  case base
  then show ?case using assms(3,4) by simp
next
  case (step a b)
  have "et_step E this (s\<lparr>es_loop := a\<rparr>) (s\<lparr>es_loop := a\<rparr>\<lparr>es_loop := b\<rparr>)"
    using step.hyps(2) step.IH assms(2) by (intro et_step.in_loop) simp_all
  then have "et_step E this (s\<lparr>es_loop := a\<rparr>) (s\<lparr>es_loop := b\<rparr>)" by simp
  with step quit_stays [of E this a b] show ?case by (meson rtranclp.rtrancl_into_rtrancl)
qed

text \<open>What remains after \<^verbatim>\<open>loop()\<close> returned: clear the pointer, return, be joined.\<close>

lemma et_stopped_joins:
  assumes "et_inv E this s" "es_owner s = M_Join" "es_tpc s = T_Loop" "sy_pc (es_loop s) = L_Stopped"
  shows "\<exists>t. (et_step E this)\<^sup>*\<^sup>* s t \<and> es_owner t = M_Gone \<and> th_joined (et_thread (es_obj t)) \<and>
           es_loop t = es_loop s"
proof -
  let ?a = "s\<lparr>es_tpc := T_Clear\<rparr>"
  let ?b = "?a\<lparr>es_obj := (es_obj ?a)\<lparr>et_loop := False\<rparr>, es_tpc := T_Done\<rparr>"
  have "thread_inv (et_thread (es_obj s))" "th_started (et_thread (es_obj s))"
    "\<not> th_joined (et_thread (es_obj s))" using assms(1-3) by (auto simp: et_inv_def)
  from thread_join_running [OF this] obtain th where
    th: "thread_join (et_thread (es_obj s)) = Inr th" "th_joined th" by blast
  let ?c = "?b\<lparr>es_obj := (es_obj ?b)\<lparr>et_thread := th\<rparr>, es_owner := M_Gone\<rparr>"
  have "et_step E this s ?a" using assms(3,4) by (rule et_step.loop_returns)
  moreover have "et_step E this ?a ?b" by (rule et_step.clear) simp
  moreover have "et_step E this ?b ?c" using assms(2) th(1) by (intro et_step.join) simp_all
  ultimately have "(et_step E this)\<^sup>*\<^sup>* s ?c"
    by (meson converse_rtranclp_into_rtranclp rtranclp.rtrancl_refl)
  then show ?thesis using th(2) by (intro exI [of _ ?c]) simp
qed

text \<open>The destructor's calls up to \<^verbatim>\<open>join\<close>, without the new thread moving.\<close>

definition destructor_calls :: "eventfd \<Rightarrow> 'f et_sys \<Rightarrow> 'f et_sys" where
  "destructor_calls E s = s\<lparr>es_obj := (es_obj s)\<lparr>et_exiting := True\<rparr>, es_owner := M_Join,
     es_loop := (es_loop s)\<lparr>sy_loop := eloop_wakeup E (eloop_set_quit (sy_loop (es_loop s)))\<rparr>\<rparr>"

lemma destructor_steps:
  assumes "es_owner s = M_Have" "et_loop (es_obj s)"
  shows "(et_step E this)\<^sup>*\<^sup>* s (destructor_calls E s)"
proof -
  define a where "a = s\<lparr>es_obj := (es_obj s)\<lparr>et_exiting := True\<rparr>, es_owner := M_Quit\<rparr>"
  define b where "b = a\<lparr>es_loop := (es_loop a)\<lparr>sy_loop := eloop_set_quit (sy_loop (es_loop a)),
    sy_wakers := sy_wakers (es_loop a) + 1\<rparr>, es_owner := M_Wakeup\<rparr>"
  define c where "c = b\<lparr>es_loop := (es_loop b)\<lparr>sy_loop := eloop_wakeup E (sy_loop (es_loop b)),
    sy_wakers := sy_wakers (es_loop b) - 1\<rparr>, es_owner := M_Join\<rparr>"
  have "et_step E this s a" using assms unfolding a_def by (rule et_step.destroy)
  moreover have "et_step E this a b" unfolding b_def by (rule et_step.quit) (simp add: a_def)
  moreover have "et_step E this b c" unfolding c_def by (rule et_step.wakeup) (simp_all add: b_def)
  ultimately have "(et_step E this)\<^sup>*\<^sup>* s c"
    by (meson converse_rtranclp_into_rtranclp rtranclp.rtrancl_refl)
  moreover have "c = destructor_calls E s"
    by (cases s; cases "es_loop s") (simp add: a_def b_def c_def destructor_calls_def)
  ultimately show ?thesis by simp
qed

lemma reach_steps: "step\<^sup>*\<^sup>* s t \<Longrightarrow> reach init step s \<Longrightarrow> reach init step t"
  by (induction rule: rtranclp_induct) (auto intro: reach_step)

lemma destructor_joins_looping:
  assumes "eventfd_documented E" "reach et_init (et_step E this) s"
    and "es_owner s = M_Have" "sy_pc (es_loop s) = L_Poll" "es_tpc s = T_Loop" "sy_wakers (es_loop s) = 0"
  shows "\<exists>t. (et_step E this)\<^sup>*\<^sup>* s t \<and> es_owner t = M_Gone \<and> th_joined (et_thread (es_obj t)) \<and>
           sy_run (es_loop t) = sy_queued (es_loop s)"
proof -
  let ?c = "destructor_calls E s"
  have inv: "et_inv E this s" using assms(2) by (rule etm.invar_reach)
  then have "et_loop (es_obj s)" using assms(5) by (simp add: et_inv_def)
  then have sc: "(et_step E this)\<^sup>*\<^sup>* s ?c" using assms(3) by (intro destructor_steps)
  have invc: "et_inv E this ?c" using sc inv by (rule etm.invar_steps)
  have c: "es_owner ?c = M_Join" "es_tpc ?c = T_Loop" "sy_pc (es_loop ?c) = L_Poll"
    "sy_wakers (es_loop ?c) = 0" "el_quit (sy_loop (es_loop ?c))"
    "sy_queued (es_loop ?c) = sy_queued (es_loop s)"
    using assms(4-6) by (simp_all add: destructor_calls_def eloop_set_quit_def)
  have "reach loop_init (loop_step E this) (es_loop ?c)" using invc c(2) by (simp add: et_inv_def)
  from loop_wakeup_drains [OF assms(1) this c(3,4)] c(5,6) obtain l where
    l: "(loop_step E this)\<^sup>*\<^sup>* (es_loop ?c) l" "sy_run l = sy_queued (es_loop s)" "sy_pc l = L_Stopped"
    by auto
  let ?d = "?c\<lparr>es_loop := l\<rparr>"
  have cd: "(et_step E this)\<^sup>*\<^sup>* ?c ?d" using et_steps_loop [OF l(1) c(2,5)] c(3) by simp
  then have "et_inv E this ?d" using invc by (rule etm.invar_steps)
  then obtain t where "(et_step E this)\<^sup>*\<^sup>* ?d t" "es_owner t = M_Gone"
    "th_joined (et_thread (es_obj t))" "es_loop t = l"
    using et_stopped_joins [of E this ?d] c l(3) by auto
  with sc cd l(2) show ?thesis by (intro exI [of _ t]) auto
qed

section \<open>The lost quit\<close>

text \<open>No continuation takes the owner out of \<^verbatim>\<open>join\<close>.\<close>

definition join_stuck :: "eventfd \<Rightarrow> string \<Rightarrow> 'f et_sys \<Rightarrow> bool" where
  "join_stuck E this s \<longleftrightarrow> (\<forall>t. (et_step E this)\<^sup>*\<^sup>* s t \<longrightarrow> es_owner t = M_Join)"

definition stuck_inv :: "'f et_sys \<Rightarrow> bool" where
  "stuck_inv s \<longleftrightarrow> es_owner s = M_Join \<and> es_tpc s = T_Loop \<and> \<not> el_quit (sy_loop (es_loop s)) \<and>
     sy_pc (es_loop s) \<noteq> L_Stopped"

lemma not_stopped_without_quit:
  "loop_step E this a b \<Longrightarrow> \<not> el_quit (sy_loop a) \<Longrightarrow> sy_pc a \<noteq> L_Stopped \<Longrightarrow> sy_pc b \<noteq> L_Stopped"
  by (induction rule: loop_step.induct) auto

lemma stuck_inv_step: "et_step E this s t \<Longrightarrow> stuck_inv s \<Longrightarrow> stuck_inv t"
  by (induction rule: et_step.induct) (auto simp: stuck_inv_def dest: not_stopped_without_quit)

lemma stuck_inv_join_stuck: "stuck_inv s \<Longrightarrow> join_stuck E this s"
proof -
  assume s: "stuck_inv s"
  have "(et_step E this)\<^sup>*\<^sup>* s t \<Longrightarrow> stuck_inv t" for t
    by (induction rule: rtranclp_induct) (auto simp: s intro: stuck_inv_step)
  then show ?thesis by (auto simp: join_stuck_def stuck_inv_def)
qed

text \<open>A started thread whose owner holds the pointer while the thread is still before \<^verbatim>\<open>loop()\<close>.\<close>

lemma owner_has_loop_before_looping:
  fixes s :: "'f et_sys" and l :: "'f loop_sys"
  assumes "et_init s" "loop_init l"
  shows "\<exists>t :: 'f et_sys. reach et_init (et_step E this) t \<and> es_owner t = M_Have \<and> es_tpc t = T_Loop \<and> es_loop t = l"
proof -
  obtain th where th: "thread_start True (et_thread (es_obj s)) = Inr th"
    using thread_start_fresh [of "et_thread (es_obj s)"] et_inv_init [OF assms(1), of E this] assms(1)
    by (auto simp: et_inv_def et_init_def)
  define a where "a = s\<lparr>es_obj := (es_obj s)\<lparr>et_thread := th\<rparr>, es_owner := M_Wait, es_tpc := T_Init, es_loop := l\<rparr>"
  define b where "b = a\<lparr>es_inits := es_inits a + (if et_init_callback (es_obj a) then 1 else 0), es_tpc := T_Publish\<rparr>"
  define c where "c = b\<lparr>es_obj := (es_obj b)\<lparr>et_loop := True\<rparr>, es_tpc := T_Loop\<rparr>"
  have "reach et_init (et_step E this) s" using assms(1) by (rule reach_init)
  moreover have "et_step E this s a"
    unfolding a_def using assms th by (intro et_step.start_thread) (simp_all add: et_init_def)
  moreover have "et_step E this a b" unfolding b_def by (rule et_step.init_callback) (simp add: a_def)
  moreover have "et_step E this b c" unfolding c_def by (rule et_step.publish) (simp add: b_def)
  moreover have "et_step E this c (c\<lparr>es_owner := M_Have\<rparr>)"
    by (rule et_step.got_loop) (simp_all add: a_def b_def c_def)
  ultimately have "reach et_init (et_step E this) (c\<lparr>es_owner := M_Have\<rparr>)" by (meson reach_step)
  then show ?thesis by (intro exI [of _ "c\<lparr>es_owner := M_Have\<rparr>"]) (simp add: a_def b_def c_def)
qed

definition et_example :: "nat et_sys" where
  "et_example = \<lparr>es_obj = fst (eloop_thread_new 0 1 True ''io0''), es_owner = M_New, es_tpc = T_None,
     es_loop = loop_sys_example, es_inits = 0\<rparr>"

lemma et_example_init [simp]: "et_init et_example"
  by (auto simp: et_init_def et_example_def)

section \<open>Properties\<close>





text \<open>
  C38.  The destructor can also hang: if the owner destroys the object after \<^verbatim>\<open>start_loop\<close> returned but
  before the new thread entered \<^verbatim>\<open>loop()\<close>, the loop clears the flag and, unless somebody else calls
  \<^verbatim>\<open>quit()\<close>, no further step lets \<^verbatim>\<open>join\<close> return.
\<close>

theorem eloop_thread_destructor_hangs:
  "\<exists>s :: 'f et_sys. reach et_init (et_step E this) s \<and> et_exiting (es_obj s) \<and> es_owner s = M_Join \<and>
     join_stuck E this s"
proof -
  define l :: "'f loop_sys" where "l = \<lparr>sy_loop = \<lparr>el_looping = False, el_quit = False,
    el_calling_pending_functors = False, el_thread_id = 7, el_poller = None, el_wakeup_fd = 4,
    el_wakeup_ch = 0, el_active_chs = [], el_pending_functors = [], el_chans = Map.empty,
    el_eventfd = 0, el_log = []\<rparr>, sy_pc = L_Idle, sy_wakers = 0, sy_queued = [], sy_run = []\<rparr>"
  define s :: "'f et_sys" where "s = \<lparr>es_obj = fst (eloop_thread_new 0 1 True []), es_owner = M_New,
    es_tpc = T_None, es_loop = l, es_inits = 0\<rparr>"
  have "et_init s" "loop_init l" by (auto simp: et_init_def s_def loop_init_def l_def)
  from owner_has_loop_before_looping [OF this, of E this] obtain a where a: "reach et_init (et_step E this) a"
    "es_owner a = M_Have" "es_tpc a = T_Loop" "es_loop a = l" by blast
  have "et_loop (es_obj a)" using etm.invar_reach [OF a(1)] a(3) by (simp add: et_inv_def)
  with a(2) have "(et_step E this)\<^sup>*\<^sup>* a (destructor_calls E a)" by (rule destructor_steps)
  from reach_steps [OF this a(1)] have b: "reach et_init (et_step E this) (destructor_calls E a)" .
  let ?b = "destructor_calls E a"
  let ?m = "(es_loop ?b)\<lparr>sy_loop := eloop_loop_begin this (sy_loop (es_loop ?b)), sy_pc := L_Check\<rparr>"
  have "loop_step E this (es_loop ?b) ?m"
    by (rule loop_step.start) (simp add: destructor_calls_def a l_def)
  then have "et_step E this ?b (?b\<lparr>es_loop := ?m\<rparr>)"
    by (intro et_step.in_loop) (simp_all add: destructor_calls_def a eloop_loop_begin_def)
  with b have "reach et_init (et_step E this) (?b\<lparr>es_loop := ?m\<rparr>)" by (rule reach_step)
  moreover have "stuck_inv (?b\<lparr>es_loop := ?m\<rparr>)"
    by (simp add: stuck_inv_def destructor_calls_def a eloop_loop_begin_def)
  ultimately show ?thesis
    using stuck_inv_join_stuck by (intro exI [of _ "?b\<lparr>es_loop := ?m\<rparr>"])
      (simp add: destructor_calls_def)
qed

end
