(* ===== verification/ELoopPool.thy ===== *)
theory ELoopPool
  imports ELoopThread
begin

text \<open>
  The pool of loop threads: \<^verbatim>\<open>include/net/eloop_tpool.h\<close> and \<^verbatim>\<open>src/net/eloop_tpool.cpp\<close>.  Loops are known by
  their addresses, natural numbers here; the address of the loop that thread \<open>i\<close> publishes is an
  argument of \<^verbatim>\<open>start\<close>.
\<close>

section \<open>Model\<close>

type_synonym loop_ptr = nat

record eloop_tpool =
  lp_base_loop :: loop_ptr
  lp_name :: string
  lp_started :: bool
  lp_num_threads :: int
  lp_next_idx :: nat
  lp_threads :: "eloop_thread list"
  lp_loops :: "loop_ptr list"
  lp_base_inits :: "loop_ptr list"      \<comment> \<open>calls of the callback by \<^verbatim>\<open>start\<close> itself\<close>

definition eloop_tpool_new :: "loop_ptr \<Rightarrow> string \<Rightarrow> eloop_tpool" where
  "eloop_tpool_new base_loop name =
     \<lparr>lp_base_loop = base_loop, lp_name = name, lp_started = False, lp_num_threads = 0, lp_next_idx = 0,
      lp_threads = [], lp_loops = [], lp_base_inits = []\<rparr>"

definition eloop_tpool_set_thread_num :: "eloop_tpool \<Rightarrow> int \<Rightarrow> eloop_tpool" where
  "eloop_tpool_set_thread_num p num = p\<lparr>lp_num_threads := num\<rparr>"

text \<open>
  One round of the loop in \<^verbatim>\<open>start\<close>: the name is printed into an array of \<^verbatim>\<open>name_.size() + 32\<close> bytes,
  the thread is created and started, and \<^verbatim>\<open>start_loop\<close> returns the published loop.
\<close>

definition eloop_tpool_spawn :: "bool \<Rightarrow> (nat \<Rightarrow> loop_ptr) \<Rightarrow> eloop_tpool \<Rightarrow> nat \<Rightarrow> eloop_tpool result" where
  "eloop_tpool_spawn cb new_loop p i =
     (let b = snprintf_buf (length (lp_name p) + 32) (c_str (lp_name p) @ dec_nat i);
          et = fst (eloop_thread_new 0 i cb b) in
      bind_res (thread_start True (et_thread et)) (\<lambda>th.
      Inr (p\<lparr>lp_threads := lp_threads p @ [et\<lparr>et_thread := th, et_loop := True\<rparr>],
             lp_loops := lp_loops p @ [new_loop i]\<rparr>)))"

definition eloop_tpool_start :: "bool \<Rightarrow> (nat \<Rightarrow> loop_ptr) \<Rightarrow> eloop_tpool \<Rightarrow> eloop_tpool result" where
  "eloop_tpool_start cb new_loop p =
     (let p1 = p\<lparr>lp_started := True\<rparr> in
      bind_res (fold_res (eloop_tpool_spawn cb new_loop) p1 [0..<nat (lp_num_threads p1)]) (\<lambda>p2.
      Inr (if lp_num_threads p2 = 0 \<and> cb
           then p2\<lparr>lp_base_inits := lp_base_inits p2 @ [lp_base_loop p2]\<rparr> else p2)))"

text \<open>Indexing a vector out of range is undefined.\<close>

definition get_next_loop :: "eloop_tpool \<Rightarrow> (loop_ptr \<times> eloop_tpool) result" where
  "get_next_loop p =
     (if lp_loops p \<noteq> [] then
        (if lp_next_idx p < length (lp_loops p) then
           Inr (lp_loops p ! lp_next_idx p,
                p\<lparr>lp_next_idx := (lp_next_idx p + 1) mod length (lp_loops p)\<rparr>)
         else Inl Out_Of_Bounds)
      else Inr (lp_base_loop p, p))"

definition get_all_loops :: "eloop_tpool \<Rightarrow> loop_ptr list" where
  "get_all_loops p = (if lp_loops p = [] then [lp_base_loop p] else lp_loops p)"

section \<open>Choosing a loop\<close>

text \<open>The loops that \<open>k\<close> requests return, in order, and the pool afterwards.\<close>

primrec take_next :: "('p \<Rightarrow> ('l \<times> 'p) result) \<Rightarrow> nat \<Rightarrow> 'p \<Rightarrow> ('l list \<times> 'p) result" where
  "take_next f 0 p = Inr ([], p)"
| "take_next f (Suc k) p =
     bind_res (f p) (\<lambda>(l, p'). bind_res (take_next f k p') (\<lambda>(ls, p''). Inr (l # ls, p'')))"

text \<open>
  What the server relies on: asking for a loop never fails, gives one of the pool's loops and leaves
  the set of loops alone.
\<close>

locale loop_chooser =
  fixes valid :: "'p \<Rightarrow> bool" and next_loop :: "'p \<Rightarrow> ('l \<times> 'p) result" and all_loops :: "'p \<Rightarrow> 'l list"
  assumes next_ok: "valid p \<Longrightarrow> \<exists>l p'. next_loop p = Inr (l, p') \<and> valid p' \<and> l \<in> set (all_loops p) \<and>
                                all_loops p' = all_loops p"
begin

lemma take_next_ok:
  "valid p \<Longrightarrow> \<exists>ls p'. take_next next_loop k p = Inr (ls, p') \<and> valid p' \<and> length ls = k \<and>
     set ls \<subseteq> set (all_loops p) \<and> all_loops p' = all_loops p"
proof (induction k arbitrary: p)
  case (Suc k)
  from next_ok [OF Suc.prems] obtain l p1 where
    l: "next_loop p = Inr (l, p1)" "valid p1" "l \<in> set (all_loops p)" "all_loops p1 = all_loops p" by blast
  from Suc.IH [OF l(2)] obtain ls p2 where
    "take_next next_loop k p1 = Inr (ls, p2)" "valid p2" "length ls = k" "set ls \<subseteq> set (all_loops p1)"
    "all_loops p2 = all_loops p1" by blast
  with l show ?case by simp
qed simp

end

definition pool_valid :: "eloop_tpool \<Rightarrow> bool" where
  "pool_valid p \<longleftrightarrow> lp_next_idx p = 0 \<or> lp_next_idx p < length (lp_loops p)"

lemma get_next_loop_ok:
  assumes "pool_valid p"
  shows "\<exists>l p'. get_next_loop p = Inr (l, p') \<and> pool_valid p' \<and> l \<in> set (get_all_loops p) \<and>
           get_all_loops p' = get_all_loops p"
  using assms by (cases "lp_loops p = []") (auto simp: get_next_loop_def get_all_loops_def pool_valid_def)

interpretation lpc: loop_chooser pool_valid get_next_loop get_all_loops
  by unfold_locales (rule get_next_loop_ok)

section \<open>Round robin\<close>

lemma next_loops_round_robin:
  assumes "lp_loops p \<noteq> []" "lp_next_idx p < length (lp_loops p)"
  shows "take_next get_next_loop k p =
     Inr (map (\<lambda>j. lp_loops p ! ((lp_next_idx p + j) mod length (lp_loops p))) [0..<k],
          p\<lparr>lp_next_idx := (lp_next_idx p + k) mod length (lp_loops p)\<rparr>)"
  using assms
proof (induction k arbitrary: p)
  case (Suc k)
  let ?n = "length (lp_loops p)"
  let ?p = "p\<lparr>lp_next_idx := (lp_next_idx p + 1) mod ?n\<rparr>"
  have next1: "get_next_loop p = Inr (lp_loops p ! lp_next_idx p, ?p)"
    using Suc.prems by (simp add: get_next_loop_def)
  have "(lp_next_idx p + 1) mod ?n < length (lp_loops ?p)" using Suc.prems(1) by simp
  then have ih: "take_next get_next_loop k ?p = Inr (map (\<lambda>j. lp_loops p ! (((lp_next_idx p + 1) mod ?n + j) mod ?n)) [0..<k],
      ?p\<lparr>lp_next_idx := ((lp_next_idx p + 1) mod ?n + k) mod ?n\<rparr>)"
    using Suc.IH [of ?p] Suc.prems(1) by simp
  have shift: "(Suc (lp_next_idx p) mod ?n + j) mod ?n = Suc (lp_next_idx p + j) mod ?n" for j
    using mod_add_left_eq [of "Suc (lp_next_idx p)" ?n j] by simp
  have "[0..<Suc k] = 0 # map Suc [0..<k]" by (simp add: upt_conv_Cons map_Suc_upt)
  then show ?case using next1 ih Suc.prems(2) by (simp add: shift comp_def)
qed simp

lemma round_robin_window:
  assumes "i < length ls"
  shows "map (\<lambda>j. ls ! ((i + j) mod length ls)) [0..<length ls] = rotate i ls"
proof -
  have "ls \<noteq> []" using assms by (cases ls) simp_all
  then show ?thesis by (intro nth_equalityI) (simp_all add: nth_rotate add.commute)
qed

lemma round_robin_split:
  assumes "0 < n"
  shows "map (\<lambda>j. f ((i + j) mod n)) [0..<n + m] =
           map (\<lambda>j. f ((i + j) mod n)) [0..<n] @ map (\<lambda>j. f ((i + j) mod n)) [0..<m]"
proof -
  have "[0..<n + m] = [0..<n] @ map (\<lambda>j. n + j) [0..<m]"
    by (rule nth_equalityI) (auto simp: nth_append)
  moreover have "(i + (n + j)) mod n = (i + j) mod n" for j
    by (metis add.left_commute mod_add_self1)
  ultimately show ?thesis by (simp add: comp_def)
qed

lemma count_list_distinct: "distinct xs \<Longrightarrow> count_list xs x = (if x \<in> set xs then 1 else 0)"
  by (induction xs) auto

text \<open>In every prefix the loops differ by at most one in how often they were chosen.\<close>

lemma round_robin_balanced:
  assumes "distinct ls" "x \<in> set ls" "i < length ls"
  shows "count_list (map (\<lambda>j. ls ! ((i + j) mod length ls)) [0..<m]) x \<in> {m div length ls, m div length ls + 1}"
proof (induction m rule: less_induct)
  case (less m)
  let ?n = "length ls"
  let ?f = "\<lambda>m. map (\<lambda>j. ls ! ((i + j) mod ?n)) [0..<m]"
  have n: "0 < ?n" using assms(3) by (cases ls) simp_all
  have window: "?f ?n = rotate i ls" using assms(3) by (rule round_robin_window)
  show ?case
  proof (cases "m < ?n")
    case True
    have "?f m = take m (?f ?n)" using True by (simp add: take_map)
    then have "distinct (?f m)" using window assms(1) by simp
    then show ?thesis using True by (simp add: count_list_distinct)
  next
    case False
    then obtain k where m: "m = ?n + k" using le_Suc_ex not_less by blast
    have "?f m = ?f ?n @ ?f k" unfolding m using n by (rule round_robin_split)
    moreover have "count_list (rotate i ls) x = 1" using assms(1,2) by (simp add: count_list_distinct)
    ultimately have "count_list (?f m) x = 1 + count_list (?f k) x" using window by simp
    moreover have "m div ?n = 1 + k div ?n" using m n div_add_self1 [of ?n k] by simp
    moreover have "k < m" using m n by simp
    ultimately show ?thesis using less.IH [of k] by auto
  qed
qed

section \<open>Starting the pool\<close>

definition pool_thread :: "bool \<Rightarrow> string \<Rightarrow> nat \<Rightarrow> eloop_thread \<Rightarrow> bool" where
  "pool_thread cb name i et \<longleftrightarrow> et_loop et \<and> et_init_callback et = cb \<and> \<not> et_exiting et \<and>
     thread_inv (et_thread et) \<and> th_started (et_thread et) \<and> \<not> th_joined (et_thread et) \<and>
     th_name (et_thread et) = name @ dec_nat i"

lemma eloop_tpool_spawn_ok:
  assumes "NUL \<notin> set (lp_name p)" "i < 10 ^ 10"
  shows "\<exists>et. eloop_tpool_spawn cb new_loop p i =
           Inr (p\<lparr>lp_threads := lp_threads p @ [et], lp_loops := lp_loops p @ [new_loop i]\<rparr>) \<and>
           pool_thread cb (lp_name p) i et"
proof -
  have "length (dec_nat i) \<le> 10" using assms(2) by (intro length_dec_nat) simp_all
  then have "length (lp_name p @ dec_nat i) < length (lp_name p) + 32" by simp
  from snprintf_buf_fits [OF this] have
    "snprintf_buf (length (lp_name p) + 32) (c_str (lp_name p) @ dec_nat i) = lp_name p @ dec_nat i"
    using assms(1) by simp
  then show ?thesis
    by (intro exI [of _ "\<lparr>et_loop = True, et_exiting = False, et_thread = \<lparr>th_started = True,
          th_joined = False, th_thread = Some True, th_tid = 0, th_func = i,
          th_name = lp_name p @ dec_nat i, th_running = [i]\<rparr>, et_init_callback = cb\<rparr>"])
      (simp add: eloop_tpool_spawn_def eloop_thread_new_def thread_new_def thread_set_default_def
        thread_start_def thread_get_tid_def pool_thread_def thread_inv_def Let_def)
qed

lemma eloop_tpool_spawn_all:
  assumes "NUL \<notin> set (lp_name p)" "n \<le> 10 ^ 10" "lp_threads p = []" "lp_loops p = []"
  shows "\<exists>ets. fold_res (eloop_tpool_spawn cb new_loop) p [0..<n] =
           Inr (p\<lparr>lp_threads := ets, lp_loops := map new_loop [0..<n]\<rparr>) \<and> length ets = n \<and>
           (\<forall>i < n. pool_thread cb (lp_name p) i (ets ! i))"
  using assms(2)
proof (induction n)
  case 0
  then show ?case using assms(3,4) by (intro exI [of _ "[]"]) simp
next
  case (Suc n)
  then obtain ets where ets: "fold_res (eloop_tpool_spawn cb new_loop) p [0..<n] =
      Inr (p\<lparr>lp_threads := ets, lp_loops := map new_loop [0..<n]\<rparr>)" "length ets = n"
    "\<forall>i < n. pool_thread cb (lp_name p) i (ets ! i)" by auto
  let ?p = "p\<lparr>lp_threads := ets, lp_loops := map new_loop [0..<n]\<rparr>"
  obtain et where "eloop_tpool_spawn cb new_loop ?p n =
      Inr (?p\<lparr>lp_threads := ets @ [et], lp_loops := map new_loop [0..<n] @ [new_loop n]\<rparr>)"
    "pool_thread cb (lp_name p) n et"
    using eloop_tpool_spawn_ok [of ?p n cb new_loop] assms(1) Suc.prems by auto
  with ets show ?case
    by (intro exI [of _ "ets @ [et]"]) (auto simp: fold_res_append nth_append less_Suc_eq)
qed

text \<open>Whatever the pool was before, \<^verbatim>\<open>start\<close> only adds loops and leaves the position of the next one.\<close>

lemma eloop_tpool_spawn_adds:
  "\<exists>et. eloop_tpool_spawn cb new_loop p i = Inr (p\<lparr>lp_threads := lp_threads p @ [et], lp_loops := lp_loops p @ [new_loop i]\<rparr>)"
proof -
  let ?b = "snprintf_buf (length (lp_name p) + 32) (c_str (lp_name p) @ dec_nat i)"
  obtain th where "thread_start True (et_thread (fst (eloop_thread_new 0 i cb ?b))) = Inr th"
    by (cases "?b = []") (auto simp: eloop_thread_new_def thread_new_def thread_set_default_def thread_start_def Let_def)
  then show ?thesis by (simp add: eloop_tpool_spawn_def Let_def) blast
qed

lemma eloop_tpool_spawns_add:
  "\<exists>ets. fold_res (eloop_tpool_spawn cb new_loop) p is =
     Inr (p\<lparr>lp_threads := lp_threads p @ ets, lp_loops := lp_loops p @ map new_loop is\<rparr>)"
proof (induction "is" arbitrary: p)
  case Nil
  then show ?case by (intro exI [of _ "[]"]) simp
next
  case (Cons i "is")
  obtain et where et: "eloop_tpool_spawn cb new_loop p i =
      Inr (p\<lparr>lp_threads := lp_threads p @ [et], lp_loops := lp_loops p @ [new_loop i]\<rparr>)"
    using eloop_tpool_spawn_adds by blast
  let ?p = "p\<lparr>lp_threads := lp_threads p @ [et], lp_loops := lp_loops p @ [new_loop i]\<rparr>"
  from Cons.IH [of ?p] obtain ets where "fold_res (eloop_tpool_spawn cb new_loop) ?p is =
      Inr (?p\<lparr>lp_threads := lp_threads ?p @ ets, lp_loops := lp_loops ?p @ map new_loop is\<rparr>)" by blast
  with et show ?case by (intro exI [of _ "et # ets"]) simp
qed

lemma eloop_tpool_start_adds:
  obtains p' where "eloop_tpool_start cb new_loop p = Inr p'" "lp_base_loop p' = lp_base_loop p"
    "lp_next_idx p' = lp_next_idx p" "lp_loops p' = lp_loops p @ map new_loop [0..<nat (lp_num_threads p)]"
proof -
  obtain ets where "fold_res (eloop_tpool_spawn cb new_loop) (p\<lparr>lp_started := True\<rparr>) [0..<nat (lp_num_threads p)] =
      Inr (p\<lparr>lp_started := True, lp_threads := lp_threads p @ ets,
             lp_loops := lp_loops p @ map new_loop [0..<nat (lp_num_threads p)]\<rparr>)"
    using eloop_tpool_spawns_add [of cb new_loop "p\<lparr>lp_started := True\<rparr>"] by auto
  then show thesis using that by (auto simp: eloop_tpool_start_def Let_def)
qed

section \<open>Properties\<close>

definition pool3 :: eloop_tpool where
  "pool3 = (eloop_tpool_new 9 ''io'')\<lparr>lp_loops := [20, 21, 22], lp_next_idx := 2\<rparr>"

text \<open>
  C30.  Connections are spread evenly over the loop threads: with at least one loop thread, \<open>k\<close>
  successive calls of \<^verbatim>\<open>get_next_loop\<close> never fail, go through the loops in their order, starting where
  the last call stopped and wrapping around, and after them every loop was chosen \<open>k div n\<close> or
  \<open>k div n + 1\<close> times.
\<close>

theorem get_next_loop_balanced:
  assumes "lp_next_idx p < length (lp_loops p)" and "distinct (lp_loops p)"
  shows "\<exists>ls p'. take_next get_next_loop k p = Inr (ls, p') \<and>
     ls = map (\<lambda>j. lp_loops p ! ((lp_next_idx p + j) mod length (lp_loops p))) [0..<k] \<and>
     lp_next_idx p' = (lp_next_idx p + k) mod length (lp_loops p) \<and> lp_loops p' = lp_loops p \<and>
     (\<forall>l. l \<in> set (lp_loops p) \<longrightarrow>
        count_list ls l \<in> {k div length (lp_loops p), k div length (lp_loops p) + 1})"
proof -
  have "lp_loops p \<noteq> []" using assms(1) by auto
  from next_loops_round_robin [OF this assms(1), of k] round_robin_balanced [OF assms(2) _ assms(1), of _ k]
  show ?thesis by auto
qed

theorem get_next_loop_balanced_witness:
  "\<exists>p'. take_next get_next_loop 4 pool3 = Inr ([22, 20, 21, 22], p') \<and> lp_next_idx p' = 0"
proof -
  have "lp_next_idx pool3 < length (lp_loops pool3)" "distinct (lp_loops pool3)"
    by (simp_all add: pool3_def eloop_tpool_new_def)
  from get_next_loop_balanced [OF this, of 4] show ?thesis
    by (auto simp: pool3_def eloop_tpool_new_def upt_rec [of 0 4] upt_rec [of "Suc _" 4])
qed



end
