(* ===== verification/NetAddress.thy ===== *)
theory NetAddress
  imports Prelude
begin

unbundle bit_operations_syntax

text \<open>
  IPv4 addresses: \<^verbatim>\<open>include/net/address.h\<close> and \<^verbatim>\<open>src/net/address.cpp\<close>.  The conversions \<^verbatim>\<open>inet_pton\<close> and
  \<^verbatim>\<open>inet_ntop\<close> of the C library are parameters \<open>pton\<close> and \<open>ntop\<close>; the byte order functions are
  those of a little-endian host.
\<close>

section \<open>Model\<close>

record sockaddr_in =
  sin_family :: "16 word"
  sin_port :: "16 word"     \<comment> \<open>network byte order\<close>
  sin_addr :: "32 word"     \<comment> \<open>network byte order\<close>

definition AF_INET :: "16 word" where
  "AF_INET = 2"

definition htons :: "16 word \<Rightarrow> 16 word" where
  "htons p = push_bit 8 p OR drop_bit 8 p"

definition ntohs :: "16 word \<Rightarrow> 16 word" where
  "ntohs p = push_bit 8 p OR drop_bit 8 p"

definition sockaddr_zero :: sockaddr_in where
  "sockaddr_zero = \<lparr>sin_family = 0, sin_port = 0, sin_addr = 0\<rparr>"

text \<open>A text \<^verbatim>\<open>inet_pton\<close> rejects leaves the zeroed address in place; the constructor ignores the result.\<close>

definition address_new :: "(string \<Rightarrow> 32 word option) \<Rightarrow> 16 word \<Rightarrow> string \<Rightarrow> sockaddr_in" where
  "address_new pton port ip =
     (let a = sockaddr_zero\<lparr>sin_family := AF_INET, sin_port := htons port\<rparr> in
      case pton (c_str ip) of None \<Rightarrow> a | Some w \<Rightarrow> a\<lparr>sin_addr := w\<rparr>)"

definition address_of_sockaddr :: "sockaddr_in \<Rightarrow> sockaddr_in" where
  "address_of_sockaddr addr = addr"

text \<open>\<^verbatim>\<open>inet_ntop\<close> into a zeroed array of 64 bytes: a text that does not fit leaves it empty.\<close>

definition ntop_buf :: "(32 word \<Rightarrow> string) \<Rightarrow> sockaddr_in \<Rightarrow> string" where
  "ntop_buf ntop a = (if length (ntop (sin_addr a)) < 64 then ntop (sin_addr a) else [])"

definition address_to_ip :: "(32 word \<Rightarrow> string) \<Rightarrow> sockaddr_in \<Rightarrow> string" where
  "address_to_ip ntop a = c_str (ntop_buf ntop a)"

definition address_to_ip_port :: "(32 word \<Rightarrow> string) \<Rightarrow> sockaddr_in \<Rightarrow> string" where
  "address_to_ip_port ntop a =
     (let b = c_str (ntop_buf ntop a); port = ntohs (sin_port a) in
      b @ snprintf_buf (64 - length b) ('':'' @ dec_nat (unat port)))"

definition address_to_port :: "sockaddr_in \<Rightarrow> 16 word" where
  "address_to_port a = ntohs (sin_port a)"

definition address_set_sock_addr :: "sockaddr_in \<Rightarrow> sockaddr_in \<Rightarrow> sockaddr_in" where
  "address_set_sock_addr a addr = addr"

section \<open>Byte order and formatting\<close>

lemma ntohs_htons [simp]: "ntohs (htons p) = p"
proof (rule bit_word_eqI)
  fix n assume "n < LENGTH(16)"
  then have "n < 8 \<or> (8 \<le> n \<and> n < 16)" by auto
  then show "bit (ntohs (htons p)) n = bit p n"
    by (auto simp: ntohs_def htons_def bit_simps)
qed

lemma length_port_text: "length ('':'' @ dec_nat (unat (p :: 16 word))) \<le> 6"
proof -
  have "unat p < 2 ^ LENGTH(16)" by (rule unsigned_less)
  then have "unat p < 10 ^ 5" by simp
  then show ?thesis using length_dec_nat [of "unat p" 5] by simp
qed

lemma to_ip_port_text:
  assumes "length (ntop (sin_addr a)) \<le> 15" "NUL \<notin> set (ntop (sin_addr a))"
  shows "address_to_ip_port ntop a =
           address_to_ip ntop a @ '':'' @ dec_nat (unat (address_to_port a))"
    and "address_to_ip ntop a = ntop (sin_addr a)"
  using assms length_port_text [of "ntohs (sin_port a)"]
  by (simp_all add: address_to_ip_port_def address_to_ip_def address_to_port_def ntop_buf_def Let_def)

section \<open>Properties\<close>

text \<open>
  C36.  Addresses round-trip: when \<^verbatim>\<open>inet_pton\<close> accepts the text that \<^verbatim>\<open>inet_ntop\<close> prints for an address,
  and that text has at most 15 characters as documented, an address object built from a port and
  this text gives both back, and its combined text is \<^verbatim>\<open>ip:port\<close> without truncation.
\<close>

theorem address_round_trip:
  assumes "pton (ntop w) = Some w" and "length (ntop w) \<le> 15" and "NUL \<notin> set (ntop w)"
  shows "address_to_ip ntop (address_new pton port (ntop w)) = ntop w \<and>
         address_to_port (address_new pton port (ntop w)) = port \<and>
         address_to_ip_port ntop (address_new pton port (ntop w)) =
           ntop w @ '':'' @ dec_nat (unat port) \<and>
         sin_family (address_new pton port (ntop w)) = AF_INET"
proof -
  let ?a = "address_new pton port (ntop w)"
  have a: "sin_addr ?a = w" "sin_port ?a = htons port" "sin_family ?a = AF_INET"
    using assms by (simp_all add: address_new_def Let_def)
  then show ?thesis
    using to_ip_port_text [of ntop ?a] assms by (simp add: address_to_port_def)
qed

definition dotted_quad :: "32 word \<Rightarrow> string" where
  "dotted_quad w = dec_nat (unat (drop_bit 24 w)) @ ''.'' @ dec_nat (unat (drop_bit 16 w AND 255)) @ ''.'' @
     dec_nat (unat (drop_bit 8 w AND 255)) @ ''.'' @ dec_nat (unat (w AND 255))"

lemma dotted_quad_example: "dotted_quad 3232235777 = ''192.168.1.1''"
  by code_simp

definition pton_example :: "string \<Rightarrow> 32 word option" where
  "pton_example s = (if s = ''192.168.1.1'' then Some 3232235777 else None)"

theorem address_round_trip_witness:
  "address_to_ip dotted_quad (address_new pton_example 8080 (dotted_quad 3232235777)) =
     dotted_quad 3232235777 \<and>
   address_to_port (address_new pton_example 8080 (dotted_quad 3232235777)) = 8080 \<and>
   address_to_ip_port dotted_quad (address_new pton_example 8080 (dotted_quad 3232235777)) =
     dotted_quad 3232235777 @ '':'' @ dec_nat (unat (8080 :: 16 word)) \<and>
   sin_family (address_new pton_example 8080 (dotted_quad 3232235777)) = AF_INET"
proof (rule address_round_trip)
  show "pton_example (dotted_quad 3232235777) = Some 3232235777"
    by (simp only: dotted_quad_example pton_example_def) simp
  show "length (dotted_quad 3232235777) \<le> 15" by (simp only: dotted_quad_example) simp
  show "NUL \<notin> set (dotted_quad 3232235777)" by (simp only: dotted_quad_example) (simp add: NUL_def)
qed

end
