(* ===== verification/NetSocket.thy ===== *)
theory NetSocket
  imports LogLevel NetAddress
begin

text \<open>
  Socket wrapper: \<^verbatim>\<open>include/net/socket.h\<close> and \<^verbatim>\<open>src/net/socket.cpp\<close>.  An operation takes the result of its
  system call as an argument and records the call and the messages it logs.
\<close>

section \<open>Model\<close>

datatype sock_call =
    Bind fd sockaddr_in
  | Listen fd int
  | Accept4 fd
  | Shutdown_Wr fd
  | Setsockopt fd int int int      \<comment> \<open>level, option, value\<close>
  | Close fd

record sock_trace =
  st_calls :: "sock_call list"
  st_log :: "log_call list"

definition IPPROTO_TCP :: int where "IPPROTO_TCP = 6"
definition TCP_NODELAY :: int where "TCP_NODELAY = 1"
definition SOL_SOCKET :: int where "SOL_SOCKET = 1"
definition SO_REUSEADDR :: int where "SO_REUSEADDR = 2"
definition SO_KEEPALIVE :: int where "SO_KEEPALIVE = 9"
definition SO_REUSEPORT :: int where "SO_REUSEPORT = 15"

definition sys_call :: "sock_call \<Rightarrow> sock_trace \<Rightarrow> sock_trace" where
  "sys_call c t = t\<lparr>st_calls := st_calls t @ [c]\<rparr>"

definition add_log :: "loglevel \<Rightarrow> string \<Rightarrow> sock_trace \<Rightarrow> sock_trace" where
  "add_log lv s t = t\<lparr>st_log := st_log t @ [(lv, s)]\<rparr>"

definition socket_destroy :: "fd \<Rightarrow> sock_trace \<Rightarrow> sock_trace" where
  "socket_destroy sockfd t = sys_call (Close sockfd) t"

text \<open>A failing \<^verbatim>\<open>bind\<close> or \<^verbatim>\<open>listen\<close> is logged at level FATAL, whose logger aborts when it is destroyed.\<close>

definition socket_bind_address :: "fd \<Rightarrow> sockaddr_in \<Rightarrow> int \<Rightarrow> sock_trace \<Rightarrow> sock_trace result" where
  "socket_bind_address sockfd localaddr ret t =
     (if ret \<noteq> 0 then Inl Aborted else Inr (sys_call (Bind sockfd localaddr) t))"

definition socket_listen :: "fd \<Rightarrow> int \<Rightarrow> sock_trace \<Rightarrow> sock_trace result" where
  "socket_listen sockfd ret t =
     (if ret \<noteq> 0 then Inl Aborted else Inr (sys_call (Listen sockfd 1024) t))"

text \<open>\<^verbatim>\<open>accept\<close>: \<open>addr\<close> is what \<^verbatim>\<open>accept4\<close> left in the zeroed address; the peer is written on success only.\<close>

definition socket_accept ::
    "fd \<Rightarrow> sockaddr_in \<Rightarrow> int \<Rightarrow> sockaddr_in \<Rightarrow> sock_trace \<Rightarrow> int \<times> sockaddr_in \<times> sock_trace" where
  "socket_accept sockfd peeraddr connfd addr t =
     (connfd, if connfd \<ge> 0 then address_set_sock_addr peeraddr addr else peeraddr,
      sys_call (Accept4 sockfd) t)"

definition socket_shutdown_write :: "fd \<Rightarrow> int \<Rightarrow> sock_trace \<Rightarrow> sock_trace" where
  "socket_shutdown_write sockfd ret t =
     (let t1 = sys_call (Shutdown_Wr sockfd) t in
      if ret < 0 then add_log ERROR (''shutdown write error'' @ [CHR 0x0A]) t1 else t1)"

definition socket_set_option ::
    "int \<Rightarrow> int \<Rightarrow> string \<Rightarrow> fd \<Rightarrow> bool \<Rightarrow> int \<Rightarrow> sock_trace \<Rightarrow> sock_trace" where
  "socket_set_option level opt msg sockfd on ret t =
     (let t1 = sys_call (Setsockopt sockfd level opt (if on then 1 else 0)) t in
      if ret < 0 then add_log ERROR msg t1 else t1)"

definition socket_set_tcp_no_delay :: "fd \<Rightarrow> bool \<Rightarrow> int \<Rightarrow> sock_trace \<Rightarrow> sock_trace" where
  "socket_set_tcp_no_delay = socket_set_option IPPROTO_TCP TCP_NODELAY ''set_tcp_no_delay fail''"

definition socket_set_reuse_addr :: "fd \<Rightarrow> bool \<Rightarrow> int \<Rightarrow> sock_trace \<Rightarrow> sock_trace" where
  "socket_set_reuse_addr = socket_set_option SOL_SOCKET SO_REUSEADDR ''set_reuse_addr fail''"

definition socket_set_reuse_port :: "fd \<Rightarrow> bool \<Rightarrow> int \<Rightarrow> sock_trace \<Rightarrow> sock_trace" where
  "socket_set_reuse_port = socket_set_option SOL_SOCKET SO_REUSEPORT ''set_reuse_port fail''"

definition socket_set_keep_alive :: "fd \<Rightarrow> bool \<Rightarrow> int \<Rightarrow> sock_trace \<Rightarrow> sock_trace" where
  "socket_set_keep_alive = socket_set_option SOL_SOCKET SO_KEEPALIVE ''set_keep_alive fail''"

section \<open>Effects of the operations\<close>

lemma sys_call_simps [simp]:
  "st_calls (sys_call c t) = st_calls t @ [c]" "st_log (sys_call c t) = st_log t"
  by (simp_all add: sys_call_def)

lemma add_log_simps [simp]:
  "st_calls (add_log lv s t) = st_calls t" "st_log (add_log lv s t) = st_log t @ [(lv, s)]"
  by (simp_all add: add_log_def)

lemma socket_set_option_calls [simp]:
  "st_calls (socket_set_option level opt msg sockfd on ret t) =
     st_calls t @ [Setsockopt sockfd level opt (if on then 1 else 0)]"
  by (simp add: socket_set_option_def Let_def)

lemma socket_set_option_log [simp]:
  "st_log (socket_set_option level opt msg sockfd on ret t) =
     st_log t @ (if ret < 0 then [(ERROR, msg)] else [])"
  by (simp add: socket_set_option_def Let_def)

lemma socket_shutdown_write_calls [simp]:
  "st_calls (socket_shutdown_write sockfd ret t) = st_calls t @ [Shutdown_Wr sockfd]"
  by (simp add: socket_shutdown_write_def Let_def)

lemmas socket_option_defs = socket_set_tcp_no_delay_def socket_set_reuse_addr_def
  socket_set_reuse_port_def socket_set_keep_alive_def

end
