(* ===== verification/NetBuffer.thy ===== *)
theory NetBuffer
  imports Prelude
begin

text \<open>
  The growable network buffer of \<^verbatim>\<open>include/net/buffer.h\<close> and \<^verbatim>\<open>src/net/buffer.cpp\<close>: a byte vector
  with a reader and a writer index, the scatter read from a descriptor, and the contract
  \<open>byte_queue\<close> under which a connection uses its two buffers.
\<close>

section \<open>Model\<close>

definition CHEAP_PREPEND :: nat where
  "CHEAP_PREPEND = 8"

definition INITIAL_SIZE :: nat where
  "INITIAL_SIZE = 1024"

text \<open>\<^verbatim>\<open>std::vector<char>::max_size()\<close>: beyond it a constructor or a resize throws.\<close>

definition vector_max_size :: nat where
  "vector_max_size = 9223372036854775807"

definition vector_resize :: "string \<Rightarrow> nat \<Rightarrow> string result" where
  "vector_resize v n =
     (if n \<le> vector_max_size then Inr (take n v @ replicate (n - length v) NUL) else Inl Length_Error)"

record buffer =
  buf :: string
  reader_index :: nat
  writer_index :: nat

definition buffer_new :: "nat \<Rightarrow> buffer result" where
  "buffer_new initial_size =
     bind_res (vector_resize [] (size_add CHEAP_PREPEND initial_size)) (\<lambda>v.
     Inr \<lparr>buf = v, reader_index = CHEAP_PREPEND, writer_index = CHEAP_PREPEND\<rparr>)"

definition readable_bytes :: "buffer \<Rightarrow> nat" where
  "readable_bytes b = size_sub (writer_index b) (reader_index b)"

definition writable_bytes :: "buffer \<Rightarrow> nat" where
  "writable_bytes b = size_sub (length (buf b)) (writer_index b)"

definition prependable_bytes :: "buffer \<Rightarrow> nat" where
  "prependable_bytes b = reader_index b"

definition retrieve_all :: "buffer \<Rightarrow> buffer" where
  "retrieve_all b = b\<lparr>reader_index := CHEAP_PREPEND, writer_index := CHEAP_PREPEND\<rparr>"

definition retrieve :: "buffer \<Rightarrow> nat \<Rightarrow> buffer" where
  "retrieve b len =
     (if len < readable_bytes b then b\<lparr>reader_index := reader_index b + len\<rparr> else retrieve_all b)"

text \<open>\<^verbatim>\<open>std::string result(peek(), len)\<close> reads \<open>len\<close> bytes of the vector from the reader index on.\<close>

definition retrieve_as_string :: "buffer \<Rightarrow> nat \<Rightarrow> (string \<times> buffer) result" where
  "retrieve_as_string b len =
     (if reader_index b + len \<le> length (buf b)
      then Inr (slice (buf b) (reader_index b) (reader_index b + len), retrieve b len)
      else Inl Out_Of_Bounds)"

definition retrieve_all_as_string :: "buffer \<Rightarrow> (string \<times> buffer) result" where
  "retrieve_all_as_string b = retrieve_as_string b (readable_bytes b)"

definition make_space :: "buffer \<Rightarrow> nat \<Rightarrow> buffer result" where
  "make_space b len =
     (if size_add (writable_bytes b) (prependable_bytes b) < size_add len CHEAP_PREPEND then
        bind_res (vector_resize (buf b) (size_add (writer_index b) len)) (\<lambda>v. Inr (b\<lparr>buf := v\<rparr>))
      else
        (let readable = readable_bytes b in
         bind_res (mem_write (buf b) CHEAP_PREPEND (slice (buf b) (reader_index b) (writer_index b)))
           (\<lambda>v. Inr (b\<lparr>buf := v, reader_index := CHEAP_PREPEND,
                        writer_index := CHEAP_PREPEND + readable\<rparr>))))"

definition ensure_writable_bytes :: "buffer \<Rightarrow> nat \<Rightarrow> buffer result" where
  "ensure_writable_bytes b len = (if writable_bytes b < len then make_space b len else Inr b)"

definition buffer_append :: "buffer \<Rightarrow> string \<Rightarrow> nat \<Rightarrow> buffer result" where
  "buffer_append b data len =
     bind_res (ensure_writable_bytes b len) (\<lambda>b1.
     if len \<le> length data then
       bind_res (mem_write (buf b1) (writer_index b1) (take len data)) (\<lambda>v.
       Inr (b1\<lparr>buf := v, writer_index := writer_index b1 + len\<rparr>))
     else Inl Out_Of_Bounds)"

text \<open>
  \<^verbatim>\<open>read_fd\<close>.  The outcome of \<^verbatim>\<open>readv\<close> is an argument: an error number, or the bytes received.  The
  kernel fills the free part of the vector first and the 65536 byte stack array with the rest.
  The result is the return value, the stored error number if any, and the buffer.
\<close>

definition EXTRABUF_SIZE :: nat where
  "EXTRABUF_SIZE = 65536"

definition readv_capacity :: "buffer \<Rightarrow> nat" where
  "readv_capacity b =
     (let writable = writable_bytes b;
          iovcnt = (if writable < EXTRABUF_SIZE then 2 else 1 :: nat)
      in if iovcnt = 2 then writable + EXTRABUF_SIZE else writable)"

definition read_fd :: "buffer \<Rightarrow> errno + string \<Rightarrow> (int \<times> errno option \<times> buffer) result" where
  "read_fd b outcome =
     (case outcome of
        Inl e \<Rightarrow> Inr (-1, Some e, b)
      | Inr bytes \<Rightarrow>
        (let n = length bytes; writable = writable_bytes b;
             v = overwrite (buf b) (writer_index b) (take writable bytes);
             extrabuf = overwrite (replicate EXTRABUF_SIZE NUL) 0 (drop writable bytes) in
         if n \<le> writable then Inr (int n, None, b\<lparr>buf := v, writer_index := writer_index b + n\<rparr>)
         else bind_res (buffer_append (b\<lparr>buf := v, writer_index := length v\<rparr>) extrabuf (n - writable))
                (\<lambda>b'. Inr (int n, None, b'))))"

text \<open>
  \<^verbatim>\<open>write_fd\<close> offers the readable bytes to the kernel; the outcome is an error number or the number
  of bytes taken.  The buffer itself is not changed.
\<close>

definition write_fd :: "buffer \<Rightarrow> errno + nat \<Rightarrow> int \<times> errno option" where
  "write_fd b outcome = (case outcome of Inl e \<Rightarrow> (-1, Some e) | Inr n \<Rightarrow> (int n, None))"

definition peek :: "buffer \<Rightarrow> nat \<Rightarrow> string" where
  "peek b len = slice (buf b) (reader_index b) (reader_index b + len)"

section \<open>Invariant\<close>

definition buf_inv :: "buffer \<Rightarrow> bool" where
  "buf_inv b \<longleftrightarrow> CHEAP_PREPEND \<le> reader_index b \<and> reader_index b \<le> writer_index b \<and>
     writer_index b \<le> length (buf b) \<and> length (buf b) \<le> vector_max_size"

definition contents :: "buffer \<Rightarrow> string" where
  "contents b = slice (buf b) (reader_index b) (writer_index b)"

lemma vector_max_lt: "n \<le> vector_max_size \<Longrightarrow> n < size_mod"
  by (simp add: vector_max_size_def)

lemma contents_bound: "buf_inv b \<Longrightarrow> length (contents b) \<le> vector_max_size"
  by (auto simp: buf_inv_def contents_def)

lemma readable_contents [buf_simps]: "buf_inv b \<Longrightarrow> readable_bytes b = length (contents b)"
  by (simp add: buf_inv_def readable_bytes_def contents_def vector_max_size_def)

lemma writable_exact [buf_simps]:
  "buf_inv b \<Longrightarrow> writable_bytes b = length (buf b) - writer_index b"
  by (simp add: buf_inv_def writable_bytes_def vector_max_size_def)

lemma vector_resize_grow:
  "length v \<le> n \<Longrightarrow> n \<le> vector_max_size \<Longrightarrow> vector_resize v n = Inr (v @ replicate (n - length v) NUL)"
  by (simp add: vector_resize_def)

lemma buffer_new_ok:
  assumes "CHEAP_PREPEND + n \<le> vector_max_size"
  obtains b where "buffer_new n = Inr b" "buf_inv b" "contents b = []" "writer_index b = CHEAP_PREPEND"
proof -
  have "CHEAP_PREPEND + n < size_mod" using assms by (rule vector_max_lt)
  then show thesis
    using assms that by (auto simp: buffer_new_def vector_resize_grow buf_inv_def contents_def)
qed

lemma buf_inv_retrieve_all [inv_intros]: "buf_inv b \<Longrightarrow> buf_inv (retrieve_all b)"
  by (auto simp: buf_inv_def retrieve_all_def)

lemma contents_retrieve_all [buf_simps]: "contents (retrieve_all b) = []"
  by (simp add: contents_def retrieve_all_def)

lemma buf_inv_retrieve [inv_intros]: "buf_inv b \<Longrightarrow> buf_inv (retrieve b n)"
proof (cases "n < readable_bytes b")
  case True
  assume inv: "buf_inv b"
  with True have "n < writer_index b - reader_index b"
    by (simp add: readable_contents contents_def buf_inv_def)
  with inv True show ?thesis by (auto simp: retrieve_def buf_inv_def)
qed (simp add: retrieve_def buf_inv_retrieve_all)

lemma contents_retrieve [buf_simps]: "buf_inv b \<Longrightarrow> contents (retrieve b n) = drop n (contents b)"
proof (cases "n < readable_bytes b")
  case True
  then show ?thesis by (simp add: retrieve_def contents_def slice_drop)
qed (simp add: retrieve_def buf_simps)

lemma writer_retrieve: "buf_inv b \<Longrightarrow> writer_index (retrieve b n) \<le> writer_index b"
  by (simp add: retrieve_def retrieve_all_def buf_inv_def)

section \<open>Making space and appending\<close>

lemma make_space_sizes:
  assumes "buf_inv b" "len \<le> vector_max_size"
  shows "size_add (writable_bytes b) (reader_index b) = writable_bytes b + reader_index b"
    "size_add len CHEAP_PREPEND = len + CHEAP_PREPEND"
    "size_add (writer_index b) len = writer_index b + len"
  using assms by (auto simp: buf_simps buf_inv_def vector_max_size_def CHEAP_PREPEND_def)

lemma make_space_compacts:
  assumes "buf_inv b" "len \<le> vector_max_size" "\<not> writable_bytes b + reader_index b < len + CHEAP_PREPEND"
  obtains b' where "make_space b len = Inr b'" "buf_inv b'" "contents b' = contents b"
    "writer_index b' + len \<le> length (buf b')" "writer_index b' \<le> writer_index b"
proof -
  let ?c = "contents b"
  have len: "length ?c = writer_index b - reader_index b"
    using assms(1) by (simp add: contents_def buf_inv_def)
  have fit: "CHEAP_PREPEND + length ?c \<le> length (buf b)"
    using assms(1) len by (auto simp: buf_inv_def)
  have eq: "make_space b len = Inr (b\<lparr>buf := overwrite (buf b) CHEAP_PREPEND ?c,
      reader_index := CHEAP_PREPEND, writer_index := CHEAP_PREPEND + length ?c\<rparr>)"
    using fit assms make_space_sizes [OF assms(1,2)]
    by (simp add: make_space_def prependable_bytes_def readable_contents contents_def [symmetric])
  have "CHEAP_PREPEND + length ?c + len \<le> length (buf b)" "CHEAP_PREPEND + length ?c \<le> writer_index b"
    using assms len writable_exact [OF assms(1)] by (auto simp: buf_inv_def)
  note bounds = this
  show thesis
  proof (rule that [OF eq])
    show "contents (b\<lparr>buf := overwrite (buf b) CHEAP_PREPEND ?c, reader_index := CHEAP_PREPEND,
        writer_index := CHEAP_PREPEND + length ?c\<rparr>) = ?c"
      using slice_overwrite_exact [OF fit] by (simp add: contents_def [of "b\<lparr>buf := _\<rparr>"] contents_def [of "_\<lparr>writer_index := _\<rparr>"])
  qed (use bounds fit assms(1) in \<open>simp_all add: buf_inv_def\<close>)
qed

lemma make_space_ok:
  assumes "buf_inv b" "writable_bytes b < len" "writer_index b + len \<le> vector_max_size"
  obtains b' where "make_space b len = Inr b'" "buf_inv b'" "contents b' = contents b"
    "writer_index b' + len \<le> length (buf b')" "writer_index b' \<le> writer_index b"
proof -
  have max: "len \<le> vector_max_size" using assms(3) by simp
  show thesis
  proof (cases "writable_bytes b + reader_index b < len + CHEAP_PREPEND")
    case True
    let ?v = "buf b @ replicate (writer_index b + len - length (buf b)) NUL"
    have "length (buf b) \<le> writer_index b + len"
      using assms(1,2) by (simp add: buf_simps)
    moreover from this have eq: "make_space b len = Inr (b\<lparr>buf := ?v\<rparr>)"
      using True assms(3) make_space_sizes [OF assms(1) max]
      by (simp add: make_space_def prependable_bytes_def vector_resize_grow)
    ultimately show thesis
      using assms that by (simp add: buf_inv_def contents_def)
  next
    case False
    with assms(1) max show thesis by (rule make_space_compacts) (rule that)
  qed
qed

text \<open>Without room below the maximal size the append may still fit after compaction, or throws.\<close>

lemma make_space_too_long:
  assumes "buf_inv b" "len \<le> vector_max_size" "vector_max_size < writer_index b + len"
    and "writable_bytes b + reader_index b < len + CHEAP_PREPEND"
  shows "make_space b len = Inl Length_Error"
  using assms make_space_sizes [OF assms(1,2)]
  by (simp add: make_space_def prependable_bytes_def vector_resize_def)

lemma make_space_ensures:
  assumes "buf_inv b" "writable_bytes b < len" "len \<le> vector_max_size"
  shows "ensures (make_space b len)
    (\<lambda>b'. buf_inv b' \<and> contents b' = contents b \<and> writer_index b' + len \<le> length (buf b'))"
proof (cases "writable_bytes b + reader_index b < len + CHEAP_PREPEND")
  case True
  show ?thesis
  proof (cases "writer_index b + len \<le> vector_max_size")
    case True
    with assms(1,2) show ?thesis by (rule make_space_ok) simp
  next
    case False
    with True assms show ?thesis by (simp add: make_space_too_long)
  qed
next
  case False
  with assms(1,3) show ?thesis by (rule make_space_compacts) simp
qed

lemma ensure_writable_ok:
  assumes "buf_inv b" "writer_index b + len \<le> vector_max_size"
  obtains b' where "ensure_writable_bytes b len = Inr b'" "buf_inv b'" "contents b' = contents b"
    "writer_index b' + len \<le> length (buf b')" "writer_index b' \<le> writer_index b"
proof (cases "writable_bytes b < len")
  case True
  with assms that make_space_ok [of b len] show thesis by (auto simp: ensure_writable_bytes_def)
next
  case False
  then have "writer_index b + len \<le> length (buf b)"
    using assms(1) by (auto simp: buf_simps buf_inv_def)
  with False assms(1) that [of b] show thesis by (simp add: ensure_writable_bytes_def)
qed

lemma contents_fill:
  assumes "buf_inv b" "len \<le> length data" "writer_index b + len \<le> length (buf b)"
  shows "contents (b\<lparr>buf := overwrite (buf b) (writer_index b) (take len data),
                     writer_index := writer_index b + len\<rparr>) = contents b @ take len data"
  using slice_overwrite_extend [of "reader_index b" "writer_index b" "take len data" "buf b"] assms
  by (simp add: contents_def buf_inv_def)

lemma buffer_append_ok:
  assumes "buf_inv b" "writer_index b + len \<le> vector_max_size" "len \<le> length data"
  obtains b' where "buffer_append b data len = Inr b'" "buf_inv b'"
    "contents b' = contents b @ take len data" "writer_index b' \<le> writer_index b + len"
proof -
  obtain b1 where b1: "ensure_writable_bytes b len = Inr b1" "buf_inv b1" "contents b1 = contents b"
    "writer_index b1 + len \<le> length (buf b1)" "writer_index b1 \<le> writer_index b"
    using assms(1,2) by (rule ensure_writable_ok)
  with assms(3) contents_fill [OF b1(2) assms(3) b1(4)] that show thesis
    by (simp add: buffer_append_def buf_inv_def)
qed

lemma buffer_append_ensures:
  assumes "buf_inv b" "len \<le> vector_max_size" "len \<le> length data"
  shows "ensures (buffer_append b data len) (\<lambda>b'. buf_inv b' \<and> contents b' = contents b @ take len data)"
proof -
  have "ensures (ensure_writable_bytes b len)
      (\<lambda>b'. buf_inv b' \<and> contents b' = contents b \<and> writer_index b' + len \<le> length (buf b'))"
    using make_space_ensures [OF assms(1) _ assms(2)] assms(1)
    by (auto simp: ensure_writable_bytes_def buf_simps buf_inv_def)
  then show ?thesis
    unfolding buffer_append_def
  proof (rule ensures_bindI)
    fix b1 assume b1: "buf_inv b1 \<and> contents b1 = contents b \<and> writer_index b1 + len \<le> length (buf b1)"
    then show "ensures (if len \<le> length data then
         bind_res (mem_write (buf b1) (writer_index b1) (take len data))
           (\<lambda>v. Inr (b1\<lparr>buf := v, writer_index := writer_index b1 + len\<rparr>))
         else Inl Out_Of_Bounds) (\<lambda>b'. buf_inv b' \<and> contents b' = contents b @ take len data)"
      using assms(3) contents_fill [of b1 len data] by (simp add: buf_inv_def)
  qed
qed

section \<open>The buffer as a byte queue\<close>

text \<open>
  The contract a connection relies on.  \<open>extent\<close> bounds how far into its storage a queue reaches; an
  append that stays below \<open>limit\<close> cannot fail.
\<close>

datatype queue_op = Append string | Retrieve nat

fun pushed :: "queue_op list \<Rightarrow> nat" where
  "pushed [] = 0"
| "pushed (Append d # ops) = length d + pushed ops"
| "pushed (Retrieve n # ops) = pushed ops"

fun bytes_op :: "string \<Rightarrow> queue_op \<Rightarrow> string" where
  "bytes_op q (Append d) = q @ d"
| "bytes_op q (Retrieve n) = drop n q"

fun buffer_op :: "buffer \<Rightarrow> queue_op \<Rightarrow> buffer result" where
  "buffer_op b (Append d) = buffer_append b d (length d)"
| "buffer_op b (Retrieve n) = Inr (retrieve b n)"

locale byte_queue =
  fixes oper :: "'q \<Rightarrow> queue_op \<Rightarrow> 'q result" and invar :: "'q \<Rightarrow> bool"
    and bytes :: "'q \<Rightarrow> string" and extent :: "'q \<Rightarrow> nat" and limit :: nat
  assumes append_law: "invar q \<Longrightarrow> extent q + length d \<le> limit \<Longrightarrow>
      \<exists>q'. oper q (Append d) = Inr q' \<and> invar q' \<and> bytes q' = bytes q @ d \<and>
           extent q' \<le> extent q + length d"
    and retrieve_law: "invar q \<Longrightarrow>
      \<exists>q'. oper q (Retrieve n) = Inr q' \<and> invar q' \<and> bytes q' = drop n (bytes q) \<and>
           extent q' \<le> extent q"
begin

lemma run_refines:
  assumes "invar q" "extent q + pushed ops \<le> limit"
  shows "\<exists>q'. fold_res oper q ops = Inr q' \<and> invar q' \<and> bytes q' = foldl bytes_op (bytes q) ops \<and>
           extent q' \<le> extent q + pushed ops"
  using assms
proof (induction ops arbitrary: q)
  case (Cons x ops)
  show ?case
  proof (cases x)
    case (Append d)
    with Cons.prems append_law [of q d] obtain q1 where "oper q x = Inr q1" "invar q1"
      "bytes q1 = bytes q @ d" "extent q1 \<le> extent q + length d" by auto
    with Append Cons.prems(2) Cons.IH [of q1] show ?thesis by fastforce
  next
    case (Retrieve n)
    with Cons.prems retrieve_law [of q n] obtain q1 where "oper q x = Inr q1" "invar q1"
      "bytes q1 = drop n (bytes q)" "extent q1 \<le> extent q" by auto
    with Retrieve Cons.prems(2) Cons.IH [of q1] show ?thesis by fastforce
  qed
qed simp

end

interpretation nbuf: byte_queue buffer_op buf_inv contents writer_index vector_max_size
proof unfold_locales
  fix q and d :: string
  assume "buf_inv q" "writer_index q + length d \<le> vector_max_size"
  then show "\<exists>q'. buffer_op q (Append d) = Inr q' \<and> buf_inv q' \<and> contents q' = contents q @ d \<and>
      writer_index q' \<le> writer_index q + length d"
    by (rule buffer_append_ok [where data = d and len = "length d"]) auto
qed (simp add: buf_simps inv_intros writer_retrieve)

section \<open>Reading from a descriptor\<close>

lemma buf_inv_fill:
  assumes "buf_inv b" "writer_index b + length s \<le> length (buf b)"
  defines "b' \<equiv> b\<lparr>buf := overwrite (buf b) (writer_index b) s, writer_index := writer_index b + length s\<rparr>"
  shows "buf_inv b'" "contents b' = contents b @ s"
  using assms slice_overwrite_extend [of "reader_index b" "writer_index b" s "buf b"]
  by (simp_all add: buf_inv_def contents_def)

lemma fill_prefix:
  assumes "length t \<le> n"
  shows "take (length t) (overwrite (replicate n c) 0 t) = t" "length (overwrite (replicate n c) 0 t) = n"
  using assms by (simp_all add: overwrite_def)

text \<open>
  When more bytes arrive than fit, the vector is filled up and the rest of them, which sits in the
  stack array, is appended.
\<close>

lemma read_fd_overflow:
  assumes "buf_inv b" "length bytes \<le> readv_capacity b" "\<not> length bytes \<le> writable_bytes b"
  obtains b1 extra where "buf_inv b1" "contents b1 = contents b @ take (writable_bytes b) bytes"
    "writer_index b1 + (length bytes - writable_bytes b) = writer_index b + length bytes"
    "take (length bytes - writable_bytes b) extra = drop (writable_bytes b) bytes"
    "length bytes - writable_bytes b \<le> EXTRABUF_SIZE" "EXTRABUF_SIZE \<le> length extra"
    "read_fd b (Inr bytes) = bind_res (buffer_append b1 extra (length bytes - writable_bytes b))
       (\<lambda>b'. Inr (int (length bytes), None, b'))"
proof -
  let ?w = "writable_bytes b"
  let ?head = "take ?w bytes" and ?tail = "drop ?w bytes"
  let ?b1 = "b\<lparr>buf := overwrite (buf b) (writer_index b) ?head, writer_index := length (buf b)\<rparr>"
  let ?extra = "overwrite (replicate EXTRABUF_SIZE NUL) 0 ?tail"
  have head: "writer_index b + length ?head = length (buf b)"
    using assms(1,3) by (auto simp: buf_simps buf_inv_def)
  then have b1: "buf_inv ?b1" "contents ?b1 = contents b @ ?head"
    using buf_inv_fill [OF assms(1), of ?head] by simp_all
  have v: "length (overwrite (buf b) (writer_index b) ?head) = length (buf b)"
    using head by (intro length_overwrite) simp
  have tail: "length ?tail \<le> EXTRABUF_SIZE" "length bytes - ?w = length ?tail"
    using assms(2,3) by (auto simp: readv_capacity_def Let_def split: if_splits)
  have extra: "take (length ?tail) ?extra = ?tail" "length ?extra = EXTRABUF_SIZE"
    using fill_prefix [OF tail(1), of NUL] tail(1) by (simp_all only:)
  have "read_fd b (Inr bytes) = bind_res (buffer_append ?b1 ?extra (length bytes - ?w))
      (\<lambda>b'. Inr (int (length bytes), None, b'))"
    using assms(3) by (simp add: read_fd_def Let_def v del: length_drop)
  moreover have "writer_index ?b1 + (length bytes - ?w) = writer_index b + length bytes"
    using head assms(3) by simp
  moreover have "take (length bytes - ?w) ?extra = ?tail" using extra(1) tail(2) by (simp only:)
  moreover have "length bytes - ?w \<le> EXTRABUF_SIZE" "EXTRABUF_SIZE \<le> length ?extra"
    using tail extra(2) by (simp_all only: order_refl)
  ultimately show thesis using b1 that [of ?b1 ?extra] by blast
qed

lemma read_fd_fits:
  assumes "buf_inv b" "length bytes \<le> writable_bytes b"
  obtains b' where "read_fd b (Inr bytes) = Inr (int (length bytes), None, b')" "buf_inv b'"
    "contents b' = contents b @ bytes" "writer_index b' = writer_index b + length bytes"
proof -
  have "writer_index b + length bytes \<le> length (buf b)"
    using assms by (auto simp: buf_simps buf_inv_def)
  with assms(2) buf_inv_fill [OF assms(1), of bytes] that show thesis
    by (simp add: read_fd_def Let_def)
qed

lemma read_fd_ok:
  assumes "buf_inv b" "length bytes \<le> readv_capacity b"
    "writer_index b + length bytes \<le> vector_max_size"
  obtains b' where "read_fd b (Inr bytes) = Inr (int (length bytes), None, b')" "buf_inv b'"
    "contents b' = contents b @ bytes" "writer_index b' \<le> writer_index b + length bytes"
proof (cases "length bytes \<le> writable_bytes b")
  case True
  with assms(1) show thesis by (rule read_fd_fits) (use that in auto)
next
  case False
  let ?n = "length bytes - writable_bytes b"
  from assms(1,2) False obtain b1 extra where b1: "buf_inv b1"
    "contents b1 = contents b @ take (writable_bytes b) bytes"
    "writer_index b1 + ?n = writer_index b + length bytes"
    "take ?n extra = drop (writable_bytes b) bytes" "?n \<le> EXTRABUF_SIZE" "EXTRABUF_SIZE \<le> length extra"
    "read_fd b (Inr bytes) = bind_res (buffer_append b1 extra ?n) (\<lambda>b'. Inr (int (length bytes), None, b'))"
    by (rule read_fd_overflow)
  have "writer_index b1 + ?n \<le> vector_max_size" "?n \<le> length extra" using b1(3,5,6) assms(3) by simp_all
  with b1(1) obtain b2 where "buffer_append b1 extra ?n = Inr b2" "buf_inv b2"
    "contents b2 = contents b1 @ take ?n extra" "writer_index b2 \<le> writer_index b1 + ?n"
    by (rule buffer_append_ok)
  note b2 = this
  show thesis
  proof (rule that)
    show "read_fd b (Inr bytes) = Inr (int (length bytes), None, b2)" using b1(7) b2(1) by simp
    show "contents b2 = contents b @ bytes" using b2(3) b1(2,4) by simp
    show "writer_index b2 \<le> writer_index b + length bytes" using b2(4) b1(3) by simp
  qed (rule b2(2))
qed

lemma read_fd_ensures:
  assumes "buf_inv b" "length bytes \<le> readv_capacity b"
  shows "ensures (read_fd b (Inr bytes)) (\<lambda>(n, e, b'). n = int (length bytes) \<and> e = None \<and> buf_inv b' \<and>
           contents b' = contents b @ bytes)"
proof (cases "length bytes \<le> writable_bytes b")
  case True
  with assms(1) show ?thesis by (rule read_fd_fits) simp
next
  case False
  let ?n = "length bytes - writable_bytes b"
  from assms False obtain b1 extra where b1: "buf_inv b1"
    "contents b1 = contents b @ take (writable_bytes b) bytes"
    "writer_index b1 + ?n = writer_index b + length bytes"
    "take ?n extra = drop (writable_bytes b) bytes" "?n \<le> EXTRABUF_SIZE" "EXTRABUF_SIZE \<le> length extra"
    "read_fd b (Inr bytes) = bind_res (buffer_append b1 extra ?n) (\<lambda>b'. Inr (int (length bytes), None, b'))"
    by (rule read_fd_overflow)
  have "?n \<le> vector_max_size" "?n \<le> length extra"
    using b1(5,6) by (simp_all add: EXTRABUF_SIZE_def vector_max_size_def)
  from buffer_append_ensures [OF b1(1) this] have
    "ensures (buffer_append b1 extra ?n) (\<lambda>b'. buf_inv b' \<and> contents b' = contents b @ bytes)"
    by (rule ensures_mono) (simp add: b1(2,4))
  then show ?thesis unfolding b1(7) by (rule ensures_bindI) simp
qed

section \<open>Properties\<close>

text \<open>
  C13.  The buffer refines a byte queue: any sequence of appends and retrievals on a well-formed
  buffer whose appended bytes keep the vector below its maximal size runs without an out-of-range
  copy or an exception, keeps the index invariant, and leaves readable exactly the bytes the
  abstract queue holds, whatever mixture of in-place moves and reallocations took place.
\<close>

theorem buffer_refines_queue:
  assumes "buf_inv b" and "writer_index b + pushed ops \<le> vector_max_size"
  shows "\<exists>b'. fold_res buffer_op b ops = Inr b' \<and> buf_inv b' \<and>
           contents b' = foldl bytes_op (contents b) ops \<and> readable_bytes b' = length (contents b')"
  using nbuf.run_refines [OF assms] readable_contents by blast

definition buffer_example :: buffer where
  "buffer_example = \<lparr>buf = replicate 12 NUL, reader_index = 8, writer_index = 8\<rparr>"

lemma buffer_example_inv [simp]: "buf_inv buffer_example"
  by (simp add: buf_inv_def buffer_example_def CHEAP_PREPEND_def vector_max_size_def)

theorem buffer_refines_queue_witness:
  "\<exists>b'. fold_res buffer_op buffer_example [Append ''hello'', Retrieve 3, Append ''abcd'', Retrieve 1] = Inr b' \<and>
     buf_inv b' \<and> contents b' = foldl bytes_op (contents buffer_example)
        [Append ''hello'', Retrieve 3, Append ''abcd'', Retrieve 1] \<and>
     readable_bytes b' = length (contents b')"
  by (rule buffer_refines_queue) (simp_all add: buffer_example_def [THEN arg_cong [of _ _ writer_index]] vector_max_size_def)

text \<open>
  C17.  Reading from a descriptor loses nothing: whatever number of bytes \<^verbatim>\<open>readv\<close> delivers within the
  two regions offered to it, the readable bytes grow by exactly these bytes in order, also when
  they spill into the stack array and the vector has to grow.
\<close>

theorem read_fd_lossless:
  assumes "buf_inv b" and "length bytes \<le> readv_capacity b"
    and "writer_index b + length bytes \<le> vector_max_size"
  shows "\<exists>b'. read_fd b (Inr bytes) = Inr (int (length bytes), None, b') \<and> buf_inv b' \<and>
           contents b' = contents b @ bytes"
  using assms by (rule read_fd_ok) auto

theorem read_fd_lossless_witness:
  "\<exists>b'. read_fd buffer_example (Inr ''0123456789'') = Inr (int (length ''0123456789''), None, b') \<and>
     buf_inv b' \<and> contents b' = contents buffer_example @ ''0123456789''"
  by (rule read_fd_lossless)
    (simp_all, simp_all add: readv_capacity_def Let_def buffer_example_def writable_bytes_def EXTRABUF_SIZE_def
      vector_max_size_def)

text \<open>
  Taking bytes out as a string: for a length within the readable bytes the result is exactly
  their prefix and the rest stays readable; taking everything returns everything and empties the
  buffer.
\<close>

theorem retrieve_as_string_prefix:
  assumes "buf_inv b" and "len \<le> length (contents b)"
  shows "retrieve_as_string b len = Inr (take len (contents b), retrieve b len) \<and>
         contents (retrieve b len) = drop len (contents b) \<and> buf_inv (retrieve b len) \<and>
         retrieve_all_as_string b = Inr (contents b, retrieve_all b)"
proof -
  have w: "reader_index b + length (contents b) = writer_index b"
    using assms(1) by (simp add: contents_def buf_inv_def)
  have str: "retrieve_as_string b n = Inr (take n (contents b), retrieve b n)"
    if "n \<le> length (contents b)" for n
  proof -
    have "reader_index b + n \<le> length (buf b)" using assms(1) w that by (simp add: buf_inv_def)
    moreover have "slice (buf b) (reader_index b) (reader_index b + n) = take n (contents b)"
      using that w by (simp add: contents_def slice_def min_def)
    ultimately show ?thesis by (simp add: retrieve_as_string_def)
  qed
  have "retrieve b (length (contents b)) = retrieve_all b"
    using assms(1) by (simp add: retrieve_def readable_contents)
  with str [of len] str [of "length (contents b)"] assms show ?thesis
    by (simp add: retrieve_all_as_string_def buf_simps inv_intros)
qed

theorem retrieve_as_string_prefix_witness:
  "retrieve_as_string (buffer_example\<lparr>writer_index := 11\<rparr>) 2 =
     Inr (take 2 (contents (buffer_example\<lparr>writer_index := 11\<rparr>)), retrieve (buffer_example\<lparr>writer_index := 11\<rparr>) 2) \<and>
   contents (retrieve (buffer_example\<lparr>writer_index := 11\<rparr>) 2) = drop 2 (contents (buffer_example\<lparr>writer_index := 11\<rparr>)) \<and>
   buf_inv (retrieve (buffer_example\<lparr>writer_index := 11\<rparr>) 2) \<and>
   retrieve_all_as_string (buffer_example\<lparr>writer_index := 11\<rparr>) =
     Inr (contents (buffer_example\<lparr>writer_index := 11\<rparr>), retrieve_all (buffer_example\<lparr>writer_index := 11\<rparr>))"
  by (rule retrieve_as_string_prefix)
    (simp_all add: buffer_example_def buf_inv_def contents_def CHEAP_PREPEND_def vector_max_size_def)

text \<open>
  Asking for more than is readable is not clamped: \<^verbatim>\<open>retrieve_as_string\<close> on a fresh buffer of the
  default size returns bytes nobody wrote, and beyond the end of the vector it reads out of range.
\<close>

theorem retrieve_as_string_overread:
  "\<exists>b. buffer_new INITIAL_SIZE = Inr b \<and> contents b = [] \<and>
       retrieve_as_string b 5 = Inr (replicate 5 NUL, retrieve_all b) \<and>
       retrieve_as_string b 1025 = Inl Out_Of_Bounds"
proof -
  let ?b = "\<lparr>buf = replicate 1032 NUL, reader_index = 8, writer_index = 8\<rparr>"
  have "buffer_new INITIAL_SIZE = Inr ?b"
    by (simp add: buffer_new_def INITIAL_SIZE_def CHEAP_PREPEND_def vector_resize_def vector_max_size_def)
  moreover have "contents ?b = []" by (simp add: contents_def)
  moreover have "retrieve_as_string ?b 5 = Inr (replicate 5 NUL, retrieve_all ?b)"
    by (simp add: retrieve_as_string_def slice_def retrieve_def readable_bytes_def)
  moreover have "retrieve_as_string ?b 1025 = Inl Out_Of_Bounds"
    by (simp add: retrieve_as_string_def)
  ultimately show ?thesis by blast
qed

end
