(* ===== verification/TcpConn.thy ===== *)
theory TcpConn
  imports ELoopPool NetSocket NetBuffer
begin

text \<open>
  TCP connections: \<^verbatim>\<open>include/net/tcp_conn.h\<close> and \<^verbatim>\<open>src/net/tcp_conn.cpp\<close>.  A connection owns a socket and
  a channel, lives on one event loop, and buffers what the kernel does not take at once.  Its
  operations act on a state that holds the loops, the connections, the socket calls made and the
  strings the application owns; the operating system and the application are parameters.
\<close>

section \<open>State\<close>

type_synonym conn_ptr = nat

text \<open>
  What is handed to a loop with \<^verbatim>\<open>queue_in_loop\<close> or \<^verbatim>\<open>run_in_loop\<close>.  The functor of a send holds the
  address of the caller's string and its size, not the bytes.
\<close>

datatype loop_functor =
    F_send_in_loop conn_ptr nat nat
  | F_shutdown_in_loop conn_ptr
  | F_write_complete conn_ptr
  | F_high_water_mark conn_ptr nat
  | F_establish_conn conn_ptr
  | F_destroy_conn conn_ptr
  | F_remove_conn_in_loop conn_ptr
  | F_acceptor_listen

datatype conn_state = DISCONNECTED | CONNENTING | CONNECTED | DISCONNENTING

primrec conn_state_value :: "conn_state \<Rightarrow> int" where
  "conn_state_value DISCONNECTED = 0"
| "conn_state_value CONNENTING = 1"
| "conn_state_value CONNECTED = 2"
| "conn_state_value DISCONNENTING = 3"

text \<open>
  Callbacks are present or not; what they do is the application's.  The last four fields are not
  in the code: the bytes the kernel took, the bytes of all messages that were accepted, and the
  numbers of \<^verbatim>\<open>write\<close> and \<^verbatim>\<open>readv\<close> calls.
\<close>

record tcp_conn =
  tc_loop :: loop_ptr
  tc_id :: "32 word"
  tc_name :: string
  tc_state :: conn_state
  tc_reading :: bool
  tc_sockfd :: fd
  tc_ch :: chan_ptr
  tc_local_addr :: sockaddr_in
  tc_peer_addr :: sockaddr_in
  tc_conn_callback :: bool
  tc_msg_callback :: bool
  tc_write_complete_callback :: bool
  tc_close_callback :: bool
  tc_high_water_mark_callback :: bool
  tc_high_water_mark :: nat
  tc_input_buf :: buffer
  tc_output_buf :: buffer
  tc_wire :: string
  tc_accepted :: string
  tc_received :: string
  tc_writes :: nat
  tc_reads :: nat

record net =
  n_loops :: "loop_ptr \<Rightarrow> loop_functor eloop"
  n_conns :: "conn_ptr \<rightharpoonup> tcp_conn"
  n_strings :: "nat \<rightharpoonup> string"
  n_socks :: sock_trace
  n_calls :: "(conn_ptr \<times> string) list"      \<comment> \<open>callbacks of the application, in order\<close>

text \<open>
  The operating system: \<open>k_write c n d\<close> is the outcome of the \<open>n\<close>-th \<^verbatim>\<open>write\<close> on connection \<open>c\<close>,
  offering \<open>d\<close>, and \<open>k_read c n m\<close> that of the \<open>n\<close>-th \<^verbatim>\<open>readv\<close>, with room for \<open>m\<close> bytes; the others give the results of \<^verbatim>\<open>shutdown\<close>, of \<^verbatim>\<open>getsockopt(SO_ERROR)\<close>, the texts of
  \<^verbatim>\<open>strerror\<close>, the results of the calls on listening and new sockets, and the text form of addresses.
\<close>

record os =
  k_ctl :: epoll_ctl
  k_eventfd :: eventfd
  k_write :: "conn_ptr \<Rightarrow> nat \<Rightarrow> string \<Rightarrow> errno + nat"
  k_read :: "conn_ptr \<Rightarrow> nat \<Rightarrow> nat \<Rightarrow> errno + string"
  k_shutdown :: "conn_ptr \<Rightarrow> int"
  k_so_error :: "conn_ptr \<Rightarrow> errno + errno"
  k_strerror :: "errno \<Rightarrow> string"
  k_setsockopt :: "fd \<Rightarrow> int \<Rightarrow> int"                  \<comment> \<open>by descriptor and option\<close>
  k_bind :: "fd \<Rightarrow> int"
  k_listen :: "fd \<Rightarrow> int"
  k_accept :: "nat \<Rightarrow> errno + (fd \<times> sockaddr_in)"      \<comment> \<open>the \<open>n\<close>-th \<^verbatim>\<open>accept4\<close>\<close>
  k_getsockname :: "fd \<Rightarrow> errno + sockaddr_in"
  k_pton :: "string \<Rightarrow> 32 word option"
  k_ntop :: "32 word \<Rightarrow> string"

text \<open>
  The application: what its callbacks do with the connection they are given, in the loop's thread.
\<close>

datatype action = A_send nat string | A_shutdown | A_retrieve nat

record app =
  a_conn :: "conn_ptr \<Rightarrow> conn_state \<Rightarrow> action list"
  a_msg :: "conn_ptr \<Rightarrow> string \<Rightarrow> action list"
  a_write_complete :: "conn_ptr \<Rightarrow> action list"
  a_high_water_mark :: "conn_ptr \<Rightarrow> nat \<Rightarrow> action list"

definition EWOULDBLOCK :: errno where "EWOULDBLOCK = 11"
definition EPIPE :: errno where "EPIPE = 32"
definition ECONNRESET :: errno where "ECONNRESET = 104"

section \<open>Access to the parts of the state\<close>

definition net_log :: "loglevel \<Rightarrow> string \<Rightarrow> 'z net_scheme \<Rightarrow> 'z net_scheme" where
  "net_log lv s w = w\<lparr>n_socks := add_log lv s (n_socks w)\<rparr>"

definition put_conn :: "conn_ptr \<Rightarrow> tcp_conn \<Rightarrow> 'z net_scheme \<Rightarrow> 'z net_scheme" where
  "put_conn ptr c w = w\<lparr>n_conns := (n_conns w)(ptr \<mapsto> c)\<rparr>"

definition on_loop ::
    "loop_ptr \<Rightarrow> (loop_functor eloop \<Rightarrow> loop_functor eloop result) \<Rightarrow> 'z net_scheme \<Rightarrow> 'z net_scheme result" where
  "on_loop i f w = bind_res (f (n_loops w i)) (\<lambda>l. Inr (w\<lparr>n_loops := (n_loops w)(i := l)\<rparr>))"

definition net_queue :: "os \<Rightarrow> tid \<Rightarrow> loop_ptr \<Rightarrow> loop_functor \<Rightarrow> 'z net_scheme \<Rightarrow> 'z net_scheme" where
  "net_queue k cur i f w =
     w\<lparr>n_loops := (n_loops w)(i := eloop_queue_in_loop (k_eventfd k) cur f (n_loops w i))\<rparr>"

text \<open>The connection behind a pointer, together with its channel.\<close>

definition with_conn :: "conn_ptr \<Rightarrow> 'z net_scheme \<Rightarrow> (tcp_conn \<Rightarrow> chan \<Rightarrow> 'a result) \<Rightarrow> 'a result" where
  "with_conn ptr w f =
     (case n_conns w ptr of
        None \<Rightarrow> Inl Null_Deref
      | Some c \<Rightarrow>
          (case el_chans (n_loops w (tc_loop c)) (tc_ch c) of
             None \<Rightarrow> Inl Null_Deref
           | Some ch \<Rightarrow> f c ch))"

definition conn_mask :: "os \<Rightarrow> mask_op \<Rightarrow> tcp_conn \<Rightarrow> 'z net_scheme \<Rightarrow> 'z net_scheme result" where
  "conn_mask k m c w = on_loop (tc_loop c) (chan_set_mask (k_ctl k) m (tc_ch c)) w"

section \<open>Construction and destruction\<close>

text \<open>
  Construction of a connection on loop \<open>loop\<close>, none if the pointer is null; \<open>cptr\<close> is the address of
  the new channel and \<open>ret\<close> the result of \<^verbatim>\<open>setsockopt(SO_KEEPALIVE)\<close>.
\<close>

definition check_loop_not_null :: "loop_ptr option \<Rightarrow> loop_ptr result" where
  "check_loop_not_null loop = (case loop of None \<Rightarrow> Inl Aborted | Some l \<Rightarrow> Inr l)"

definition tcp_conn_new ::
    "loop_ptr option \<Rightarrow> 32 word \<Rightarrow> string \<Rightarrow> fd \<Rightarrow> sockaddr_in \<Rightarrow> sockaddr_in \<Rightarrow> conn_ptr \<Rightarrow> chan_ptr \<Rightarrow> int \<Rightarrow>
       'z net_scheme \<Rightarrow> 'z net_scheme result" where
  "tcp_conn_new loop cid name sockfd local_addr peer_addr ptr cptr ret w =
     bind_res (check_loop_not_null loop) (\<lambda>i.
     bind_res (buffer_new INITIAL_SIZE) (\<lambda>b.
     let ch = (chan_new sockfd)\<lparr>ch_read_callback := Some (Conn_handle_read ptr),
                ch_write_callback := Some (Conn_handle_write ptr),
                ch_close_callback := Some (Conn_handle_close ptr),
                ch_error_callback := Some (Conn_handle_error ptr)\<rparr>;
         c = \<lparr>tc_loop = i, tc_id = cid, tc_name = name, tc_state = CONNENTING, tc_reading = True,
              tc_sockfd = sockfd, tc_ch = cptr, tc_local_addr = local_addr, tc_peer_addr = peer_addr,
              tc_conn_callback = False, tc_msg_callback = False, tc_write_complete_callback = False,
              tc_close_callback = False, tc_high_water_mark_callback = False,
              tc_high_water_mark = 64 * 1024 * 1024, tc_input_buf = b, tc_output_buf = b,
              tc_wire = [], tc_accepted = [], tc_received = [], tc_writes = 0, tc_reads = 0\<rparr>;
         w1 = put_conn ptr c (w\<lparr>n_loops := (n_loops w)(i := (n_loops w i)\<lparr>el_chans := (el_chans (n_loops w i))(cptr \<mapsto> ch)\<rparr>)\<rparr>);
         w2 = net_log INFO (''tcp_conn created ['' @ c_str name @ ''] fd='' @ dec_int sockfd) w1
     in Inr (w2\<lparr>n_socks := socket_set_keep_alive sockfd True ret (n_socks w2)\<rparr>)))"

definition tcp_conn_delete :: "conn_ptr \<Rightarrow> 'z net_scheme \<Rightarrow> 'z net_scheme result" where
  "tcp_conn_delete ptr w =
     with_conn ptr w (\<lambda>c ch.
     let w1 = net_log INFO (''tcp_conn destroyed ['' @ c_str (tc_name c) @ ''] fd='' @ dec_int (ch_fd ch) @
                '' state='' @ dec_int (conn_state_value (tc_state c))) w;
         l = n_loops w1 (tc_loop c) in
     Inr (w1\<lparr>n_conns := (n_conns w1)(ptr := None),
             n_loops := (n_loops w1)(tc_loop c := l\<lparr>el_chans := (el_chans l)(tc_ch c := None)\<rparr>),
             n_socks := socket_destroy (tc_sockfd c) (n_socks w1)\<rparr>))"

definition set_high_water_mark_callback :: "conn_ptr \<Rightarrow> nat \<Rightarrow> 'z net_scheme \<Rightarrow> 'z net_scheme result" where
  "set_high_water_mark_callback ptr mark w =
     with_conn ptr w (\<lambda>c ch.
     Inr (put_conn ptr (c\<lparr>tc_high_water_mark_callback := True, tc_high_water_mark := mark\<rparr>) w))"

section \<open>Sending\<close>

text \<open>
  The first half of \<^verbatim>\<open>send_in_loop\<close>: with nothing buffered the data is offered to the kernel at once.
  The result is \<^verbatim>\<open>nwrote\<close>, \<^verbatim>\<open>remaining\<close>, \<^verbatim>\<open>fault_occurred\<close> and the new state.
\<close>

definition send_write ::
    "os \<Rightarrow> tid \<Rightarrow> conn_ptr \<Rightarrow> string \<Rightarrow> tcp_conn \<Rightarrow> chan \<Rightarrow> 'z net_scheme \<Rightarrow>
       nat \<times> nat \<times> bool \<times> 'z net_scheme" where
  "send_write k cur ptr data c ch w =
     (if \<not> is_writing ch \<and> readable_bytes (tc_output_buf c) = 0 then
        (let c1 = c\<lparr>tc_writes := tc_writes c + 1\<rparr> in
         case k_write k ptr (tc_writes c) data of
           Inr n \<Rightarrow>
             (let remaining = size_sub (length data) n;
                  w1 = put_conn ptr (c1\<lparr>tc_wire := tc_wire c @ take n data\<rparr>) w in
              (n, remaining, False,
               if remaining = 0 \<and> tc_write_complete_callback c
               then net_queue k cur (tc_loop c) (F_write_complete ptr) w1 else w1))
         | Inl e \<Rightarrow>
             (0, length data, e \<noteq> EWOULDBLOCK \<and> (e = EPIPE \<or> e = ECONNRESET),
              if e \<noteq> EWOULDBLOCK
              then net_log ERROR (''write error: '' @ k_strerror k e) (put_conn ptr c1 w)
              else put_conn ptr c1 w))
      else (0, length data, False, w))"

text \<open>The second half: what is left goes to the output buffer, and write events are asked for.\<close>

definition send_rest ::
    "os \<Rightarrow> tid \<Rightarrow> conn_ptr \<Rightarrow> string \<Rightarrow> nat \<Rightarrow> nat \<Rightarrow> 'z net_scheme \<Rightarrow> 'z net_scheme result" where
  "send_rest k cur ptr data nwrote remaining w =
     with_conn ptr w (\<lambda>c ch.
     let old_len = readable_bytes (tc_output_buf c);
         w1 = (if size_add old_len remaining \<ge> tc_high_water_mark c \<and> old_len < tc_high_water_mark c \<and>
                  tc_high_water_mark_callback c
               then net_queue k cur (tc_loop c) (F_high_water_mark ptr (size_add old_len remaining)) w
               else w) in
     bind_res (buffer_append (tc_output_buf c) (drop nwrote data) remaining) (\<lambda>b.
     let w2 = put_conn ptr (c\<lparr>tc_output_buf := b\<rparr>) w1 in
     if \<not> is_writing ch then conn_mask k Enable_Writing c w2 else Inr w2))"

text \<open>A message counts as accepted unless the connection is closed or the write found the peer gone.\<close>

definition send_in_loop :: "os \<Rightarrow> tid \<Rightarrow> conn_ptr \<Rightarrow> string \<Rightarrow> 'z net_scheme \<Rightarrow> 'z net_scheme result" where
  "send_in_loop k cur ptr data w =
     with_conn ptr w (\<lambda>c ch.
     if tc_state c = DISCONNECTED then Inr (net_log WARN ''conn already closed, abort sending'' w)
     else
       (case send_write k cur ptr data c ch w of (nwrote, remaining, fault_occurred, w1) \<Rightarrow>
        let w2 = (if fault_occurred then w1
                  else (case n_conns w1 ptr of None \<Rightarrow> w1
                        | Some c1 \<Rightarrow> put_conn ptr (c1\<lparr>tc_accepted := tc_accepted c @ data\<rparr>) w1)) in
        if \<not> fault_occurred \<and> remaining > 0 then send_rest k cur ptr data nwrote remaining w2
        else Inr w2))"

text \<open>
  \<^verbatim>\<open>send\<close> of the string at address \<open>addr\<close>, whose bytes are \<open>data\<close> at the time of the call; the functor
  reads the bytes that are there when it runs.
\<close>

definition tcp_conn_send :: "os \<Rightarrow> tid \<Rightarrow> conn_ptr \<Rightarrow> nat \<Rightarrow> string \<Rightarrow> 'z net_scheme \<Rightarrow> 'z net_scheme result" where
  "tcp_conn_send k cur ptr addr data w =
     with_conn ptr w (\<lambda>c ch.
     if tc_state c = CONNECTED then
       (if eloop_is_in_loop_thread cur (n_loops w (tc_loop c)) then send_in_loop k cur ptr data w
        else Inr (net_queue k cur (tc_loop c) (F_send_in_loop ptr addr (length data)) w))
     else Inr w)"

definition run_send_functor :: "os \<Rightarrow> tid \<Rightarrow> conn_ptr \<Rightarrow> nat \<Rightarrow> nat \<Rightarrow> 'z net_scheme \<Rightarrow> 'z net_scheme result" where
  "run_send_functor k cur ptr addr len w =
     (case n_strings w addr of
        None \<Rightarrow> Inl Out_Of_Bounds
      | Some s \<Rightarrow> if len \<le> length s then send_in_loop k cur ptr (take len s) w else Inl Out_Of_Bounds)"

definition shutdown_in_loop :: "os \<Rightarrow> conn_ptr \<Rightarrow> 'z net_scheme \<Rightarrow> 'z net_scheme result" where
  "shutdown_in_loop k ptr w =
     with_conn ptr w (\<lambda>c ch.
     Inr (if \<not> is_writing ch
          then w\<lparr>n_socks := socket_shutdown_write (tc_sockfd c) (k_shutdown k ptr) (n_socks w)\<rparr> else w))"

definition tcp_conn_shutdown :: "os \<Rightarrow> tid \<Rightarrow> conn_ptr \<Rightarrow> 'z net_scheme \<Rightarrow> 'z net_scheme result" where
  "tcp_conn_shutdown k cur ptr w =
     with_conn ptr w (\<lambda>c ch.
     if tc_state c = CONNECTED then
       (let w1 = put_conn ptr (c\<lparr>tc_state := DISCONNENTING\<rparr>) w in
        if eloop_is_in_loop_thread cur (n_loops w1 (tc_loop c)) then shutdown_in_loop k ptr w1
        else Inr (net_queue k cur (tc_loop c) (F_shutdown_in_loop ptr) w1))
     else Inr w)"

section \<open>Callbacks of the application\<close>

text \<open>\<^verbatim>\<open>buffer::retrieve\<close> by the application works on the input buffer its callback was given.\<close>

fun run_action :: "os \<Rightarrow> tid \<Rightarrow> conn_ptr \<Rightarrow> 'z net_scheme \<Rightarrow> action \<Rightarrow> 'z net_scheme result" where
  "run_action k cur ptr w (A_send addr data) = tcp_conn_send k cur ptr addr data w"
| "run_action k cur ptr w A_shutdown = tcp_conn_shutdown k cur ptr w"
| "run_action k cur ptr w (A_retrieve n) =
     with_conn ptr w (\<lambda>c ch. Inr (put_conn ptr (c\<lparr>tc_input_buf := retrieve (tc_input_buf c) n\<rparr>) w))"

definition run_callback ::
    "os \<Rightarrow> tid \<Rightarrow> conn_ptr \<Rightarrow> string \<Rightarrow> bool \<Rightarrow> action list \<Rightarrow> 'z net_scheme \<Rightarrow> 'z net_scheme result" where
  "run_callback k cur ptr what present acts w =
     (if present then fold_res (run_action k cur ptr) (w\<lparr>n_calls := n_calls w @ [(ptr, what)]\<rparr>) acts
      else Inr w)"

definition run_conn_callback :: "os \<Rightarrow> app \<Rightarrow> tid \<Rightarrow> conn_ptr \<Rightarrow> 'z net_scheme \<Rightarrow> 'z net_scheme result" where
  "run_conn_callback k a cur ptr w =
     with_conn ptr w (\<lambda>c ch.
     run_callback k cur ptr ''conn'' (tc_conn_callback c) (a_conn a ptr (tc_state c)) w)"

section \<open>Life cycle and events\<close>

definition establish_conn :: "os \<Rightarrow> app \<Rightarrow> tid \<Rightarrow> conn_ptr \<Rightarrow> 'z net_scheme \<Rightarrow> 'z net_scheme result" where
  "establish_conn k a cur ptr w =
     with_conn ptr w (\<lambda>c ch.
     let l = n_loops w (tc_loop c);
         w1 = put_conn ptr (c\<lparr>tc_state := CONNECTED\<rparr>)
                (w\<lparr>n_loops := (n_loops w)(tc_loop c :=
                     l\<lparr>el_chans := (el_chans l)(tc_ch c \<mapsto> chan_tie ch ptr)\<rparr>)\<rparr>) in
     bind_res (conn_mask k Enable_Reading c w1) (\<lambda>w2. run_conn_callback k a cur ptr w2))"

definition destroy_conn :: "os \<Rightarrow> app \<Rightarrow> tid \<Rightarrow> conn_ptr \<Rightarrow> 'z net_scheme \<Rightarrow> 'z net_scheme result" where
  "destroy_conn k a cur ptr w =
     with_conn ptr w (\<lambda>c ch.
     bind_res
       (if tc_state c = CONNECTED then
          bind_res (conn_mask k Disable_All c (put_conn ptr (c\<lparr>tc_state := DISCONNECTED\<rparr>) w))
            (\<lambda>w1. run_conn_callback k a cur ptr w1)
        else Inr w)
       (\<lambda>w2. on_loop (tc_loop c) (chan_remove (k_ctl k) (tc_ch c)) w2))"

text \<open>\<open>close_cb\<close> is what the owner of the connection installed with \<^verbatim>\<open>set_close_callback\<close>.\<close>

definition handle_close ::
    "os \<Rightarrow> app \<Rightarrow> (tid \<Rightarrow> conn_ptr \<Rightarrow> 'z net_scheme \<Rightarrow> 'z net_scheme result) \<Rightarrow> tid \<Rightarrow> conn_ptr \<Rightarrow>
       'z net_scheme \<Rightarrow> 'z net_scheme result" where
  "handle_close k a close_cb cur ptr w =
     with_conn ptr w (\<lambda>c ch.
     let w1 = net_log INFO (''closing conn ['' @ c_str (tc_name c) @ ''] fd='' @ dec_int (ch_fd ch)) w in
     bind_res (conn_mask k Disable_All c (put_conn ptr (c\<lparr>tc_state := DISCONNECTED\<rparr>) w1)) (\<lambda>w2.
     bind_res (run_conn_callback k a cur ptr w2) (\<lambda>w3.
     if tc_close_callback c then close_cb cur ptr w3 else Inr w3)))"

definition handle_error :: "os \<Rightarrow> conn_ptr \<Rightarrow> 'z net_scheme \<Rightarrow> 'z net_scheme result" where
  "handle_error k ptr w =
     with_conn ptr w (\<lambda>c ch.
     let err = (case k_so_error k ptr of Inl e \<Rightarrow> e | Inr e \<Rightarrow> e) in
     Inr (net_log ERROR (''conn ['' @ c_str (tc_name c) @ ''] error: '' @ k_strerror k err) w))"

text \<open>The bytes that the outcome of a \<^verbatim>\<open>readv\<close> brings, for the history of what was received.\<close>

definition bytes_read :: "errno + string \<Rightarrow> string" where
  "bytes_read outcome = (case outcome of Inl e \<Rightarrow> [] | Inr d \<Rightarrow> d)"

lemma bytes_read_simps [simp]: "bytes_read (Inl e) = []" "bytes_read (Inr d) = d"
  by (simp_all add: bytes_read_def)

definition handle_read ::
    "os \<Rightarrow> app \<Rightarrow> (tid \<Rightarrow> conn_ptr \<Rightarrow> 'z net_scheme \<Rightarrow> 'z net_scheme result) \<Rightarrow> tid \<Rightarrow> conn_ptr \<Rightarrow>
       'z net_scheme \<Rightarrow> 'z net_scheme result" where
  "handle_read k a close_cb cur ptr w =
     with_conn ptr w (\<lambda>c ch.
     bind_res (read_fd (tc_input_buf c) (k_read k ptr (tc_reads c) (readv_capacity (tc_input_buf c))))
       (\<lambda>(n, saved_errno, b).
     let w1 = put_conn ptr (c\<lparr>tc_reads := tc_reads c + 1, tc_input_buf := b,
                              tc_received := tc_received c @ bytes_read (k_read k ptr (tc_reads c) (readv_capacity (tc_input_buf c)))\<rparr>) w in
     if n > 0 then run_callback k cur ptr ''msg'' (tc_msg_callback c) (a_msg a ptr (contents b)) w1
     else if n = 0 then handle_close k a close_cb cur ptr w1
     else handle_error k ptr
            (net_log ERROR (''read error: '' @ k_strerror k (case saved_errno of Some e \<Rightarrow> e | None \<Rightarrow> 0)) w1)))"

definition handle_write :: "os \<Rightarrow> tid \<Rightarrow> conn_ptr \<Rightarrow> 'z net_scheme \<Rightarrow> 'z net_scheme result" where
  "handle_write k cur ptr w =
     with_conn ptr w (\<lambda>c ch.
     if is_writing ch then
       (let data = peek (tc_output_buf c) (readable_bytes (tc_output_buf c));
            outcome = k_write k ptr (tc_writes c) data;
            (n, saved_errno) = write_fd (tc_output_buf c) outcome;
            c1 = c\<lparr>tc_writes := tc_writes c + 1\<rparr> in
        if n > 0 then
          (let b = retrieve (tc_output_buf c) (nat n);
               w1 = put_conn ptr (c1\<lparr>tc_output_buf := b, tc_wire := tc_wire c @ take (nat n) data\<rparr>) w in
           if readable_bytes b = 0 then
             bind_res (conn_mask k Disable_Writing c w1) (\<lambda>w2.
             let w3 = (if tc_write_complete_callback c
                       then net_queue k cur (tc_loop c) (F_write_complete ptr) w2 else w2) in
             if tc_state c = DISCONNENTING then shutdown_in_loop k ptr w3 else Inr w3)
           else Inr w1)
        else Inr (net_log ERROR (''write error: '' @
                    k_strerror k (case saved_errno of Some e \<Rightarrow> e | None \<Rightarrow> 0)) (put_conn ptr c1 w)))
     else Inr (net_log WARN (''conn fd='' @ dec_int (ch_fd ch) @ '' is closing'') w))"

section \<open>A concrete system\<close>

text \<open>A kernel that takes every byte and a loop with an empty poller, for the concrete instances below.\<close>

definition os_example :: os where
  "os_example = \<lparr>k_ctl = ctl_manual, k_eventfd = eventfd_manual, k_write = (\<lambda>_ _ d. Inr (length d)),
     k_read = (\<lambda>_ _ _. Inr []), k_shutdown = (\<lambda>_. 0), k_so_error = (\<lambda>_. Inr 0), k_strerror = (\<lambda>_. []),
     k_setsockopt = (\<lambda>_ _. 0), k_bind = (\<lambda>_. 0), k_listen = (\<lambda>_. 0), k_accept = (\<lambda>_. Inl 11),
     k_getsockname = (\<lambda>_. Inr sockaddr_zero), k_pton = (\<lambda>_. None), k_ntop = (\<lambda>_. [])\<rparr>"

definition loop_example :: "loop_functor eloop" where
  "loop_example = \<lparr>el_looping = False, el_quit = False, el_calling_pending_functors = False,
     el_thread_id = 7, el_poller = Some poller_example, el_wakeup_fd = 4, el_wakeup_ch = 0,
     el_active_chs = [], el_pending_functors = [], el_chans = Map.empty, el_eventfd = 0, el_log = []\<rparr>"

definition net_example :: net where
  "net_example = \<lparr>n_loops = (\<lambda>_. loop_example), n_conns = Map.empty, n_strings = Map.empty,
     n_socks = \<lparr>st_calls = [], st_log = []\<rparr>, n_calls = []\<rparr>"

definition app_example :: app where
  "app_example = \<lparr>a_conn = (\<lambda>_ _. []), a_msg = (\<lambda>_ s. [A_retrieve (length s), A_send 1 s]),
     a_write_complete = (\<lambda>_. []), a_high_water_mark = (\<lambda>_ _. [])\<rparr>"

end
