(* ===== verification/TcpStream.thy ===== *)
theory TcpStream
  imports TcpConn "HOL-Library.Sublist"
begin

text \<open>
  Correctness of connections as byte streams: what is accepted for sending is what the kernel took
  followed by what is still buffered, in order; write events are asked for exactly while something is
  buffered; nothing the handlers do reaches a dangling pointer.  The owner of a connection, which the
  close callback calls, is an interface.
\<close>

section \<open>Invariant\<close>

definition conn_at :: "'z net_scheme \<Rightarrow> conn_ptr \<Rightarrow> tcp_conn \<Rightarrow> chan \<Rightarrow> bool" where
  "conn_at w ptr c ch \<longleftrightarrow> n_conns w ptr = Some c \<and>
     el_chans (n_loops w (tc_loop c)) (tc_ch c) = Some ch \<and> el_poller (n_loops w (tc_loop c)) \<noteq> None"

text \<open>What the input buffer holds are the latest bytes the kernel delivered, in order.\<close>

abbreviation input_inv :: "tcp_conn \<Rightarrow> bool" where
  "input_inv c \<equiv> buf_inv (tc_input_buf c) \<and> suffix (contents (tc_input_buf c)) (tc_received c)"

definition conn_inv :: "tcp_conn \<Rightarrow> bool \<Rightarrow> bool" where
  "conn_inv c writing \<longleftrightarrow>
     input_inv c \<and> buf_inv (tc_output_buf c) \<and>
     tc_wire c @ contents (tc_output_buf c) = tc_accepted c \<and>
     (tc_state c = DISCONNECTED \<longrightarrow> \<not> writing) \<and>
     (tc_state c \<noteq> DISCONNECTED \<longrightarrow> writing = (contents (tc_output_buf c) \<noteq> []))"

lemma suffix_extend: "suffix xs ys \<Longrightarrow> suffix (xs @ zs) (ys @ zs)"
  by (auto simp: suffix_def)

lemma suffix_retrieve: "buf_inv b \<Longrightarrow> suffix (contents b) ys \<Longrightarrow> suffix (contents (retrieve b n)) ys"
  by (simp add: contents_retrieve suffix_order.trans [OF suffix_drop])

text \<open>A sound connection at a given place: its loop and the address of its channel.\<close>

definition conn_ok :: "loop_ptr \<times> chan_ptr \<Rightarrow> 'z net_scheme \<Rightarrow> conn_ptr \<Rightarrow> bool" where
  "conn_ok loc w ptr \<longleftrightarrow>
     (\<exists>c ch. conn_at w ptr c ch \<and> conn_inv c (is_writing ch) \<and> loc = (tc_loop c, tc_ch c))"

text \<open>
  What the manual says of \<^verbatim>\<open>write\<close> and \<^verbatim>\<open>readv\<close>: they never take more bytes than they were offered,
  nor deliver more than there is room for.
\<close>

definition io_documented :: "os \<Rightarrow> bool" where
  "io_documented k \<longleftrightarrow> (\<forall>ptr n d m. k_write k ptr n d = Inr m \<longrightarrow> m \<le> length d) \<and>
     (\<forall>ptr n m s. k_read k ptr n m = Inr s \<longrightarrow> length s \<le> m)"

text \<open>No string is longer than the memory can hold.\<close>

definition sendable :: "action \<Rightarrow> bool" where
  "sendable a = (case a of A_send addr data \<Rightarrow> length data \<le> vector_max_size | _ \<Rightarrow> True)"

section \<open>Access\<close>

lemma with_conn_at [simp]: "conn_at w ptr c ch \<Longrightarrow> with_conn ptr w f = f c ch"
  by (simp add: conn_at_def with_conn_def)

lemma conn_at_put:
  "conn_at w ptr c ch \<Longrightarrow> tc_loop c' = tc_loop c \<Longrightarrow> tc_ch c' = tc_ch c \<Longrightarrow>
     conn_at (put_conn ptr c' w) ptr c' ch"
  by (simp add: conn_at_def put_conn_def)

lemma conn_at_log [simp]: "conn_at (net_log lv s w) ptr c ch = conn_at w ptr c ch"
  by (simp add: conn_at_def net_log_def)

lemma conn_at_socks [simp]: "conn_at (w\<lparr>n_socks := t\<rparr>) ptr c ch = conn_at w ptr c ch"
  by (simp add: conn_at_def)

lemma conn_at_calls [simp]: "conn_at (w\<lparr>n_calls := t\<rparr>) ptr c ch = conn_at w ptr c ch"
  by (simp add: conn_at_def)

lemma queue_in_loop_frame [simp]:
  "el_chans (eloop_queue_in_loop E cur f l) = el_chans l"
  "el_poller (eloop_queue_in_loop E cur f l) = el_poller l"
  "el_thread_id (eloop_queue_in_loop E cur f l) = el_thread_id l"
  by (simp_all add: eloop_queue_in_loop_def eloop_push_def Let_def)

lemma net_queue_frame [simp]:
  "n_conns (net_queue k cur i f w) = n_conns w"
  "n_socks (net_queue k cur i f w) = n_socks w"
  "el_chans (n_loops (net_queue k cur i f w) j) = el_chans (n_loops w j)"
  "el_poller (n_loops (net_queue k cur i f w) j) = el_poller (n_loops w j)"
  by (simp_all add: net_queue_def)

lemma conn_at_queue [simp]: "conn_at (net_queue k cur i f w) ptr c ch = conn_at w ptr c ch"
  by (simp add: conn_at_def)

lemma update_chan_events [simp]:
  "epoll_update_chan K p ptr ch = (ch', p') \<Longrightarrow> is_writing ch' = is_writing ch"
  by (auto simp: epoll_update_chan_def Let_def is_writing_def split: if_splits)

text \<open>Changing the event mask of a live channel always succeeds and touches nothing else.\<close>

lemma conn_mask_at:
  assumes "conn_at w ptr c0 ch" "tc_loop c = tc_loop c0" "tc_ch c = tc_ch c0"
  obtains w' ch' where "conn_mask k m c w = Inr w'" "conn_at w' ptr c0 ch'"
    "is_writing ch' = is_writing (chan_mask m ch)" "n_socks w' = n_socks w" "n_conns w' = n_conns w"
proof -
  obtain p where p: "el_poller (n_loops w (tc_loop c0)) = Some p" using assms(1) by (auto simp: conn_at_def)
  obtain ch' p' where up: "epoll_update_chan (k_ctl k) p (tc_ch c0) (chan_mask m ch) = (ch', p')"
    by fastforce
  let ?l = "n_loops w (tc_loop c0)"
  let ?w = "w\<lparr>n_loops := (n_loops w)(tc_loop c0 := ?l\<lparr>el_poller := Some p', el_chans := (el_chans ?l)(tc_ch c0 \<mapsto> ch')\<rparr>)\<rparr>"
  have "conn_mask k m c w = Inr ?w"
    using assms p up by (simp add: conn_mask_def on_loop_def chan_set_mask_def eloop_update_chan_def
        eloop_poller_call_def conn_at_def)
  moreover have "conn_at ?w ptr c0 ch'" using assms(1) by (simp add: conn_at_def)
  ultimately show thesis using that update_chan_events [OF up] by simp
qed

lemma conn_ok_put:
  "conn_at w ptr c ch \<Longrightarrow> tc_loop c' = tc_loop c \<Longrightarrow> tc_ch c' = tc_ch c \<Longrightarrow>
     conn_inv c' (is_writing ch) \<Longrightarrow> loc = (tc_loop c, tc_ch c) \<Longrightarrow> conn_ok loc (put_conn ptr c' w) ptr"
  using conn_at_put by (fastforce simp: conn_ok_def)

lemma conn_ok_frame [simp]:
  "conn_ok loc (net_log lv s w) ptr = conn_ok loc w ptr"
  "conn_ok loc (w\<lparr>n_socks := t\<rparr>) ptr = conn_ok loc w ptr"
  "conn_ok loc (w\<lparr>n_calls := t'\<rparr>) ptr = conn_ok loc w ptr"
  "conn_ok loc (net_queue k cur i f w) ptr = conn_ok loc w ptr"
  by (simp_all add: conn_ok_def)

text \<open>Whatever \<^verbatim>\<open>readv\<close> does, the buffer stays sound.\<close>

lemma read_fd_keeps:
  assumes "buf_inv b" "io_documented k"
  shows "ensures (read_fd b (k_read k ptr n (readv_capacity b)))
    (\<lambda>(n', e, b'). buf_inv b' \<and> contents b' = contents b @ bytes_read (k_read k ptr n (readv_capacity b)))"
proof (cases "k_read k ptr n (readv_capacity b)")
  case (Inl e)
  then show ?thesis using assms(1) by (simp add: read_fd_def)
next
  case (Inr bytes)
  then have "length bytes \<le> readv_capacity b" using assms(2) by (auto simp: io_documented_def)
  from read_fd_ensures [OF assms(1) this] Inr show ?thesis by (auto elim: ensures_mono)
qed

section \<open>Sending\<close>

text \<open>The kernel reports that the peer is gone when the connection offers \<open>data\<close>.\<close>

definition peer_gone :: "os \<Rightarrow> conn_ptr \<Rightarrow> tcp_conn \<Rightarrow> string \<Rightarrow> bool" where
  "peer_gone k ptr c data \<longleftrightarrow> k_write k ptr (tc_writes c) data \<in> {Inl EPIPE, Inl ECONNRESET}"

text \<open>
  The direct write: it happens only with nothing buffered, and the wire grows by what the kernel
  took; a fault takes nothing.
\<close>

lemma send_write_at:
  assumes "io_documented k" "length data \<le> vector_max_size" "conn_at w ptr c ch" "buf_inv (tc_output_buf c)"
  obtains nwrote fault w1 n where
    "send_write k cur ptr data c ch w = (nwrote, length data - nwrote, fault, w1)"
    "conn_at w1 ptr (c\<lparr>tc_writes := n, tc_wire := tc_wire c @ take nwrote data\<rparr>) ch"
    "nwrote \<le> length data" "fault \<longrightarrow> nwrote = 0 \<and> peer_gone k ptr c data"
    "nwrote = 0 \<or> contents (tc_output_buf c) = []"
proof (cases "\<not> is_writing ch \<and> readable_bytes (tc_output_buf c) = 0")
  case False
  have "send_write k cur ptr data c ch w = (0, length data - 0, False, w)"
    by (simp only: send_write_def if_not_P [OF False] diff_zero)
  moreover have "conn_at w ptr (c\<lparr>tc_writes := tc_writes c, tc_wire := tc_wire c @ take 0 data\<rparr>) ch"
    using assms(3) by simp
  ultimately show thesis by (rule that) simp_all
next
  case True
  then have empty: "contents (tc_output_buf c) = []" using assms(4) by (simp add: readable_contents)
  let ?c1 = "c\<lparr>tc_writes := tc_writes c + 1\<rparr>"
  show thesis
  proof (cases "k_write k ptr (tc_writes c) data")
    case (Inr n)
    let ?c = "?c1\<lparr>tc_wire := tc_wire c @ take n data\<rparr>"
    let ?w = "put_conn ptr ?c w"
    have n: "n \<le> length data" using assms(1) Inr by (auto simp: io_documented_def)
    have "size_sub (length data) n = length data - n"
      using n assms(2) by (simp add: vector_max_size_def)
    then have "send_write k cur ptr data c ch w = (n, length data - n, False,
        if length data - n = 0 \<and> tc_write_complete_callback c
        then net_queue k cur (tc_loop c) (F_write_complete ptr) ?w else ?w)"
      using True Inr by (simp add: send_write_def Let_def)
    moreover have "conn_at ?w ptr ?c ch" using assms(3) by (rule conn_at_put) simp_all
    then have "conn_at (if length data - n = 0 \<and> tc_write_complete_callback c
        then net_queue k cur (tc_loop c) (F_write_complete ptr) ?w else ?w) ptr ?c ch"
      by (split if_split) (simp only: conn_at_queue simp_thms)
    ultimately show thesis by (rule that) (simp_all add: n empty)
  next
    case (Inl e)
    let ?w = "put_conn ptr ?c1 w"
    have "send_write k cur ptr data c ch w = (0, length data - 0,
        e \<noteq> EWOULDBLOCK \<and> (e = EPIPE \<or> e = ECONNRESET),
        if e \<noteq> EWOULDBLOCK then net_log ERROR (''write error: '' @ k_strerror k e) ?w else ?w)"
      using True Inl by (simp add: send_write_def Let_def)
    moreover have "conn_at ?w ptr (?c1\<lparr>tc_wire := tc_wire c @ take 0 data\<rparr>) ch"
      using conn_at_put [OF assms(3), of ?c1] by simp
    then have "conn_at (if e \<noteq> EWOULDBLOCK then net_log ERROR (''write error: '' @ k_strerror k e) ?w else ?w)
        ptr (?c1\<lparr>tc_wire := tc_wire c @ take 0 data\<rparr>) ch" by simp
    ultimately show thesis by (rule that) (auto simp: peer_gone_def Inl)
  qed
qed

lemma send_rest_ensures:
  assumes "conn_at w ptr c ch" "tc_state c \<noteq> DISCONNECTED"
    and "input_inv c" "buf_inv (tc_output_buf c)" "is_writing ch = (contents (tc_output_buf c) \<noteq> [])"
    and "tc_wire c @ contents (tc_output_buf c) @ drop n data = tc_accepted c"
    and "n < length data" "length data \<le> vector_max_size"
  shows "ensures (send_rest k cur ptr data n (length data - n) w)
    (\<lambda>w'. \<exists>b ch'. conn_at w' ptr (c\<lparr>tc_output_buf := b\<rparr>) ch' \<and>
       conn_inv (c\<lparr>tc_output_buf := b\<rparr>) (is_writing ch') \<and> is_writing ch')"
proof -
  let ?w1 = "if size_add (readable_bytes (tc_output_buf c)) (length data - n) \<ge> tc_high_water_mark c \<and>
      readable_bytes (tc_output_buf c) < tc_high_water_mark c \<and> tc_high_water_mark_callback c
    then net_queue k cur (tc_loop c)
      (F_high_water_mark ptr (size_add (readable_bytes (tc_output_buf c)) (length data - n))) w else w"
  have at1: "conn_at ?w1 ptr c ch" using assms(1) by simp
  have "ensures (buffer_append (tc_output_buf c) (drop n data) (length data - n))
      (\<lambda>b. buf_inv b \<and> contents b = contents (tc_output_buf c) @ take (length data - n) (drop n data))"
    using assms(4,8) by (intro buffer_append_ensures) simp_all
  then show ?thesis
    unfolding send_rest_def with_conn_at [OF assms(1)] Let_def
  proof (rule ensures_bindI)
    fix b assume b: "buf_inv b \<and> contents b = contents (tc_output_buf c) @ take (length data - n) (drop n data)"
    let ?c' = "c\<lparr>tc_output_buf := b\<rparr>"
    let ?w2 = "put_conn ptr ?c' ?w1"
    have at2: "conn_at ?w2 ptr ?c' ch" using at1 by (rule conn_at_put) simp_all
    have inv: "conn_inv ?c' True" using assms b by (simp add: conn_inv_def)
    show "ensures (if \<not> is_writing ch then conn_mask k Enable_Writing c ?w2 else Inr ?w2)
      (\<lambda>w'. \<exists>b ch'. conn_at w' ptr (c\<lparr>tc_output_buf := b\<rparr>) ch' \<and>
         conn_inv (c\<lparr>tc_output_buf := b\<rparr>) (is_writing ch') \<and> is_writing ch')"
    proof (cases "is_writing ch")
      case True
      with at2 inv show ?thesis by (auto intro!: exI [of _ b] exI [of _ ch])
    next
      case False
      obtain w' ch' where m: "conn_mask k Enable_Writing c ?w2 = Inr w'" "conn_at w' ptr ?c' ch'"
        "is_writing ch' = is_writing (chan_mask Enable_Writing ch)" "n_socks w' = n_socks ?w2"
        "n_conns w' = n_conns ?w2"
        by (rule conn_mask_at [OF at2, of c k Enable_Writing]) simp_all
      with False inv show ?thesis by (auto intro!: exI [of _ b] exI [of _ ch'])
    qed
  qed
qed

text \<open>
  The whole of \<^verbatim>\<open>send_in_loop\<close>: the invariant is kept, the connection's identity and state are the same,
  and the message is accepted as a whole or dropped as a whole; it can be dropped only when the
  connection is closed, or when nothing was buffered and the kernel reported that the peer is gone.
\<close>

definition kept_conn :: "tcp_conn \<Rightarrow> tcp_conn \<Rightarrow> bool" where
  "kept_conn c c' \<longleftrightarrow> tc_loop c' = tc_loop c \<and> tc_ch c' = tc_ch c \<and> tc_id c' = tc_id c \<and>
     tc_state c' = tc_state c \<and> tc_input_buf c' = tc_input_buf c \<and>
     (\<exists>s. tc_wire c' = tc_wire c @ s)"

text \<open>The message is accepted and its first \<open>n\<close> bytes are on the wire; the rest is buffered.\<close>

lemma send_accepted_ensures:
  assumes "conn_at w ptr c ch" "tc_state c \<noteq> DISCONNECTED" "length data \<le> vector_max_size" "n \<le> length data"
    and "input_inv c" "buf_inv (tc_output_buf c)" "is_writing ch = (contents (tc_output_buf c) \<noteq> [])"
    and "tc_wire c @ contents (tc_output_buf c) @ drop n data = tc_accepted c"
  shows "ensures (if n < length data then send_rest k cur ptr data n (length data - n) w else Inr w)
     (\<lambda>w'. \<exists>b ch'. conn_at w' ptr (c\<lparr>tc_output_buf := b\<rparr>) ch' \<and> conn_inv (c\<lparr>tc_output_buf := b\<rparr>) (is_writing ch'))"
proof (cases "n < length data")
  case True
  have "ensures (send_rest k cur ptr data n (length data - n) w)
      (\<lambda>w'. \<exists>b ch'. conn_at w' ptr (c\<lparr>tc_output_buf := b\<rparr>) ch' \<and>
         conn_inv (c\<lparr>tc_output_buf := b\<rparr>) (is_writing ch') \<and> is_writing ch')"
    by (rule send_rest_ensures [OF assms(1,2)]) (use assms(3-) True in \<open>simp_all del: append_assoc\<close>)
  then have "ensures (send_rest k cur ptr data n (length data - n) w)
      (\<lambda>w'. \<exists>b ch'. conn_at w' ptr (c\<lparr>tc_output_buf := b\<rparr>) ch' \<and> conn_inv (c\<lparr>tc_output_buf := b\<rparr>) (is_writing ch'))"
    by (rule ensures_mono) blast
  then show ?thesis using True by simp
next
  case False
  then have "conn_inv c (is_writing ch)" using assms(2-) by (simp add: conn_inv_def)
  with False assms(1) show ?thesis by (auto intro!: exI [of _ "tc_output_buf c"] exI [of _ ch])
qed

lemma send_in_loop_ensures:
  assumes "io_documented k" "length data \<le> vector_max_size"
    and "conn_at w ptr c ch" "conn_inv c (is_writing ch)"
  shows "ensures (send_in_loop k cur ptr data w) (\<lambda>w'. \<exists>c' ch'. conn_at w' ptr c' ch' \<and>
    conn_inv c' (is_writing ch') \<and> kept_conn c c' \<and>
    (tc_accepted c' = tc_accepted c @ data \<or>
       tc_accepted c' = tc_accepted c \<and>
       (tc_state c = DISCONNECTED \<or> contents (tc_output_buf c) = [] \<and> peer_gone k ptr c data)))"
proof (cases "tc_state c = DISCONNECTED")
  case True
  with assms show ?thesis
    by (auto simp: send_in_loop_def kept_conn_def intro!: exI [of _ c] exI [of _ ch])
next
  case False
  have inv: "input_inv c" "buf_inv (tc_output_buf c)"
    "tc_wire c @ contents (tc_output_buf c) = tc_accepted c" "is_writing ch = (contents (tc_output_buf c) \<noteq> [])"
    using assms(4) False by (simp_all add: conn_inv_def)
  from assms(1-3) inv(2) obtain nwrote fault w1 n where sw:
    "send_write k cur ptr data c ch w = (nwrote, length data - nwrote, fault, w1)"
    "conn_at w1 ptr (c\<lparr>tc_writes := n, tc_wire := tc_wire c @ take nwrote data\<rparr>) ch"
    "nwrote \<le> length data" "fault \<longrightarrow> nwrote = 0 \<and> peer_gone k ptr c data" "nwrote = 0 \<or> contents (tc_output_buf c) = []"
    by (rule send_write_at [where cur = cur])
  let ?c1 = "c\<lparr>tc_writes := n, tc_wire := tc_wire c @ take nwrote data\<rparr>"
  show ?thesis
  proof (cases fault)
    case True
    then have "conn_at w1 ptr (c\<lparr>tc_writes := n\<rparr>) ch" "peer_gone k ptr c data" using sw(2,4) by simp_all
    moreover have "contents (tc_output_buf c) = []"
      using sw(1) True inv by (auto simp: send_write_def readable_contents Let_def split: if_splits)
    ultimately show ?thesis
      using True sw(1) False assms(3,4) inv
      by (auto simp: send_in_loop_def kept_conn_def conn_inv_def intro!: exI [of _ "c\<lparr>tc_writes := n\<rparr>"] exI [of _ ch])
  next
    case no_fault: False
    let ?c2 = "?c1\<lparr>tc_accepted := tc_accepted c @ data\<rparr>"
    let ?w2 = "put_conn ptr ?c2 w1"
    have at2: "conn_at ?w2 ptr ?c2 ch" using sw(2) by (rule conn_at_put) simp_all
    have c1: "n_conns w1 ptr = Some ?c1" using sw(2) by (simp add: conn_at_def)
    have "tc_wire ?c2 @ contents (tc_output_buf ?c2) @ drop nwrote data = tc_accepted ?c2"
      using sw(5) inv(3) append_take_drop_id [of nwrote data] by auto
    with inv False have "ensures (if nwrote < length data then send_rest k cur ptr data nwrote (length data - nwrote) ?w2 else Inr ?w2)
       (\<lambda>w'. \<exists>b ch'. conn_at w' ptr (?c2\<lparr>tc_output_buf := b\<rparr>) ch' \<and> conn_inv (?c2\<lparr>tc_output_buf := b\<rparr>) (is_writing ch'))"
      by (intro send_accepted_ensures [OF at2 _ assms(2) sw(3)]) simp_all
    then have "ensures (if nwrote < length data then send_rest k cur ptr data nwrote (length data - nwrote) ?w2 else Inr ?w2)
       (\<lambda>w'. \<exists>c' ch'. conn_at w' ptr c' ch' \<and> conn_inv c' (is_writing ch') \<and> kept_conn c c' \<and> tc_accepted c' = tc_accepted c @ data)"
    proof (rule ensures_mono)
      fix w' assume "\<exists>b ch'. conn_at w' ptr (?c2\<lparr>tc_output_buf := b\<rparr>) ch' \<and> conn_inv (?c2\<lparr>tc_output_buf := b\<rparr>) (is_writing ch')"
      moreover have "kept_conn c (?c2\<lparr>tc_output_buf := b\<rparr>)"
        "tc_accepted (?c2\<lparr>tc_output_buf := b\<rparr>) = tc_accepted c @ data" for b by (simp_all add: kept_conn_def)
      ultimately show "\<exists>c' ch'. conn_at w' ptr c' ch' \<and> conn_inv c' (is_writing ch') \<and> kept_conn c c' \<and>
        tc_accepted c' = tc_accepted c @ data" by blast
    qed
    moreover have "send_in_loop k cur ptr data w =
        (if nwrote < length data then send_rest k cur ptr data nwrote (length data - nwrote) ?w2 else Inr ?w2)"
      using assms(3) False no_fault sw(1) c1 by (simp add: send_in_loop_def)
    ultimately show ?thesis
      by (simp only:) (erule ensures_mono, elim exE conjE, intro exI conjI disjI1, assumption+)
  qed
qed

section \<open>Everything a loop thread does to a connection\<close>

text \<open>Each operation keeps the invariant; the only failure is a buffer that outgrows the address space.\<close>

lemma conn_okI: "conn_at w ptr c ch \<Longrightarrow> conn_inv c (is_writing ch) \<Longrightarrow> loc = (tc_loop c, tc_ch c) \<Longrightarrow> conn_ok loc w ptr"
  by (auto simp: conn_ok_def)

lemma conn_ok_send_in_loop:
  assumes "io_documented k" "length data \<le> vector_max_size" "conn_ok loc w ptr"
  shows "ensures (send_in_loop k cur ptr data w) (\<lambda>w'. conn_ok loc w' ptr)"
proof -
  obtain c ch where c: "conn_at w ptr c ch" "conn_inv c (is_writing ch)" "loc = (tc_loop c, tc_ch c)"
    using assms(3) by (auto simp: conn_ok_def)
  from send_in_loop_ensures [OF assms(1,2) c(1,2), of cur] show ?thesis
    by (rule ensures_mono) (auto simp: kept_conn_def c(3) intro: conn_okI)
qed

lemma conn_ok_send:
  assumes "io_documented k" "length data \<le> vector_max_size" "conn_ok loc w ptr"
  shows "ensures (tcp_conn_send k cur ptr addr data w) (\<lambda>w'. conn_ok loc w' ptr)"
proof -
  obtain c ch where c: "conn_at w ptr c ch" using assms(3) by (auto simp: conn_ok_def)
  then show ?thesis using conn_ok_send_in_loop [OF assms, of cur] assms(3) by (simp add: tcp_conn_send_def)
qed

lemma conn_ok_shutdown_in_loop:
  assumes "conn_ok loc w ptr"
  shows "ensures (shutdown_in_loop k ptr w) (\<lambda>w'. conn_ok loc w' ptr)"
proof -
  obtain c ch where "conn_at w ptr c ch" using assms by (auto simp: conn_ok_def)
  then show ?thesis using assms by (simp add: shutdown_in_loop_def)
qed

lemma conn_ok_shutdown:
  assumes "conn_ok loc w ptr"
  shows "ensures (tcp_conn_shutdown k cur ptr w) (\<lambda>w'. conn_ok loc w' ptr)"
proof -
  obtain c ch where c: "conn_at w ptr c ch" "conn_inv c (is_writing ch)" "loc = (tc_loop c, tc_ch c)" using assms by (auto simp: conn_ok_def)
  let ?w = "put_conn ptr (c\<lparr>tc_state := DISCONNENTING\<rparr>) w"
  have "conn_ok loc ?w ptr" if "tc_state c = CONNECTED"
    using c(1) by (rule conn_ok_put) (use c(2,3) that in \<open>simp_all add: conn_inv_def\<close>)
  then show ?thesis
    using assms c(1) conn_ok_shutdown_in_loop [of loc ?w ptr k] by (simp add: tcp_conn_shutdown_def Let_def)
qed

lemma conn_ok_action:
  assumes "io_documented k" "sendable act" "conn_ok loc w ptr"
  shows "ensures (run_action k cur ptr w act) (\<lambda>w'. conn_ok loc w' ptr)"
proof (cases act)
  case (A_retrieve n)
  obtain c ch where c: "conn_at w ptr c ch" "conn_inv c (is_writing ch)" "loc = (tc_loop c, tc_ch c)" using assms(3) by (auto simp: conn_ok_def)
  then have "conn_ok loc (put_conn ptr (c\<lparr>tc_input_buf := retrieve (tc_input_buf c) n\<rparr>) w) ptr"
    by (intro conn_ok_put [OF c(1)]) (simp_all add: conn_inv_def buf_inv_retrieve suffix_retrieve)
  with A_retrieve c(1) show ?thesis by simp
qed (use assms in \<open>simp_all add: conn_ok_send conn_ok_shutdown sendable_def\<close>)

text \<open>An application whose strings fit in memory.\<close>

definition app_ok :: "app \<Rightarrow> bool" where
  "app_ok a \<longleftrightarrow> (\<forall>p st n x. x \<in> set (a_conn a p st) \<union> set (a_write_complete a p) \<union>
     set (a_high_water_mark a p n) \<longrightarrow> sendable x) \<and>
     (\<forall>p s x. length s \<le> vector_max_size \<longrightarrow> x \<in> set (a_msg a p s) \<longrightarrow> sendable x)"

lemma conn_ok_callback:
  assumes "io_documented k" "\<forall>x \<in> set acts. sendable x" "conn_ok loc w ptr"
  shows "ensures (run_callback k cur ptr what present acts w) (\<lambda>w'. conn_ok loc w' ptr)"
proof -
  have "ensures (fold_res (run_action k cur ptr) (w\<lparr>n_calls := n_calls w @ [(ptr, what)]\<rparr>) acts)
      (\<lambda>w'. conn_ok loc w' ptr)"
    using assms by (intro ensures_fold) (auto intro: conn_ok_action)
  then show ?thesis using assms(3) by (simp add: run_callback_def)
qed

lemma conn_ok_conn_callback:
  assumes "io_documented k" "app_ok a" "conn_ok loc w ptr"
  shows "ensures (run_conn_callback k a cur ptr w) (\<lambda>w'. conn_ok loc w' ptr)"
proof -
  obtain c ch where c: "conn_at w ptr c ch" using assms(3) by (auto simp: conn_ok_def)
  have "\<forall>x \<in> set (a_conn a ptr (tc_state c)). sendable x" using assms(2) by (auto simp: app_ok_def)
  then show ?thesis
    using assms(1,3) c by (simp add: run_conn_callback_def conn_ok_callback)
qed

lemma conn_ok_error:
  assumes "conn_ok loc w ptr"
  shows "ensures (handle_error k ptr w) (\<lambda>w'. conn_ok loc w' ptr)"
proof -
  obtain c ch where "conn_at w ptr c ch" using assms by (auto simp: conn_ok_def)
  then show ?thesis using assms by (simp add: handle_error_def Let_def)
qed

text \<open>Going to \<^verbatim>\<open>DISCONNECTED\<close> drops all interest in events.\<close>

lemma conn_ok_disconnect:
  assumes "conn_at w ptr c ch" "conn_inv c (is_writing ch)" "loc = (tc_loop c, tc_ch c)"
  shows "ensures (conn_mask k Disable_All c (put_conn ptr (c\<lparr>tc_state := DISCONNECTED\<rparr>) w)) (\<lambda>w'. conn_ok loc w' ptr)"
proof -
  let ?c = "c\<lparr>tc_state := DISCONNECTED\<rparr>"
  have "conn_at (put_conn ptr ?c w) ptr ?c ch" using assms(1) by (rule conn_at_put) simp_all
  then obtain w' ch' where w': "conn_mask k Disable_All c (put_conn ptr ?c w) = Inr w'" "conn_at w' ptr ?c ch'"
    "is_writing ch' = is_writing (chan_mask Disable_All ch)"
    by (rule conn_mask_at [where c = c and k = k and m = Disable_All]) simp_all
  moreover have "conn_inv ?c (is_writing ch')" using assms(2) w'(3) by (simp add: conn_inv_def)
  ultimately have "conn_ok loc w' ptr" using assms(3) by (intro conn_okI [of w' ptr ?c ch']) simp_all
  then show ?thesis using w'(1) by simp
qed

lemma conn_ok_remove:
  assumes "conn_at w ptr c ch" "conn_ok loc w ptr" "tc_loop c' = tc_loop c" "tc_ch c' = tc_ch c"
  shows "ensures (on_loop (tc_loop c') (chan_remove (k_ctl k) (tc_ch c')) w) (\<lambda>w'. conn_ok loc w' ptr)"
proof -
  obtain p where p: "el_poller (n_loops w (tc_loop c)) = Some p" using assms(1) by (auto simp: conn_at_def)
  obtain ch' p' where rm: "epoll_remove_chan (k_ctl k) p (tc_ch c) ch = (ch', p')" by fastforce
  then have wr: "is_writing ch' = is_writing ch"
    by (auto simp: epoll_remove_chan_def Let_def is_writing_def)
  have inv: "conn_inv c (is_writing ch)" "loc = (tc_loop c, tc_ch c)"
    using assms(1,2) by (auto simp: conn_ok_def conn_at_def)
  let ?l = "n_loops w (tc_loop c)"
  let ?w = "w\<lparr>n_loops := (n_loops w)(tc_loop c := ?l\<lparr>el_poller := Some p', el_chans := (el_chans ?l)(tc_ch c \<mapsto> ch')\<rparr>)\<rparr>"
  have "on_loop (tc_loop c') (chan_remove (k_ctl k) (tc_ch c')) w = Inr ?w"
    using assms p rm by (simp add: on_loop_def chan_remove_def eloop_remove_chan_def
        eloop_poller_call_def conn_at_def)
  moreover have "conn_at ?w ptr c ch'" using assms(1) by (simp add: conn_at_def)
  then have "conn_ok loc ?w ptr" by (rule conn_okI) (simp_all add: inv wr)
  ultimately show ?thesis by simp
qed

text \<open>
  A write event: what the kernel takes leaves the output buffer, and when the buffer runs empty the
  write interest is dropped and a pending shutdown is carried out.
\<close>

lemma handle_write_took:
  assumes "conn_at w ptr c ch" "buf_inv (tc_output_buf c)" "is_writing ch"
    and "k_write k ptr (tc_writes c) (contents (tc_output_buf c)) = Inr n" "0 < n"
  shows "handle_write k cur ptr w =
    (let w1 = put_conn ptr (c\<lparr>tc_writes := tc_writes c + 1, tc_output_buf := retrieve (tc_output_buf c) n,
                tc_wire := tc_wire c @ take n (contents (tc_output_buf c))\<rparr>) w in
     if readable_bytes (retrieve (tc_output_buf c) n) = 0 then
       bind_res (conn_mask k Disable_Writing c w1) (\<lambda>w2.
       let w3 = (if tc_write_complete_callback c
                 then net_queue k cur (tc_loop c) (F_write_complete ptr) w2 else w2) in
       if tc_state c = DISCONNENTING then shutdown_in_loop k ptr w3 else Inr w3)
     else Inr w1)"
proof -
  have "peek (tc_output_buf c) (readable_bytes (tc_output_buf c)) = contents (tc_output_buf c)"
    using assms(2) by (simp add: peek_def readable_contents contents_def buf_inv_def)
  with assms show ?thesis by (simp add: handle_write_def Let_def write_fd_def)
qed

lemma handle_write_progress:
  assumes "io_documented k" "conn_at w ptr c ch" "conn_inv c (is_writing ch)" "is_writing ch"
    and "k_write k ptr (tc_writes c) (contents (tc_output_buf c)) = Inr n" "0 < n"
  defines "c' \<equiv> c\<lparr>tc_writes := tc_writes c + 1, tc_output_buf := retrieve (tc_output_buf c) n,
                  tc_wire := tc_wire c @ take n (contents (tc_output_buf c))\<rparr>"
  obtains w' ch' where "handle_write k cur ptr w = Inr w'" "conn_at w' ptr c' ch'"
    "conn_inv c' (is_writing ch')"
    "st_calls (n_socks w') = st_calls (n_socks w) @
       (if n = length (contents (tc_output_buf c)) \<and> tc_state c = DISCONNENTING then [Shutdown_Wr (tc_sockfd c)] else [])"
proof -
  let ?out = "contents (tc_output_buf c)"
  have inv: "input_inv c" "buf_inv (tc_output_buf c)" "tc_wire c @ ?out = tc_accepted c"
    "tc_state c \<noteq> DISCONNECTED" "?out \<noteq> []"
    using assms(3,4) by (auto simp: conn_inv_def)
  have n: "n \<le> length ?out" using assms(1,5) by (auto simp: io_documented_def)
  let ?b = "retrieve (tc_output_buf c) n"
  have b: "buf_inv ?b" "contents ?b = drop n ?out" "readable_bytes ?b = length ?out - n"
    using inv(2) by (simp_all add: buf_inv_retrieve contents_retrieve readable_contents)
  let ?w1 = "put_conn ptr c' w"
  have at1: "conn_at ?w1 ptr c' ch" unfolding c'_def using assms(2) by (rule conn_at_put) simp_all
  note eq = handle_write_took [OF assms(2) inv(2) assms(4-6), of cur, folded c'_def]
  show thesis
  proof (cases "n = length ?out")
    case False
    then have "handle_write k cur ptr w = Inr ?w1" using eq b(3) n by simp
    moreover have "conn_inv c' (is_writing ch)"
      using False n inv b assms(4) by (simp add: conn_inv_def c'_def)
    ultimately show thesis using that at1 False by (simp add: put_conn_def)
  next
    case True
    obtain w2 ch' where w2: "conn_mask k Disable_Writing c ?w1 = Inr w2" "conn_at w2 ptr c' ch'"
      "is_writing ch' = is_writing (chan_mask Disable_Writing ch)" "n_socks w2 = n_socks ?w1"
      "n_conns w2 = n_conns ?w1"
      by (rule conn_mask_at [OF at1, of c k Disable_Writing]) (simp_all add: c'_def)
    let ?w3 = "if tc_write_complete_callback c then net_queue k cur (tc_loop c) (F_write_complete ptr) w2 else w2"
    have at3: "conn_at ?w3 ptr c' ch'" "n_socks ?w3 = n_socks w" using w2 by (simp_all add: put_conn_def)
    have inv': "conn_inv c' (is_writing ch')"
      using True inv b w2(3) by (simp add: conn_inv_def c'_def)
    have "handle_write k cur ptr w = (if tc_state c = DISCONNENTING then shutdown_in_loop k ptr ?w3 else Inr ?w3)"
      using eq b(3) True w2(1) by (simp add: Let_def)
    also have "shutdown_in_loop k ptr ?w3 = Inr (?w3\<lparr>n_socks := socket_shutdown_write (tc_sockfd c)
        (k_shutdown k ptr) (n_socks ?w3)\<rparr>)"
      using at3(1) w2(3) by (simp only: shutdown_in_loop_def with_conn_at) (simp add: c'_def)
    finally show thesis
      using at3 inv' True by (cases "tc_state c = DISCONNENTING") (auto intro: that)
  qed
qed

lemma conn_ok_write:
  assumes "io_documented k" "conn_ok loc w ptr"
  shows "ensures (handle_write k cur ptr w) (\<lambda>w'. conn_ok loc w' ptr)"
proof -
  obtain c ch where c: "conn_at w ptr c ch" "conn_inv c (is_writing ch)" "loc = (tc_loop c, tc_ch c)" using assms(2) by (auto simp: conn_ok_def)
  let ?out = "contents (tc_output_buf c)"
  have peek: "peek (tc_output_buf c) (readable_bytes (tc_output_buf c)) = ?out"
    using c(2) by (simp add: conn_inv_def peek_def readable_contents contents_def buf_inv_def)
  show ?thesis
  proof (cases "is_writing ch \<and> (\<exists>n > 0. k_write k ptr (tc_writes c) ?out = Inr n)")
    case True
    then obtain n where n: "is_writing ch" "k_write k ptr (tc_writes c) ?out = Inr n" "0 < n" by blast
    show ?thesis
      by (rule handle_write_progress [OF assms(1) c(1,2) n, of cur]) (auto simp: c(3) intro: conn_okI)
  next
    case False
    have "conn_ok loc (put_conn ptr (c\<lparr>tc_writes := tc_writes c + 1\<rparr>) w) ptr"
      using c(1) by (rule conn_ok_put) (use c(2,3) in \<open>simp_all add: conn_inv_def\<close>)
    note ok = this
    show ?thesis
    proof (cases "is_writing ch")
      case writing: True
      have "\<not> 0 < fst (write_fd (tc_output_buf c) (k_write k ptr (tc_writes c) ?out))"
        using False writing by (cases "k_write k ptr (tc_writes c) ?out") (auto simp: write_fd_def)
      then show ?thesis
        using ok c(1) writing peek by (simp add: handle_write_def Let_def case_prod_beta)
    next
      case False
      with assms(2) c(1) show ?thesis by (simp add: handle_write_def)
    qed
  qed
qed

lemma conn_ok_destroy:
  assumes "io_documented k" "app_ok a" "conn_ok loc w ptr"
  shows "ensures (destroy_conn k a cur ptr w) (\<lambda>w'. conn_ok loc w' ptr)"
proof -
  obtain c ch where c: "conn_at w ptr c ch" "conn_inv c (is_writing ch)" "loc = (tc_loop c, tc_ch c)"
    using assms(3) by (auto simp: conn_ok_def)
  show ?thesis
    unfolding destroy_conn_def with_conn_at [OF c(1)]
  proof (rule ensures_bindI [where P = "\<lambda>w'. conn_ok loc w' ptr"])
    show "ensures (if tc_state c = CONNECTED then
          bind_res (conn_mask k Disable_All c (put_conn ptr (c\<lparr>tc_state := DISCONNECTED\<rparr>) w))
            (\<lambda>w1. run_conn_callback k a cur ptr w1)
        else Inr w) (\<lambda>w'. conn_ok loc w' ptr)"
      by (simp add: assms(3)) (blast intro: ensures_bindI [OF conn_ok_disconnect [OF c]]
          conn_ok_conn_callback [OF assms(1,2)])
  next
    fix w2 assume ok: "conn_ok loc w2 ptr"
    then obtain c2 ch2 where "conn_at w2 ptr c2 ch2" "tc_loop c = tc_loop c2" "tc_ch c = tc_ch c2"
      using c(3) by (auto simp: conn_ok_def)
    from conn_ok_remove [OF this(1) ok this(2,3)]
    show "ensures (on_loop (tc_loop c) (chan_remove (k_ctl k) (tc_ch c)) w2) (\<lambda>w'. conn_ok loc w' ptr)" .
  qed
qed

section \<open>Runs\<close>

text \<open>
  What happens to an established connection in its loop's thread: the application sends and shuts
  down, the channel reports events, queued callbacks run, and the owner destroys the connection.
\<close>

datatype conn_event =
    Ev_action action
  | Ev_read
  | Ev_write
  | Ev_close
  | Ev_error
  | Ev_shutdown_in_loop
  | Ev_write_complete
  | Ev_high_water_mark nat
  | Ev_destroy

primrec run_event ::
    "os \<Rightarrow> app \<Rightarrow> (tid \<Rightarrow> conn_ptr \<Rightarrow> 'z net_scheme \<Rightarrow> 'z net_scheme result) \<Rightarrow> tid \<Rightarrow> conn_ptr \<Rightarrow>
       'z net_scheme \<Rightarrow> conn_event \<Rightarrow> 'z net_scheme result" where
  "run_event k a close_cb cur ptr w (Ev_action x) = run_action k cur ptr w x"
| "run_event k a close_cb cur ptr w Ev_read = handle_read k a close_cb cur ptr w"
| "run_event k a close_cb cur ptr w Ev_write = handle_write k cur ptr w"
| "run_event k a close_cb cur ptr w Ev_close = handle_close k a close_cb cur ptr w"
| "run_event k a close_cb cur ptr w Ev_error = handle_error k ptr w"
| "run_event k a close_cb cur ptr w Ev_shutdown_in_loop = shutdown_in_loop k ptr w"
| "run_event k a close_cb cur ptr w Ev_write_complete =
     run_callback k cur ptr ''write_complete'' True (a_write_complete a ptr) w"
| "run_event k a close_cb cur ptr w (Ev_high_water_mark n) =
     run_callback k cur ptr ''high_water_mark'' True (a_high_water_mark a ptr n) w"
| "run_event k a close_cb cur ptr w Ev_destroy = destroy_conn k a cur ptr w"

definition event_ok :: "conn_event \<Rightarrow> bool" where
  "event_ok ev = (case ev of Ev_action x \<Rightarrow> sendable x | _ \<Rightarrow> True)"

section \<open>The owner of a connection\<close>

text \<open>
  What a connection expects of the code its close callback calls: it does not touch the connection,
  its channel or its poller while the connection's handlers are running.
\<close>

locale conn_owner =
  fixes close_cb :: "tid \<Rightarrow> conn_ptr \<Rightarrow> 'z net_scheme \<Rightarrow> 'z net_scheme result"
  assumes close_keeps: "conn_at w ptr c ch \<Longrightarrow> ensures (close_cb cur ptr w) (\<lambda>w'. conn_at w' ptr c ch)"
begin

lemma conn_ok_close_cb:
  assumes "conn_ok loc w ptr"
  shows "ensures (close_cb cur ptr w) (\<lambda>w'. conn_ok loc w' ptr)"
proof -
  obtain c ch where c: "conn_at w ptr c ch" "conn_inv c (is_writing ch)" "loc = (tc_loop c, tc_ch c)" using assms by (auto simp: conn_ok_def)
  from close_keeps [OF c(1)] show ?thesis by (rule ensures_mono) (use c(2,3) in \<open>auto intro: conn_okI\<close>)
qed

lemma conn_ok_close:
  assumes "io_documented k" "app_ok a" "conn_ok loc w ptr"
  shows "ensures (handle_close k a close_cb cur ptr w) (\<lambda>w'. conn_ok loc w' ptr)"
proof -
  obtain c ch where c: "conn_at w ptr c ch" "conn_inv c (is_writing ch)" "loc = (tc_loop c, tc_ch c)" using assms(3) by (auto simp: conn_ok_def)
  then have at: "conn_at (net_log lv s w) ptr c ch" for lv s by simp
  show ?thesis
    unfolding handle_close_def with_conn_at [OF c(1)] Let_def
  proof (rule ensures_bindI [OF conn_ok_disconnect [OF at c(2,3)]])
    fix w2 :: "'z net_scheme" assume "conn_ok loc w2 ptr"
    from conn_ok_conn_callback [OF assms(1,2) this, of cur]
    show "ensures (bind_res (run_conn_callback k a cur ptr w2)
        (\<lambda>w3. if tc_close_callback c then close_cb cur ptr w3 else Inr w3)) (\<lambda>w'. conn_ok loc w' ptr)"
      by (rule ensures_bindI) (simp add: conn_ok_close_cb)
  qed
qed

lemma conn_ok_read:
  assumes "io_documented k" "app_ok a" "conn_ok loc w ptr"
  shows "ensures (handle_read k a close_cb cur ptr w) (\<lambda>w'. conn_ok loc w' ptr)"
proof -
  obtain c ch where c: "conn_at w ptr c ch" "conn_inv c (is_writing ch)" "loc = (tc_loop c, tc_ch c)" using assms(3) by (auto simp: conn_ok_def)
  let ?cap = "readv_capacity (tc_input_buf c)"
  let ?out = "k_read k ptr (tc_reads c) ?cap"
  have inv: "buf_inv (tc_input_buf c)" using c(2) by (simp add: conn_inv_def)
  have "ensures (read_fd (tc_input_buf c) ?out)
      (\<lambda>(n, e, b). buf_inv b \<and> contents b = contents (tc_input_buf c) @ bytes_read ?out)" using inv assms(1) by (rule read_fd_keeps)
  then show ?thesis
    unfolding handle_read_def with_conn_at [OF c(1)]
  proof (rule ensures_bindI)
    fix x :: "int \<times> errno option \<times> buffer" assume
      "case x of (n, e, b) \<Rightarrow> buf_inv b \<and> contents b = contents (tc_input_buf c) @ bytes_read ?out"
    then obtain n e b where x: "x = (n, e, b)" "buf_inv b" "contents b = contents (tc_input_buf c) @ bytes_read ?out"
      by (cases x) auto
    let ?w1 = "put_conn ptr (c\<lparr>tc_reads := tc_reads c + 1, tc_input_buf := b, tc_received := tc_received c @ bytes_read ?out\<rparr>) w"
    have ok: "conn_ok loc ?w1 ptr"
      using c(1) by (rule conn_ok_put) (use c(2,3) x(2,3) in \<open>simp_all add: conn_inv_def suffix_extend\<close>)
    have acts: "\<forall>y \<in> set (a_msg a ptr (contents b)). sendable y" using assms(2) contents_bound [OF x(2)] by (auto simp: app_ok_def)
    show "ensures (case x of (n, saved_errno, b) \<Rightarrow>
        let w1 = put_conn ptr (c\<lparr>tc_reads := tc_reads c + 1, tc_input_buf := b, tc_received := tc_received c @ bytes_read ?out\<rparr>) w in
        if n > 0 then run_callback k cur ptr ''msg'' (tc_msg_callback c) (a_msg a ptr (contents b)) w1
        else if n = 0 then handle_close k a close_cb cur ptr w1
        else handle_error k ptr (net_log ERROR (''read error: '' @
               k_strerror k (case saved_errno of Some e \<Rightarrow> e | None \<Rightarrow> 0)) w1)) (\<lambda>w'. conn_ok loc w' ptr)"
      using ok acts
      by (simp add: x(1) Let_def conn_ok_callback [OF assms(1)] conn_ok_close [OF assms(1,2)] conn_ok_error)
  qed
qed

lemma conn_ok_event:
  assumes "io_documented k" "app_ok a" "event_ok ev" "conn_ok loc w ptr"
  shows "ensures (run_event k a close_cb cur ptr w ev) (\<lambda>w'. conn_ok loc w' ptr)"
proof (cases ev)
  case Ev_write_complete
  have "\<forall>x \<in> set (a_write_complete a ptr). sendable x" using assms(2) by (auto simp: app_ok_def)
  with assms(1,4) Ev_write_complete show ?thesis by (simp add: conn_ok_callback)
next
  case (Ev_high_water_mark n)
  have "\<forall>x \<in> set (a_high_water_mark a ptr n). sendable x" using assms(2) by (auto simp: app_ok_def)
  with assms(1,4) Ev_high_water_mark show ?thesis by (simp add: conn_ok_callback)
qed (use assms in \<open>simp_all add: event_ok_def conn_ok_action conn_ok_read conn_ok_write conn_ok_close
    conn_ok_error conn_ok_shutdown_in_loop conn_ok_destroy\<close>)

lemma conn_ok_run:
  assumes "io_documented k" "app_ok a" "\<forall>ev \<in> set evs. event_ok ev" "conn_ok loc w ptr"
  shows "ensures (fold_res (run_event k a close_cb cur ptr) w evs) (\<lambda>w'. conn_ok loc w' ptr)"
  using assms by (intro ensures_fold) (auto intro: conn_ok_event)

end

section \<open>Setting up\<close>

lemma conn_at_tie:
  assumes "conn_at w ptr c ch"
  shows "conn_at (w\<lparr>n_loops := (n_loops w)(tc_loop c :=
    (n_loops w (tc_loop c))\<lparr>el_chans := (el_chans (n_loops w (tc_loop c)))(tc_ch c \<mapsto> chan_tie ch obj)\<rparr>)\<rparr>)
    ptr c (chan_tie ch obj)"
  using assms by (simp add: conn_at_def)

lemma is_writing_tie [simp]: "is_writing (chan_tie ch obj) = is_writing ch"
  by (simp add: chan_tie_def is_writing_def)

lemma conn_ok_establish:
  assumes "io_documented k" "app_ok a" "conn_at w ptr c ch" "conn_inv c (is_writing ch)"
    and "tc_state c \<noteq> DISCONNECTED" "loc = (tc_loop c, tc_ch c)"
  shows "ensures (establish_conn k a cur ptr w) (\<lambda>w'. conn_ok loc w' ptr)"
proof -
  let ?ch = "chan_tie ch ptr"
  let ?w0 = "w\<lparr>n_loops := (n_loops w)(tc_loop c :=
    (n_loops w (tc_loop c))\<lparr>el_chans := (el_chans (n_loops w (tc_loop c)))(tc_ch c \<mapsto> ?ch)\<rparr>)\<rparr>"
  let ?c = "c\<lparr>tc_state := CONNECTED\<rparr>"
  have at0: "conn_at ?w0 ptr c ?ch" using assms(3) by (rule conn_at_tie)
  have at: "conn_at (put_conn ptr ?c ?w0) ptr ?c ?ch" using at0 by (rule conn_at_put) simp_all
  obtain w' ch' where w': "conn_mask k Enable_Reading c (put_conn ptr ?c ?w0) = Inr w'" "conn_at w' ptr ?c ch'"
    "is_writing ch' = is_writing (chan_mask Enable_Reading ?ch)"
    by (rule conn_mask_at [OF at, of c k Enable_Reading]) simp_all
  have "is_writing ch' = is_writing ch" using w'(3) by simp
  then have "conn_inv ?c (is_writing ch')" using assms(4,5) by (simp add: conn_inv_def)
  with w'(2) have "conn_ok loc w' ptr" by (rule conn_okI) (simp add: assms(6))
  then show ?thesis
    using assms(3) w'(1) conn_ok_conn_callback [OF assms(1,2), of loc w' ptr cur]
    by (simp add: establish_conn_def Let_def)
qed

lemma tcp_conn_new_ok:
  assumes "el_poller (n_loops w i) \<noteq> None"
  obtains w' c ch where
    "tcp_conn_new (Some i) cid name sockfd local_addr peer_addr ptr cptr ret w = Inr w'"
    "conn_at w' ptr c ch" "conn_inv c (is_writing ch)" "tc_state c = CONNENTING" "tc_loop c = i" "tc_ch c = cptr"
    "tc_accepted c = []"
proof -
  have "CHEAP_PREPEND + INITIAL_SIZE \<le> vector_max_size"
    by (simp add: CHEAP_PREPEND_def INITIAL_SIZE_def vector_max_size_def)
  then obtain b where "buffer_new INITIAL_SIZE = Inr b" "buf_inv b" "contents b = []"
    by (rule buffer_new_ok)
  then show thesis
    using assms by (intro that) (auto simp: tcp_conn_new_def check_loop_not_null_def Let_def conn_at_def
      put_conn_def net_log_def conn_inv_def chan_new_def is_writing_def)
qed

section \<open>An environment for examples\<close>

lemma os_example_io [simp]: "io_documented os_example"
  by (simp add: io_documented_def os_example_def)

definition quiet_app :: app where
  "quiet_app = \<lparr>a_conn = (\<lambda>_ _. [A_send 1 ''hi'']), a_msg = (\<lambda>_ _. [A_retrieve 3]),
     a_write_complete = (\<lambda>_. []), a_high_water_mark = (\<lambda>_ _. [A_shutdown])\<rparr>"

lemma quiet_app_ok [simp]: "app_ok quiet_app"
  by (auto simp: app_ok_def quiet_app_def sendable_def vector_max_size_def)

end
