(* ===== verification/TcpFrame.thy ===== *)
theory TcpFrame
  imports TcpStream
begin

text \<open>
  What the code of a connection leaves alone: the state of its owner, and which connections exist
  under which ids.  The lemmas follow the definitions of \<^verbatim>\<open>tcp_conn.cpp\<close> one by one.
\<close>

definition yields :: "'a result \<Rightarrow> ('a \<Rightarrow> bool) \<Rightarrow> bool" where
  "yields r P = (case r of Inl e \<Rightarrow> True | Inr x \<Rightarrow> P x)"

definition keeps :: "'z net_scheme \<Rightarrow> 'z net_scheme \<Rightarrow> bool" where
  "keeps w w' \<longleftrightarrow> net.more w' = net.more w \<and>
     (\<forall>q. map_option tc_id (n_conns w' q) = map_option tc_id (n_conns w q))"

lemma yields_simps [simp]: "yields (Inr x) P = P x" "yields (Inl e) P"
  by (simp_all add: yields_def)

lemma yields_bindI: "yields r P \<Longrightarrow> (\<And>x. P x \<Longrightarrow> yields (f x) Q) \<Longrightarrow> yields (bind_res r f) Q"
  by (cases r) simp_all

lemma yields_mono: "yields r P \<Longrightarrow> (\<And>x. P x \<Longrightarrow> Q x) \<Longrightarrow> yields r Q"
  by (cases r) simp_all

lemma yields_if: "(b \<Longrightarrow> yields r P) \<Longrightarrow> (\<not> b \<Longrightarrow> yields q P) \<Longrightarrow> yields (if b then r else q) P"
  by simp

lemma keeps_refl [simp]: "keeps w w"
  by (simp add: keeps_def)

lemma keeps_trans: "keeps w w1 \<Longrightarrow> keeps w1 w2 \<Longrightarrow> keeps w w2"
  by (simp add: keeps_def)

lemma keeps_bind:
  "yields r (keeps w) \<Longrightarrow> (\<And>w1. keeps w w1 \<Longrightarrow> yields (f w1) (keeps w1)) \<Longrightarrow> yields (bind_res r f) (keeps w)"
  by (erule yields_bindI) (blast intro: yields_mono keeps_trans)

lemma keeps_from: "yields r (keeps w0) \<Longrightarrow> keeps w w0 \<Longrightarrow> yields r (keeps w)"
  by (blast intro: yields_mono keeps_trans)

lemma keeps_fold:
  assumes "\<And>w x. yields (f w x) (keeps w)"
  shows "yields (fold_res f w xs) (keeps w)"
proof (induction xs arbitrary: w)
  case (Cons x xs)
  show ?case using assms Cons.IH by (auto intro: keeps_bind)
qed simp

lemma yields_with_conn:
  "(\<And>c ch. n_conns w ptr = Some c \<Longrightarrow> yields (f c ch) P) \<Longrightarrow> yields (with_conn ptr w f) P"
  by (simp add: with_conn_def split: option.splits)

lemma keeps_log [simp]: "keeps w (net_log lv s w') = keeps w w'"
  by (simp add: keeps_def net_log_def)

lemma keeps_queue [simp]: "keeps w (net_queue k cur i f w') = keeps w w'"
  by (simp add: keeps_def net_queue_def)

lemma keeps_socks [simp]: "keeps w (w'\<lparr>n_socks := t\<rparr>) = keeps w w'"
  by (simp add: keeps_def)

lemma keeps_calls [simp]: "keeps w (w'\<lparr>n_calls := t\<rparr>) = keeps w w'"
  by (simp add: keeps_def)

lemma keeps_loops [simp]: "keeps w (w'\<lparr>n_loops := t\<rparr>) = keeps w w'"
  by (simp add: keeps_def)

lemma keeps_put:
  "keeps w w' \<Longrightarrow> n_conns w' ptr = Some c \<Longrightarrow> tc_id c' = tc_id c \<Longrightarrow> keeps w (put_conn ptr c' w')"
  unfolding keeps_def put_conn_def by (auto dest: spec [of _ ptr])

lemma keeps_on_loop: "yields (on_loop i f w) (keeps w)"
  by (cases "f (n_loops w i)") (simp_all add: on_loop_def)

lemma keeps_conn_mask: "yields (conn_mask k m c w) (keeps w)"
  by (simp add: conn_mask_def keeps_on_loop)

lemma keeps_send_write:
  assumes "n_conns w ptr = Some c" "send_write k cur ptr data c ch w = (n, r, fault, w1)"
  shows "keeps w w1"
  using assms by (auto simp: send_write_def Let_def split: if_splits sum.splits intro!: keeps_put [where c = c])

lemma keeps_send_rest: "yields (send_rest k cur ptr data n r w) (keeps w)"
proof (unfold send_rest_def, rule yields_with_conn)
  fix c ch assume c: "n_conns w ptr = Some c"
  let ?w1 = "if size_add (readable_bytes (tc_output_buf c)) r \<ge> tc_high_water_mark c \<and>
      readable_bytes (tc_output_buf c) < tc_high_water_mark c \<and> tc_high_water_mark_callback c
    then net_queue k cur (tc_loop c) (F_high_water_mark ptr (size_add (readable_bytes (tc_output_buf c)) r)) w else w"
  have w2: "keeps w (put_conn ptr (c\<lparr>tc_output_buf := b\<rparr>) ?w1)" for b
    by (rule keeps_put [where c = c]) (simp_all add: c)
  have "yields (if \<not> is_writing ch then conn_mask k Enable_Writing c (put_conn ptr (c\<lparr>tc_output_buf := b\<rparr>) ?w1)
      else Inr (put_conn ptr (c\<lparr>tc_output_buf := b\<rparr>) ?w1)) (keeps w)" for b
    by (rule yields_if, rule keeps_from [OF keeps_conn_mask w2]) (unfold yields_simps, rule w2)
  then show "yields (let old_len = readable_bytes (tc_output_buf c);
      w1 = (if size_add old_len r \<ge> tc_high_water_mark c \<and> old_len < tc_high_water_mark c \<and>
             tc_high_water_mark_callback c
           then net_queue k cur (tc_loop c) (F_high_water_mark ptr (size_add old_len r)) w else w) in
      bind_res (buffer_append (tc_output_buf c) (drop n data) r) (\<lambda>b.
      let w2 = put_conn ptr (c\<lparr>tc_output_buf := b\<rparr>) w1 in
      if \<not> is_writing ch then conn_mask k Enable_Writing c w2 else Inr w2)) (keeps w)"
    by (cases "buffer_append (tc_output_buf c) (drop n data) r") (simp_all add: Let_def)
qed

lemma keeps_send_in_loop: "yields (send_in_loop k cur ptr data w) (keeps w)"
proof (unfold send_in_loop_def, rule yields_with_conn)
  fix c ch assume c: "n_conns w ptr = Some c"
  obtain n r fault w1 where sw: "send_write k cur ptr data c ch w = (n, r, fault, w1)"
    by (cases "send_write k cur ptr data c ch w")
  have w1: "keeps w w1" using c sw by (rule keeps_send_write)
  let ?w2 = "if fault then w1 else (case n_conns w1 ptr of None \<Rightarrow> w1
      | Some c1 \<Rightarrow> put_conn ptr (c1\<lparr>tc_accepted := tc_accepted c @ data\<rparr>) w1)"
  have w2: "keeps w ?w2" using w1 by (auto split: option.splits intro: keeps_put)
  then have "yields (send_rest k cur ptr data n r ?w2) (keeps w)"
    by (rule keeps_from [OF keeps_send_rest])
  with w2 show "yields (if tc_state c = DISCONNECTED then Inr (net_log WARN ''conn already closed, abort sending'' w)
     else (case send_write k cur ptr data c ch w of (nwrote, remaining, fault_occurred, w1) \<Rightarrow>
        let w2 = (if fault_occurred then w1
                  else (case n_conns w1 ptr of None \<Rightarrow> w1
                        | Some c1 \<Rightarrow> put_conn ptr (c1\<lparr>tc_accepted := tc_accepted c @ data\<rparr>) w1)) in
        if \<not> fault_occurred \<and> remaining > 0 then send_rest k cur ptr data nwrote remaining w2
        else Inr w2)) (keeps w)"
    by (cases fault) (simp_all add: sw Let_def)
qed

lemma keeps_send: "yields (tcp_conn_send k cur ptr addr data w) (keeps w)"
  by (auto simp: tcp_conn_send_def keeps_send_in_loop intro!: yields_with_conn)

lemma keeps_shutdown_in_loop: "yields (shutdown_in_loop k ptr w) (keeps w)"
  by (auto simp: shutdown_in_loop_def intro!: yields_with_conn)

lemma keeps_shutdown: "yields (tcp_conn_shutdown k cur ptr w) (keeps w)"
proof (unfold tcp_conn_shutdown_def, rule yields_with_conn)
  fix c ch assume c: "n_conns w ptr = Some c"
  let ?w = "put_conn ptr (c\<lparr>tc_state := DISCONNENTING\<rparr>) w"
  have w: "keeps w ?w" by (rule keeps_put [OF _ c]) simp_all
  then have "yields (shutdown_in_loop k ptr ?w) (keeps w)"
    by (rule keeps_from [OF keeps_shutdown_in_loop])
  with w show "yields (if tc_state c = CONNECTED then
       (let w1 = put_conn ptr (c\<lparr>tc_state := DISCONNENTING\<rparr>) w in
        if eloop_is_in_loop_thread cur (n_loops w1 (tc_loop c)) then shutdown_in_loop k ptr w1
        else Inr (net_queue k cur (tc_loop c) (F_shutdown_in_loop ptr) w1)) else Inr w) (keeps w)"
    by (simp add: Let_def)
qed

lemma keeps_action: "yields (run_action k cur ptr w act) (keeps w)"
proof (cases act)
  case (A_retrieve n)
  then show ?thesis by (auto intro!: yields_with_conn keeps_put [OF keeps_refl])
qed (simp_all add: keeps_send keeps_shutdown)

lemma keeps_callback: "yields (run_callback k cur ptr what present acts w) (keeps w)"
proof -
  let ?w = "w\<lparr>n_calls := n_calls w @ [(ptr, what)]\<rparr>"
  have "yields (fold_res (run_action k cur ptr) ?w acts) (keeps ?w)" by (rule keeps_fold) (rule keeps_action)
  moreover have "keeps w ?w" by simp
  ultimately have "yields (fold_res (run_action k cur ptr) ?w acts) (keeps w)"
    by (blast intro: yields_mono keeps_trans)
  then show ?thesis by (simp add: run_callback_def)
qed

lemma keeps_conn_callback: "yields (run_conn_callback k a cur ptr w) (keeps w)"
  unfolding run_conn_callback_def by (rule yields_with_conn) (rule keeps_callback)

lemma keeps_mask_then_callback:
  assumes "keeps w w0"
  shows "yields (bind_res (conn_mask k m c w0) (\<lambda>w1. run_conn_callback k a cur ptr w1)) (keeps w)"
  using keeps_bind [OF keeps_conn_mask keeps_conn_callback]
  by (rule yields_mono) (rule keeps_trans [OF assms])

lemma keeps_establish: "yields (establish_conn k a cur ptr w) (keeps w)"
proof (unfold establish_conn_def, rule yields_with_conn)
  fix c ch assume "n_conns w ptr = Some c"
  then have "keeps w (put_conn ptr (c\<lparr>tc_state := CONNECTED\<rparr>) (w\<lparr>n_loops := t\<rparr>))" for t
    by (intro keeps_put [where c = c]) simp_all
  then show "yields (let l = n_loops w (tc_loop c);
         w1 = put_conn ptr (c\<lparr>tc_state := CONNECTED\<rparr>)
                (w\<lparr>n_loops := (n_loops w)(tc_loop c :=
                     l\<lparr>el_chans := (el_chans l)(tc_ch c \<mapsto> chan_tie ch ptr)\<rparr>)\<rparr>) in
     bind_res (conn_mask k Enable_Reading c w1) (\<lambda>w2. run_conn_callback k a cur ptr w2)) (keeps w)"
    unfolding Let_def by (rule keeps_mask_then_callback)
qed

lemma keeps_destroy: "yields (destroy_conn k a cur ptr w) (keeps w)"
proof (unfold destroy_conn_def, rule yields_with_conn)
  fix c ch assume c: "n_conns w ptr = Some c"
  have "keeps w (put_conn ptr (c\<lparr>tc_state := DISCONNECTED\<rparr>) w)" by (rule keeps_put [OF _ c]) simp_all
  from keeps_mask_then_callback [OF this, of k Disable_All c a cur ptr]
  have "yields (if tc_state c = CONNECTED then
          bind_res (conn_mask k Disable_All c (put_conn ptr (c\<lparr>tc_state := DISCONNECTED\<rparr>) w))
            (\<lambda>w1. run_conn_callback k a cur ptr w1) else Inr w) (keeps w)" by simp
  then show "yields (bind_res (if tc_state c = CONNECTED then
          bind_res (conn_mask k Disable_All c (put_conn ptr (c\<lparr>tc_state := DISCONNECTED\<rparr>) w))
            (\<lambda>w1. run_conn_callback k a cur ptr w1) else Inr w)
       (\<lambda>w2. on_loop (tc_loop c) (chan_remove (k_ctl k) (tc_ch c)) w2)) (keeps w)"
    by (rule keeps_bind) (rule keeps_on_loop)
qed

lemma keeps_error: "yields (handle_error k ptr w) (keeps w)"
  by (auto simp: handle_error_def Let_def intro!: yields_with_conn)

lemma keeps_run_send_functor: "yields (run_send_functor k cur ptr addr len w) (keeps w)"
  by (simp add: run_send_functor_def keeps_send_in_loop split: option.splits)

lemma keeps_write: "yields (handle_write k cur ptr w) (keeps w)"
proof (unfold handle_write_def, rule yields_with_conn)
  fix c ch assume c: "n_conns w ptr = Some c"
  obtain n e where wr: "write_fd (tc_output_buf c) (k_write k ptr (tc_writes c)
      (peek (tc_output_buf c) (readable_bytes (tc_output_buf c)))) = (n, e)" by fastforce
  have put: "keeps w (put_conn ptr c' w)" if "tc_id c' = tc_id c" for c'
    using c that by (intro keeps_put [OF _ c]) simp_all
  have fin: "yields (if tc_state c = DISCONNENTING then shutdown_in_loop k ptr w3 else Inr w3) (keeps w2)"
    if "w3 = (if tc_write_complete_callback c then net_queue k cur (tc_loop c) (F_write_complete ptr) w2 else w2)"
    for w2 w3
    using that by (intro yields_if keeps_from [OF keeps_shutdown_in_loop]) simp_all
  have flushed: "yields (bind_res (conn_mask k Disable_Writing c (put_conn ptr c' w)) (\<lambda>w2.
      let w3 = (if tc_write_complete_callback c
                then net_queue k cur (tc_loop c) (F_write_complete ptr) w2 else w2) in
      if tc_state c = DISCONNENTING then shutdown_in_loop k ptr w3 else Inr w3)) (keeps w)"
    if "tc_id c' = tc_id c" for c'
    unfolding Let_def
    by (rule keeps_from [OF keeps_bind [OF keeps_conn_mask fin] put [OF that]]) (rule refl)
  show "yields (if is_writing ch then
       (let data = peek (tc_output_buf c) (readable_bytes (tc_output_buf c));
            outcome = k_write k ptr (tc_writes c) data;
            (n, saved_errno) = write_fd (tc_output_buf c) outcome;
            c1 = c\<lparr>tc_writes := tc_writes c + 1\<rparr> in
        if n > 0 then
          (let b = retrieve (tc_output_buf c) (nat n);
               w1 = put_conn ptr (c1\<lparr>tc_output_buf := b, tc_wire := tc_wire c @ take (nat n) data\<rparr>) w in
           if readable_bytes b = 0 then
             bind_res (conn_mask k Disable_Writing c w1) (\<lambda>w2.
             let w3 = (if tc_write_complete_callback c
                       then net_queue k cur (tc_loop c) (F_write_complete ptr) w2 else w2) in
             if tc_state c = DISCONNENTING then shutdown_in_loop k ptr w3 else Inr w3)
           else Inr w1)
        else Inr (net_log ERROR (''write error: '' @
                    k_strerror k (case saved_errno of Some e \<Rightarrow> e | None \<Rightarrow> 0)) (put_conn ptr c1 w)))
     else Inr (net_log WARN (''conn fd='' @ dec_int (ch_fd ch) @ '' is closing'') w)) (keeps w)"
    using flushed by (simp add: wr Let_def put del: bind_res_simps)
qed

lemma yields_fold:
  assumes "\<And>s x. P s \<Longrightarrow> yields (f s x) P" "P s"
  shows "yields (fold_res f s xs) P"
  using assms(2)
proof (induction xs arbitrary: s)
  case (Cons x xs)
  show ?case using assms(1) [OF Cons.prems] Cons.IH by (auto intro: yields_bindI)
qed simp

section \<open>A closed connection\<close>

text \<open>Changing a mask leaves the threads and queues of all loops alone.\<close>

lemma conn_mask_loops:
  assumes "conn_mask k m c w = Inr w'"
  shows "el_thread_id (n_loops w' i) = el_thread_id (n_loops w i)"
    "el_pending_functors (n_loops w' i) = el_pending_functors (n_loops w i)" "net.more w' = net.more w"
  using assms
  by (auto simp: conn_mask_def on_loop_def chan_set_mask_def eloop_update_chan_def eloop_poller_call_def
      bind_res_eq_Inr split: option.splits prod.splits)

text \<open>On a disconnected connection the application can only take bytes out of the input buffer.\<close>

lemma closed_actions:
  assumes "conn_at w ptr c ch" "tc_state c = DISCONNECTED"
  shows "\<exists>b. fold_res (run_action k cur ptr) w acts = Inr (put_conn ptr (c\<lparr>tc_input_buf := b\<rparr>) w)"
  using assms
proof (induction acts arbitrary: w c)
  case Nil
  then have "put_conn ptr (c\<lparr>tc_input_buf := tc_input_buf c\<rparr>) w = w"
    by (simp add: conn_at_def put_conn_def fun_upd_idem)
  then show ?case by (metis fold_res.simps(1))
next
  case (Cons act acts)
  obtain b where b: "run_action k cur ptr w act = Inr (put_conn ptr (c\<lparr>tc_input_buf := b\<rparr>) w)"
  proof (cases act)
    case (A_retrieve n)
    with Cons.prems that show ?thesis by auto
  qed (use Cons.prems that [of "tc_input_buf c"] in \<open>simp_all add: tcp_conn_send_def tcp_conn_shutdown_def
      conn_at_def put_conn_def fun_upd_idem with_conn_def\<close>)
  let ?w = "put_conn ptr (c\<lparr>tc_input_buf := b\<rparr>) w"
  have "conn_at ?w ptr (c\<lparr>tc_input_buf := b\<rparr>) ch" using Cons.prems(1) by (rule conn_at_put) simp_all
  from Cons.IH [OF this] Cons.prems(2) obtain b' where
    "fold_res (run_action k cur ptr) ?w acts = Inr (put_conn ptr (c\<lparr>tc_input_buf := b'\<rparr>) ?w)" by auto
  with b show ?case by (auto simp: put_conn_def)
qed

lemma closed_conn_callback:
  assumes "conn_at w ptr c ch" "tc_state c = DISCONNECTED"
  shows "\<exists>b t. run_conn_callback k a cur ptr w = Inr (put_conn ptr (c\<lparr>tc_input_buf := b\<rparr>) (w\<lparr>n_calls := t\<rparr>))"
proof (cases "tc_conn_callback c")
  case True
  let ?w = "w\<lparr>n_calls := n_calls w @ [(ptr, ''conn'')]\<rparr>"
  have "conn_at ?w ptr c ch" using assms(1) by simp
  from closed_actions [OF this assms(2)] obtain b where
    "fold_res (run_action k cur ptr) ?w (a_conn a ptr (tc_state c)) = Inr (put_conn ptr (c\<lparr>tc_input_buf := b\<rparr>) ?w)"
    by blast
  with True assms(1) have "run_conn_callback k a cur ptr w = Inr (put_conn ptr (c\<lparr>tc_input_buf := b\<rparr>) ?w)"
    by (simp add: run_conn_callback_def run_callback_def)
  then show ?thesis by blast
next
  case False
  then have "run_conn_callback k a cur ptr w = Inr w" using assms(1) by (simp add: run_conn_callback_def run_callback_def)
  moreover have "w = put_conn ptr (c\<lparr>tc_input_buf := tc_input_buf c\<rparr>) (w\<lparr>n_calls := n_calls w\<rparr>)"
    using assms(1) by (simp add: conn_at_def put_conn_def fun_upd_idem)
  ultimately show ?thesis by metis
qed

section \<open>Queues\<close>

lemma queue_pending:
  "el_pending_functors (n_loops (net_queue k cur i f w) j) =
     el_pending_functors (n_loops w j) @ (if i = j then [f] else [])"
  by (simp add: net_queue_def eloop_queue_in_loop_def eloop_push_def Let_def)

lemma put_log_loops [simp]:
  "n_loops (put_conn ptr c w) = n_loops w" "n_loops (net_log lv s w) = n_loops w"
  by (simp_all add: put_conn_def net_log_def)

text \<open>A write event removes nothing from a queue.\<close>

lemma handle_write_pending:
  assumes "handle_write k cur ptr w = Inr w'"
  shows "set (el_pending_functors (n_loops w i)) \<subseteq> set (el_pending_functors (n_loops w' i))"
  using assms
  by (auto simp: handle_write_def with_conn_def shutdown_in_loop_def Let_def bind_res_eq_Inr case_prod_beta
      queue_pending conn_mask_loops split: option.splits if_splits)

end
