(* ===== verification/Acceptor.thy ===== *)
theory Acceptor
  imports TcpConn
begin

text \<open>
  The listening socket: \<^verbatim>\<open>include/net/acceptor.h\<close> and \<^verbatim>\<open>src/net/acceptor.cpp\<close>.
\<close>

section \<open>Model\<close>

record acceptor =
  ac_loop :: loop_ptr
  ac_sockfd :: fd
  ac_ch :: chan_ptr
  ac_new_conn_callback :: bool
  ac_listening :: bool

definition EMFILE :: errno where "EMFILE = 24"

text \<open>\<open>sockfd\<close> is what \<^verbatim>\<open>socket\<close> returned.\<close>

definition create_nonblocking :: "int \<Rightarrow> fd result" where
  "create_nonblocking sockfd = (if sockfd < 0 then Inl Aborted else Inr sockfd)"

definition on_socks :: "(sock_trace \<Rightarrow> sock_trace) \<Rightarrow> 'z net_scheme \<Rightarrow> 'z net_scheme" where
  "on_socks f w = w\<lparr>n_socks := f (n_socks w)\<rparr>"

text \<open>Construction; \<open>cptr\<close> is the address of the channel inside the new object.\<close>

definition acceptor_new ::
    "os \<Rightarrow> loop_ptr \<Rightarrow> sockaddr_in \<Rightarrow> bool \<Rightarrow> int \<Rightarrow> chan_ptr \<Rightarrow> 'z net_scheme \<Rightarrow> (acceptor \<times> 'z net_scheme) result" where
  "acceptor_new k loop listen_addr reuse_port sockfd cptr w =
     bind_res (create_nonblocking sockfd) (\<lambda>s.
     let w1 = on_socks (socket_set_reuse_addr s True (k_setsockopt k s SO_REUSEADDR)) w;
         w2 = on_socks (socket_set_reuse_port s reuse_port (k_setsockopt k s SO_REUSEPORT)) w1 in
     bind_res (socket_bind_address s listen_addr (k_bind k s) (n_socks w2)) (\<lambda>t.
     let ch = (chan_new s)\<lparr>ch_read_callback := Some Acceptor_handle_read\<rparr>;
         l = n_loops w2 loop in
     Inr (\<lparr>ac_loop = loop, ac_sockfd = s, ac_ch = cptr, ac_new_conn_callback = False, ac_listening = False\<rparr>,
          w2\<lparr>n_socks := t, n_loops := (n_loops w2)(loop := l\<lparr>el_chans := (el_chans l)(cptr \<mapsto> ch)\<rparr>)\<rparr>)))"

text \<open>Destruction: the channel and then the socket are destroyed after the body.\<close>

definition acceptor_destroy :: "os \<Rightarrow> acceptor \<Rightarrow> 'z net_scheme \<Rightarrow> 'z net_scheme result" where
  "acceptor_destroy k ac w =
     bind_res (on_loop (ac_loop ac) (chan_set_mask (k_ctl k) Disable_All (ac_ch ac)) w) (\<lambda>w1.
     bind_res (on_loop (ac_loop ac) (chan_remove (k_ctl k) (ac_ch ac)) w1) (\<lambda>w2.
     let l = n_loops w2 (ac_loop ac) in
     Inr (on_socks (socket_destroy (ac_sockfd ac))
            (w2\<lparr>n_loops := (n_loops w2)(ac_loop ac := l\<lparr>el_chans := (el_chans l)(ac_ch ac := None)\<rparr>)\<rparr>))))"

definition acceptor_listen :: "os \<Rightarrow> acceptor \<Rightarrow> 'z net_scheme \<Rightarrow> (acceptor \<times> 'z net_scheme) result" where
  "acceptor_listen k ac w =
     (let ac1 = ac\<lparr>ac_listening := True\<rparr> in
      bind_res (socket_listen (ac_sockfd ac) (k_listen k (ac_sockfd ac)) (n_socks w)) (\<lambda>t.
      bind_res (on_loop (ac_loop ac) (chan_set_mask (k_ctl k) Enable_Reading (ac_ch ac)) (w\<lparr>n_socks := t\<rparr>)) (\<lambda>w1.
      Inr (ac1, w1))))"

text \<open>
  \<^verbatim>\<open>handle_read\<close>: \<open>outcome\<close> is that of \<^verbatim>\<open>accept4\<close> and \<open>new_conn\<close> the installed callback.
\<close>

definition acceptor_handle_read ::
    "os \<Rightarrow> acceptor \<Rightarrow> (fd \<Rightarrow> sockaddr_in \<Rightarrow> 'z net_scheme \<Rightarrow> 'z net_scheme result) \<Rightarrow>
       errno + (fd \<times> sockaddr_in) \<Rightarrow> 'z net_scheme \<Rightarrow> 'z net_scheme result" where
  "acceptor_handle_read k ac new_conn outcome w =
     (let default_addr = address_new (k_pton k) 0 ''127.0.0.1'';
          (ret, addr) = (case outcome of Inl e \<Rightarrow> (-1, sockaddr_zero) | Inr (f, sa) \<Rightarrow> (f, sa));
          (connfd, peer_addr, t) = socket_accept (ac_sockfd ac) default_addr ret addr (n_socks w);
          w1 = w\<lparr>n_socks := t\<rparr> in
      if connfd \<ge> 0 then
        (if ac_new_conn_callback ac then new_conn connfd peer_addr w1
         else Inr (on_socks (sys_call (Close connfd)) w1))
      else
        (let e = (case outcome of Inl e \<Rightarrow> e | Inr _ \<Rightarrow> 0);
             w2 = net_log ERROR (''accept error: '' @ dec_int e) w1 in
         Inr (if e = EMFILE then net_log ERROR ''sockfd reached limit'' w2 else w2)))"

section \<open>Set-up\<close>

lemma on_socks_simps [simp]:
  "n_socks (on_socks f w) = f (n_socks w)" "n_loops (on_socks f w) = n_loops w"
  "n_conns (on_socks f w) = n_conns w"
  by (simp_all add: on_socks_def)

lemma update_fresh_chan:
  assumes "epoll_documented K" "interest (ep_calls p) f = None" "ch_fd ch = f" "ch_index ch = NEW"
    and "epoll_update_chan K p ptr ch = (ch', p')"
  shows "interest (ep_calls p') f = Some (ch_events ch, ptr)" "ep_log p' = ep_log p"
proof -
  have "chan_registered p ptr ch" using assms(2-4) by (simp add: chan_registered_def NEW_def ADDED_def)
  from update_chan_syncs [OF assms(1) this] assms(3,5)
  show "interest (ep_calls p') f = Some (ch_events ch, ptr)" "ep_log p' = ep_log p"
    by (simp_all add: chan_synced_def)
qed

lemma acceptor_new_ok:
  assumes "0 \<le> sockfd" "k_bind k sockfd = 0"
  shows "acceptor_new k loop addr reuse sockfd cptr w =
     Inr (\<lparr>ac_loop = loop, ac_sockfd = sockfd, ac_ch = cptr, ac_new_conn_callback = False, ac_listening = False\<rparr>,
       w\<lparr>n_socks := sys_call (Bind sockfd addr) (socket_set_reuse_port sockfd reuse (k_setsockopt k sockfd SO_REUSEPORT)
            (socket_set_reuse_addr sockfd True (k_setsockopt k sockfd SO_REUSEADDR) (n_socks w))),
         n_loops := (n_loops w)(loop := (n_loops w loop)\<lparr>el_chans := (el_chans (n_loops w loop))(cptr \<mapsto>
            (chan_new sockfd)\<lparr>ch_read_callback := Some Acceptor_handle_read\<rparr>)\<rparr>)\<rparr>)"
  using assms by (simp add: acceptor_new_def create_nonblocking_def socket_bind_address_def on_socks_def Let_def)

section \<open>Properties\<close>



end
