(* ===== verification/TcpServer.thy ===== *)
theory TcpServer
  imports TcpFrame Acceptor
begin

text \<open>
  The server: \<^verbatim>\<open>include/net/tcp_server.h\<close> and \<^verbatim>\<open>src/net/tcp_server.cpp\<close>.  It owns the acceptor, the pool of
  loop threads and the map of connections, and it is the owner that connections call back when they
  close.  The last section runs a loop of the server: the events of its channels and its functors.
\<close>

section \<open>State\<close>

text \<open>
  Objects are allocated at fresh addresses, counted by \<open>sv_next_ptr\<close>; \<open>sv_accepts\<close> counts the calls
  of \<^verbatim>\<open>accept4\<close>.
\<close>

record tcp_server = net +
  sv_loop :: loop_ptr
  sv_ip_port :: string
  sv_name :: string
  sv_acceptor :: acceptor
  sv_thread_pool :: eloop_tpool
  sv_conn_callback :: bool
  sv_msg_callback :: bool
  sv_write_complete_callback :: bool
  sv_thread_init_callback :: bool
  sv_started :: "32 word"
  sv_next_conn_id :: "32 word"
  sv_conns :: "32 word \<rightharpoonup> conn_ptr"
  sv_next_ptr :: nat
  sv_accepts :: nat

definition check_main_loop_not_null :: "loop_ptr option \<Rightarrow> loop_ptr result" where
  "check_main_loop_not_null loop = (case loop of None \<Rightarrow> Inl Aborted | Some l \<Rightarrow> Inr l)"

text \<open>Construction over a system \<open>w\<close> that holds the loops; \<open>sockfd\<close> is what \<^verbatim>\<open>socket\<close> returned.\<close>

definition tcp_server_new ::
    "os \<Rightarrow> loop_ptr option \<Rightarrow> sockaddr_in \<Rightarrow> string \<Rightarrow> bool \<Rightarrow> int \<Rightarrow> nat \<Rightarrow> net \<Rightarrow> tcp_server result" where
  "tcp_server_new k loop listen_addr name reuse_port sockfd next_ptr w =
     bind_res (check_main_loop_not_null loop) (\<lambda>i.
     bind_res (acceptor_new k i listen_addr reuse_port sockfd next_ptr w) (\<lambda>(ac, w1).
     Inr (net.extend w1
       \<lparr>sv_loop = i, sv_ip_port = address_to_ip_port (k_ntop k) listen_addr, sv_name = name,
        sv_acceptor = ac\<lparr>ac_new_conn_callback := True\<rparr>, sv_thread_pool = eloop_tpool_new i name,
        sv_conn_callback = False, sv_msg_callback = False, sv_write_complete_callback = False,
        sv_thread_init_callback = False, sv_started = 0, sv_next_conn_id = 1, sv_conns = Map.empty,
        sv_next_ptr = next_ptr + 1, sv_accepts = 0\<rparr>)))"

definition tcp_server_set_thread_num :: "tcp_server \<Rightarrow> int \<Rightarrow> tcp_server" where
  "tcp_server_set_thread_num s num = s\<lparr>sv_thread_pool := eloop_tpool_set_thread_num (sv_thread_pool s) num\<rparr>"

definition tcp_server_set_thread_init_callback :: "tcp_server \<Rightarrow> bool \<Rightarrow> tcp_server" where
  "tcp_server_set_thread_init_callback s cb = s\<lparr>sv_thread_init_callback := cb\<rparr>"

definition tcp_server_set_conn_callback :: "tcp_server \<Rightarrow> bool \<Rightarrow> tcp_server" where
  "tcp_server_set_conn_callback s cb = s\<lparr>sv_conn_callback := cb\<rparr>"

definition tcp_server_set_msg_callback :: "tcp_server \<Rightarrow> bool \<Rightarrow> tcp_server" where
  "tcp_server_set_msg_callback s cb = s\<lparr>sv_msg_callback := cb\<rparr>"

definition tcp_server_set_write_complete_callback :: "tcp_server \<Rightarrow> bool \<Rightarrow> tcp_server" where
  "tcp_server_set_write_complete_callback s cb = s\<lparr>sv_write_complete_callback := cb\<rparr>"

section \<open>Listening\<close>

definition server_listen :: "os \<Rightarrow> tcp_server \<Rightarrow> tcp_server result" where
  "server_listen k s = bind_res (acceptor_listen k (sv_acceptor s) s) (\<lambda>(ac, s1). Inr (s1\<lparr>sv_acceptor := ac\<rparr>))"

text \<open>\<^verbatim>\<open>start\<close> in thread \<open>cur\<close>; \<open>new_loop i\<close> is the loop that pool thread \<open>i\<close> publishes.\<close>

definition tcp_server_start :: "os \<Rightarrow> tid \<Rightarrow> (nat \<Rightarrow> loop_ptr) \<Rightarrow> tcp_server \<Rightarrow> tcp_server result" where
  "tcp_server_start k cur new_loop s =
     (let s1 = s\<lparr>sv_started := sv_started s + 1\<rparr> in
      if sv_started s = 0 then
        bind_res (eloop_tpool_start (sv_thread_init_callback s1) new_loop (sv_thread_pool s1)) (\<lambda>p.
        let s2 = s1\<lparr>sv_thread_pool := p\<rparr> in
        if eloop_is_in_loop_thread cur (n_loops s2 (sv_loop s2)) then server_listen k s2
        else Inr (net_queue k cur (sv_loop s2) F_acceptor_listen s2))
      else Inr s1)"

section \<open>Connections\<close>

definition conn_name :: "tcp_server \<Rightarrow> string" where
  "conn_name s = sv_name s @ c_str (snprintf_buf 64
     (''-'' @ c_str (sv_ip_port s) @ ''#'' @ dec_int (sint (sv_next_conn_id s))))"

text \<open>The new connection's callbacks; the close callback is \<^verbatim>\<open>remove_conn\<close>.\<close>

definition set_conn_callbacks :: "tcp_server \<Rightarrow> tcp_conn \<Rightarrow> tcp_conn" where
  "set_conn_callbacks s c = c\<lparr>tc_conn_callback := sv_conn_callback s, tc_msg_callback := sv_msg_callback s,
     tc_write_complete_callback := sv_write_complete_callback s, tc_close_callback := True\<rparr>"

text \<open>The address \<^verbatim>\<open>getsockname\<close> reports, all zero if it fails.\<close>

definition local_address :: "os \<Rightarrow> fd \<Rightarrow> tcp_server \<Rightarrow> sockaddr_in \<times> tcp_server" where
  "local_address k sockfd s =
     (case k_getsockname k sockfd of
        Inl e \<Rightarrow> (sockaddr_zero, net_log ERROR ''failed to get local address'' s)
      | Inr addr \<Rightarrow> (addr, s))"

text \<open>The entry in the map, the next id and the callbacks of the connection at \<open>ptr\<close>.\<close>

definition register_conn :: "conn_ptr \<Rightarrow> 32 word \<Rightarrow> tcp_server \<Rightarrow> tcp_server" where
  "register_conn ptr cid s =
     (let s1 = s\<lparr>sv_next_ptr := ptr + 2, sv_conns := (sv_conns s)(cid \<mapsto> ptr), sv_next_conn_id := cid + 1\<rparr> in
      case n_conns s1 ptr of None \<Rightarrow> s1 | Some c \<Rightarrow> put_conn ptr (set_conn_callbacks s1 c) s1)"

definition new_conn :: "os \<Rightarrow> app \<Rightarrow> tid \<Rightarrow> fd \<Rightarrow> sockaddr_in \<Rightarrow> tcp_server \<Rightarrow> tcp_server result" where
  "new_conn k a cur sockfd peer_addr s =
     bind_res (get_next_loop (sv_thread_pool s)) (\<lambda>(io_loop, pool).
     let name = conn_name s;
         s1 = net_log INFO (''new connection ['' @ c_str name @ ''] from '' @
                c_str (address_to_ip_port (k_ntop k) peer_addr)) (s\<lparr>sv_thread_pool := pool\<rparr>);
         (local, s2) = local_address k sockfd s1;
         ptr = sv_next_ptr s2; cid = sv_next_conn_id s2 in
     bind_res (tcp_conn_new (Some io_loop) cid name sockfd (address_of_sockaddr local) peer_addr ptr (ptr + 1)
                 (k_setsockopt k sockfd SO_KEEPALIVE) s2) (\<lambda>s3.
     let s4 = register_conn ptr cid s3 in
     if eloop_is_in_loop_thread cur (n_loops s4 io_loop) then establish_conn k a cur ptr s4
     else Inr (net_queue k cur io_loop (F_establish_conn ptr) s4)))"

definition remove_conn_in_loop :: "os \<Rightarrow> tid \<Rightarrow> conn_ptr \<Rightarrow> tcp_server \<Rightarrow> tcp_server result" where
  "remove_conn_in_loop k cur ptr s =
     with_conn ptr s (\<lambda>c ch.
     let s1 = net_log INFO (''removing connection '' @ c_str (tc_name c)) s;
         s2 = s1\<lparr>sv_conns := (sv_conns s1)(tc_id c := None)\<rparr> in
     Inr (net_queue k cur (tc_loop c) (F_destroy_conn ptr) s2))"

definition remove_conn :: "os \<Rightarrow> tid \<Rightarrow> conn_ptr \<Rightarrow> tcp_server \<Rightarrow> tcp_server result" where
  "remove_conn k cur ptr s =
     (if eloop_is_in_loop_thread cur (n_loops s (sv_loop s)) then remove_conn_in_loop k cur ptr s
      else Inr (net_queue k cur (sv_loop s) (F_remove_conn_in_loop ptr) s))"

section \<open>Shared pointers to connections\<close>

text \<open>
  The connection that a functor holds a \<^verbatim>\<open>shared_ptr\<close> to.  Those of \<^verbatim>\<open>send\<close> and \<^verbatim>\<open>shutdown\<close> are bound to
  the bare \<^verbatim>\<open>this\<close> and hold nothing.
\<close>

primrec functor_conn :: "loop_functor \<Rightarrow> conn_ptr option" where
  "functor_conn (F_send_in_loop ptr addr len) = None"
| "functor_conn (F_shutdown_in_loop ptr) = None"
| "functor_conn (F_write_complete ptr) = Some ptr"
| "functor_conn (F_high_water_mark ptr n) = Some ptr"
| "functor_conn (F_establish_conn ptr) = Some ptr"
| "functor_conn (F_destroy_conn ptr) = Some ptr"
| "functor_conn (F_remove_conn_in_loop ptr) = Some ptr"
| "functor_conn F_acceptor_listen = None"

definition server_loops :: "tcp_server \<Rightarrow> loop_ptr list" where
  "server_loops s = sv_loop s # lp_loops (sv_thread_pool s)"

text \<open>
  Between the turns of the loops a connection is held by its entry in the map, which was made under
  its id, and by the functors that wait in the loops of the server.
\<close>

definition conn_referenced :: "tcp_server \<Rightarrow> conn_ptr \<Rightarrow> tcp_conn \<Rightarrow> bool" where
  "conn_referenced s ptr c \<longleftrightarrow> sv_conns s (tc_id c) = Some ptr \<or>
     list_ex (\<lambda>i. list_ex (\<lambda>f. functor_conn f = Some ptr) (el_pending_functors (n_loops s i))) (server_loops s)"

text \<open>The destruction of the functors of one batch: the last reference to a connection deletes it.\<close>

primrec release_functors :: "loop_functor list \<Rightarrow> tcp_server \<Rightarrow> tcp_server result" where
  "release_functors [] s = Inr s"
| "release_functors (f # fs) s =
     bind_res
       (case functor_conn f of
          None \<Rightarrow> Inr s
        | Some ptr \<Rightarrow>
            (case n_conns s ptr of
               None \<Rightarrow> Inl Null_Deref
             | Some c \<Rightarrow>
                 if conn_referenced s ptr c \<or> list_ex (\<lambda>g. functor_conn g = Some ptr) fs then Inr s
                 else tcp_conn_delete ptr s))
       (release_functors fs)"

section \<open>Destruction\<close>

text \<open>
  The body of the destructor, in the order \<open>items\<close> the map is traversed: each entry is reset and its
  connection handed to its loop to be destroyed, at once if that loop runs in this thread; then the
  functor was the last to hold it, unless others wait.
\<close>

definition server_drop_conn :: "os \<Rightarrow> app \<Rightarrow> tid \<Rightarrow> tcp_server \<Rightarrow> 32 word \<times> conn_ptr \<Rightarrow> tcp_server result" where
  "server_drop_conn k a cur s item =
     (case n_conns s (snd item) of
        None \<Rightarrow> Inl Null_Deref
      | Some c \<Rightarrow>
          let s1 = s\<lparr>sv_conns := (sv_conns s)(fst item := None)\<rparr> in
          if eloop_is_in_loop_thread cur (n_loops s1 (tc_loop c)) then
            bind_res (destroy_conn k a cur (snd item) s1) (release_functors [F_destroy_conn (snd item)])
          else Inr (net_queue k cur (tc_loop c) (F_destroy_conn (snd item)) s1))"

text \<open>
  Then the members: the destructor of the pool asks every loop thread to quit and joins it, where
  \<open>run_out i\<close> is what the thread of loop \<open>i\<close> still does until it ends; last comes the acceptor.
\<close>

definition server_quit_loop ::
    "os \<Rightarrow> tid \<Rightarrow> (loop_ptr \<Rightarrow> tcp_server \<Rightarrow> tcp_server result) \<Rightarrow> tcp_server \<Rightarrow> eloop_thread \<times> loop_ptr \<Rightarrow> tcp_server result" where
  "server_quit_loop k cur run_out s item =
     (if et_loop (fst item)
      then run_out (snd item)
        (s\<lparr>n_loops := (n_loops s)(snd item := eloop_quit (k_eventfd k) cur (n_loops s (snd item)))\<rparr>)
      else Inr s)"

definition tcp_server_destroy ::
    "os \<Rightarrow> app \<Rightarrow> tid \<Rightarrow> (loop_ptr \<Rightarrow> tcp_server \<Rightarrow> tcp_server result) \<Rightarrow> (32 word \<times> conn_ptr) list \<Rightarrow>
       tcp_server \<Rightarrow> tcp_server result" where
  "tcp_server_destroy k a cur run_out items s =
     bind_res (fold_res (server_drop_conn k a cur) s items) (\<lambda>s1.
     bind_res (fold_res (server_quit_loop k cur run_out) s1
                 (zip (lp_threads (sv_thread_pool s1)) (lp_loops (sv_thread_pool s1)))) (\<lambda>s2.
     acceptor_destroy k (sv_acceptor s2) s2))"

section \<open>Running the server's loops\<close>

definition run_functor :: "os \<Rightarrow> app \<Rightarrow> tid \<Rightarrow> tcp_server \<Rightarrow> loop_functor \<Rightarrow> tcp_server result" where
  "run_functor k a cur s f =
     (case f of
        F_send_in_loop ptr addr len \<Rightarrow> run_send_functor k cur ptr addr len s
      | F_shutdown_in_loop ptr \<Rightarrow> shutdown_in_loop k ptr s
      | F_write_complete ptr \<Rightarrow> run_callback k cur ptr ''write_complete'' True (a_write_complete a ptr) s
      | F_high_water_mark ptr n \<Rightarrow> run_callback k cur ptr ''high_water_mark'' True (a_high_water_mark a ptr n) s
      | F_establish_conn ptr \<Rightarrow> establish_conn k a cur ptr s
      | F_destroy_conn ptr \<Rightarrow> destroy_conn k a cur ptr s
      | F_remove_conn_in_loop ptr \<Rightarrow> remove_conn_in_loop k cur ptr s
      | F_acceptor_listen \<Rightarrow> server_listen k s)"

definition run_chan_callback :: "os \<Rightarrow> app \<Rightarrow> loop_ptr \<Rightarrow> tid \<Rightarrow> tcp_server \<Rightarrow> callback \<Rightarrow> tcp_server result" where
  "run_chan_callback k a i cur s cb =
     (case cb of
        Eloop_handle_read \<Rightarrow> on_loop i (\<lambda>l. Inr (eloop_handle_read (k_eventfd k) l)) s
      | Acceptor_handle_read \<Rightarrow>
          acceptor_handle_read k (sv_acceptor s) (new_conn k a cur) (k_accept k (sv_accepts s))
            (s\<lparr>sv_accepts := sv_accepts s + 1\<rparr>)
      | Conn_handle_read ptr \<Rightarrow> handle_read k a (remove_conn k) cur ptr s
      | Conn_handle_write ptr \<Rightarrow> handle_write k cur ptr s
      | Conn_handle_close ptr \<Rightarrow> handle_close k a (remove_conn k) cur ptr s
      | Conn_handle_error ptr \<Rightarrow> handle_error k ptr s)"

text \<open>One turn of loop \<open>i\<close> in its thread, with the outcome of \<^verbatim>\<open>epoll_wait\<close>.\<close>

definition server_turn ::
    "os \<Rightarrow> app \<Rightarrow> loop_ptr \<Rightarrow> errno + (32 word \<times> chan_ptr) list \<Rightarrow> tcp_server \<Rightarrow> tcp_server result" where
  "server_turn k a i outcome s =
     (let cur = el_thread_id (n_loops s i) in
      loop_turn (\<lambda>s. n_loops s i) (\<lambda>l s. s\<lparr>n_loops := (n_loops s)(i := l)\<rparr>)
        (\<lambda>s ptr. n_conns s ptr \<noteq> None)
        (\<lambda>msgs s. fold (\<lambda>m s. net_log (fst m) (snd m) s) msgs s)
        (run_chan_callback k a i cur) (run_functor k a cur) release_functors outcome s)"

section \<open>The server as owner of its connections\<close>

interpretation srv: conn_owner "remove_conn k" for k
proof
  fix w :: tcp_server and ptr c ch cur
  assume at: "conn_at w ptr c ch"
  let ?w = "w\<lparr>n_socks := add_log INFO (''removing connection '' @ c_str (tc_name c)) (n_socks w),
              sv_conns := (sv_conns w)(tc_id c := None)\<rparr>"
  have "conn_at ?w ptr c ch" using at by (simp add: conn_at_def)
  then have "ensures (remove_conn_in_loop k cur ptr w) (\<lambda>w'. conn_at w' ptr c ch)"
    using at by (simp add: remove_conn_in_loop_def net_log_def)
  then show "ensures (remove_conn k cur ptr w) (\<lambda>w'. conn_at w' ptr c ch)"
    using at by (simp add: remove_conn_def)
qed

section \<open>The map of connections\<close>

text \<open>
  Every entry of the map leads to an existing connection that carries the key as its id; addresses
  from \<open>sv_next_ptr\<close> on are free.
\<close>

definition server_inv :: "tcp_server \<Rightarrow> bool" where
  "server_inv s \<longleftrightarrow>
     (\<forall>cid ptr. sv_conns s cid = Some ptr \<longrightarrow> map_option tc_id (n_conns s ptr) = Some cid) \<and>
     (\<forall>ptr \<ge> sv_next_ptr s. n_conns s ptr = None)"

lemma keeps_server:
  assumes "keeps s s'"
  shows "sv_conns s' = sv_conns s" "sv_next_ptr s' = sv_next_ptr s" "sv_loop s' = sv_loop s"
    "map_option tc_id (n_conns s' q) = map_option tc_id (n_conns s q)"
    "n_conns s' q = None \<longleftrightarrow> n_conns s q = None"
proof -
  show ids: "map_option tc_id (n_conns s' q) = map_option tc_id (n_conns s q)" for q
    using assms by (simp add: keeps_def)
  show "n_conns s' q = None \<longleftrightarrow> n_conns s q = None"
    using ids [of q] by (metis map_option_is_None)
  have "net.more s' = net.more s" using assms by (simp add: keeps_def)
  then show "sv_conns s' = sv_conns s" "sv_next_ptr s' = sv_next_ptr s" "sv_loop s' = sv_loop s"
    by (cases s; cases s'; simp)+
qed

lemma server_inv_keeps: "server_inv s \<Longrightarrow> keeps s s' \<Longrightarrow> server_inv s'"
  using keeps_server [of s s'] by (simp add: server_inv_def)

lemma server_inv_yields: "server_inv s \<Longrightarrow> yields r (keeps s) \<Longrightarrow> yields r server_inv"
  by (blast intro: yields_mono server_inv_keeps)

lemma net_log_sv [simp]:
  "n_conns (net_log lv m s) = n_conns s" "sv_conns (net_log lv m s) = sv_conns s"
  "sv_next_ptr (net_log lv m s) = sv_next_ptr s" "n_loops (net_log lv m s) = n_loops s"
  "sv_next_conn_id (net_log lv m s) = sv_next_conn_id s" "sv_loop (net_log lv m s) = sv_loop s"
  "st_calls (n_socks (net_log lv m s)) = st_calls (n_socks s)"
  by (simp_all add: net_log_def)

lemma net_queue_sv [simp]:
  "sv_conns (net_queue k cur i f s) = sv_conns s" "sv_next_ptr (net_queue k cur i f s) = sv_next_ptr s"
  "sv_next_conn_id (net_queue k cur i f s) = sv_next_conn_id s" "sv_loop (net_queue k cur i f s) = sv_loop s"
  by (simp_all add: net_queue_def)

lemma server_inv_frame [simp]:
  "server_inv (net_log lv m s) = server_inv s" "server_inv (net_queue k cur i f s) = server_inv s"
  by (simp_all add: server_inv_def)

lemma inv_remove_conn_in_loop: "server_inv s \<Longrightarrow> yields (remove_conn_in_loop k cur ptr s) server_inv"
  unfolding remove_conn_in_loop_def by (rule yields_with_conn) (auto simp: server_inv_def)

lemma inv_remove_conn: "server_inv s \<Longrightarrow> yields (remove_conn k cur ptr s) server_inv"
  by (simp add: remove_conn_def inv_remove_conn_in_loop)

lemma inv_close:
  assumes "server_inv s"
  shows "yields (handle_close k a (remove_conn k) cur ptr s) server_inv"
proof (unfold handle_close_def, rule yields_with_conn)
  fix c ch assume c: "n_conns s ptr = Some c"
  let ?s = "put_conn ptr (c\<lparr>tc_state := DISCONNECTED\<rparr>) (net_log INFO (''closing conn ['' @ c_str (tc_name c) @ ''] fd='' @ dec_int (ch_fd ch)) s)"
  have "keeps s ?s" by (rule keeps_put [where c = c]) (simp_all add: c)
  with assms have s: "server_inv ?s" by (rule server_inv_keeps)
  show "yields (let w1 = net_log INFO (''closing conn ['' @ c_str (tc_name c) @ ''] fd='' @ dec_int (ch_fd ch)) s in
     bind_res (conn_mask k Disable_All c (put_conn ptr (c\<lparr>tc_state := DISCONNECTED\<rparr>) w1)) (\<lambda>w2.
     bind_res (run_conn_callback k a cur ptr w2) (\<lambda>w3.
     if tc_close_callback c then remove_conn k cur ptr w3 else Inr w3))) server_inv"
    unfolding Let_def
    by (intro yields_bindI [where P = server_inv] server_inv_yields [OF s keeps_conn_mask]
        server_inv_yields [OF _ keeps_conn_callback]) (simp_all add: inv_remove_conn)
qed

lemma inv_read:
  assumes "server_inv s"
  shows "yields (handle_read k a (remove_conn k) cur ptr s) server_inv"
proof (unfold handle_read_def, rule yields_with_conn)
  fix c ch assume c: "n_conns s ptr = Some c"
  let ?r = "read_fd (tc_input_buf c) (k_read k ptr (tc_reads c) (readv_capacity (tc_input_buf c)))"
  have "keeps s (put_conn ptr (c\<lparr>tc_reads := tc_reads c + 1, tc_input_buf := b,
       tc_received := tc_received c @ bytes_read (k_read k ptr (tc_reads c) (readv_capacity (tc_input_buf c)))\<rparr>) s)" for b
    by (rule keeps_put [OF _ c]) simp_all
  with assms have s: "server_inv (put_conn ptr (c\<lparr>tc_reads := tc_reads c + 1, tc_input_buf := b,
       tc_received := tc_received c @ bytes_read (k_read k ptr (tc_reads c) (readv_capacity (tc_input_buf c)))\<rparr>) s)" for b
    by (rule server_inv_keeps)
  show "yields (bind_res ?r (\<lambda>(n, saved_errno, b).
     let w1 = put_conn ptr (c\<lparr>tc_reads := tc_reads c + 1, tc_input_buf := b,
       tc_received := tc_received c @ bytes_read (k_read k ptr (tc_reads c) (readv_capacity (tc_input_buf c)))\<rparr>) s in
     if n > 0 then run_callback k cur ptr ''msg'' (tc_msg_callback c) (a_msg a ptr (contents b)) w1
     else if n = 0 then handle_close k a (remove_conn k) cur ptr w1
     else handle_error k ptr
            (net_log ERROR (''read error: '' @ k_strerror k (case saved_errno of Some e \<Rightarrow> e | None \<Rightarrow> 0)) w1))) server_inv"
    using s by (cases ?r) (auto simp: Let_def inv_close intro!: server_inv_yields [OF _ keeps_callback]
        server_inv_yields [OF _ keeps_error])
qed

text \<open>A new connection: the effect of \<^verbatim>\<open>tcp_conn_new\<close> and of filling in map and callbacks.\<close>

lemma tcp_conn_new_conns:
  assumes "tcp_conn_new (Some i) cid name sockfd la pa ptr cptr ret s = Inr s'"
  defines "c \<equiv> the (n_conns s' ptr)"
  shows "tc_id c = cid" "tc_loop c = i" "tc_ch c = cptr" "tc_name c = name" "tc_sockfd c = sockfd"
    "tc_state c = CONNENTING" "n_conns s' = (n_conns s)(ptr \<mapsto> c)" "net.more s' = net.more s"
  using assms(1) unfolding c_def
  by (auto simp: tcp_conn_new_def check_loop_not_null_def bind_res_eq_Inr Let_def put_conn_def net_log_def)

lemma local_address_frame:
  assumes "local_address k sockfd s = (la, s')"
  shows "n_conns s' = n_conns s" "sv_conns s' = sv_conns s" "sv_next_ptr s' = sv_next_ptr s"
    "sv_next_conn_id s' = sv_next_conn_id s" "n_loops s' = n_loops s"
  using assms by (auto simp: local_address_def split: sum.splits)

lemma inv_register:
  assumes "server_inv s" "n_conns s' = (n_conns s)(sv_next_ptr s \<mapsto> c)" "sv_conns s' = sv_conns s"
    and "tc_id c = cid"
  shows "server_inv (register_conn (sv_next_ptr s) cid s')"
proof -
  have "sv_conns s i \<noteq> Some (sv_next_ptr s)" for i
    using assms(1) by (auto simp: server_inv_def dest!: spec [of _ i] spec [of _ "sv_next_ptr s"])
  with assms show ?thesis
    by (simp add: server_inv_def register_conn_def put_conn_def set_conn_callbacks_def Let_def)
qed

lemma inv_new_conn:
  assumes "server_inv s"
  shows "yields (new_conn k a cur sockfd peer_addr s) server_inv"
proof (cases "get_next_loop (sv_thread_pool s)")
  case (Inr lp)
  obtain i pool where lp: "lp = (i, pool)" by (cases lp)
  let ?s1 = "net_log INFO (''new connection ['' @ c_str (conn_name s) @ ''] from '' @
                c_str (address_to_ip_port (k_ntop k) peer_addr)) (s\<lparr>sv_thread_pool := pool\<rparr>)"
  obtain la s2 where s2: "local_address k sockfd ?s1 = (la, s2)" by fastforce
  note eq = local_address_frame [OF s2, simplified]
  let ?ptr = "sv_next_ptr s" and ?cid = "sv_next_conn_id s"
  let ?new = "tcp_conn_new (Some i) ?cid (conn_name s) sockfd (address_of_sockaddr la) peer_addr ?ptr (?ptr + 1)
    (k_setsockopt k sockfd SO_KEEPALIVE) s2"
  have "server_inv (register_conn ?ptr ?cid s3)" if new: "?new = Inr s3" for s3
  proof (rule inv_register [OF assms])
    have "net.more s3 = net.more s2" using tcp_conn_new_conns(8) [OF new] .
    then show "sv_conns s3 = sv_conns s" using eq(2) by (cases s3; cases s2) simp
    show "n_conns s3 = (n_conns s)(?ptr \<mapsto> the (n_conns s3 ?ptr))"
      using tcp_conn_new_conns(7) [OF new] eq(1) by simp
    show "tc_id (the (n_conns s3 ?ptr)) = ?cid" using tcp_conn_new_conns(1) [OF new] .
  qed
  moreover have "new_conn k a cur sockfd peer_addr s = bind_res ?new (\<lambda>s3.
      let s4 = register_conn ?ptr ?cid s3 in
      if eloop_is_in_loop_thread cur (n_loops s4 i) then establish_conn k a cur ?ptr s4
      else Inr (net_queue k cur i (F_establish_conn ?ptr) s4))"
    using Inr s2 eq lp by (simp add: new_conn_def Let_def cong: if_cong)
  ultimately show ?thesis
    by (cases ?new) (auto simp: Let_def intro: server_inv_yields [OF _ keeps_establish])
qed (simp add: new_conn_def)

lemma inv_server_listen: "server_inv s \<Longrightarrow> yields (server_listen k s) server_inv"
proof -
  assume s: "server_inv s"
  have "keeps s (s\<lparr>n_socks := t\<rparr>)" for t by simp
  from keeps_from [OF keeps_on_loop this] have
    "yields (on_loop i f (s\<lparr>n_socks := t\<rparr>)) (keeps s)" for i f t .
  then have "yields (on_loop i f (s\<lparr>n_socks := t\<rparr>)) server_inv" for i f t
    by (rule server_inv_yields [OF s])
  then have "yields (bind_res (on_loop i f (s\<lparr>n_socks := t\<rparr>)) (\<lambda>w1. Inr (ac, w1))) (\<lambda>(ac, s1). server_inv s1)"
    for i f t and ac :: acceptor
    by (rule yields_bindI) simp
  then have "yields (acceptor_listen k (sv_acceptor s) s) (\<lambda>(ac, s1). server_inv s1)"
    by (simp add: acceptor_listen_def Let_def socket_listen_def)
  then show ?thesis
    unfolding server_listen_def by (rule yields_bindI) (auto simp: server_inv_def)
qed

lemma inv_functor: "server_inv s \<Longrightarrow> yields (run_functor k a cur s f) server_inv"
  by (cases f) (auto simp: run_functor_def inv_remove_conn_in_loop inv_server_listen
    intro: server_inv_yields keeps_run_send_functor keeps_shutdown_in_loop keeps_callback keeps_establish
      keeps_destroy)

lemma inv_chan_callback:
  assumes "server_inv s"
  shows "yields (run_chan_callback k a i cur s cb) server_inv"
proof (cases cb)
  case Acceptor_handle_read
  let ?s = "s\<lparr>sv_accepts := sv_accepts s + 1\<rparr>"
  have s: "server_inv (?s\<lparr>n_socks := t\<rparr>)" for t using assms by (simp add: server_inv_def)
  have "yields (acceptor_handle_read k (sv_acceptor s) (new_conn k a cur) out ?s) server_inv" for out
    using s by (simp add: acceptor_handle_read_def socket_accept_def Let_def inv_new_conn on_socks_def
        split: sum.splits prod.splits)
  with Acceptor_handle_read show ?thesis by (simp add: run_chan_callback_def)
qed (use assms in \<open>auto simp: run_chan_callback_def inv_read inv_close
    intro: server_inv_yields keeps_on_loop keeps_write keeps_error\<close>)

section \<open>Runs of the server\<close>

text \<open>What the loops of a server do, in any order: a functor run in thread \<open>cur\<close>, or a channel callback.\<close>

datatype server_op = Op_functor tid loop_functor | Op_callback loop_ptr tid callback

primrec run_server_op :: "os \<Rightarrow> app \<Rightarrow> tcp_server \<Rightarrow> server_op \<Rightarrow> tcp_server result" where
  "run_server_op k a s (Op_functor cur f) = run_functor k a cur s f"
| "run_server_op k a s (Op_callback i cur cb) = run_chan_callback k a i cur s cb"

lemma inv_run: "server_inv s \<Longrightarrow> yields (fold_res (run_server_op k a) s ops) server_inv"
proof (rule yields_fold)
  fix s op assume "server_inv s"
  then show "yields (run_server_op k a s op) server_inv"
    by (cases op) (simp_all add: inv_functor inv_chan_callback)
qed

lemma inv_server_new:
  assumes "tcp_server_new k loop addr name reuse sockfd p w = Inr s" "n_conns w = Map.empty"
  shows "server_inv s" "sv_next_conn_id s = 1" "sv_conns s = Map.empty"
  using assms
  by (auto simp: tcp_server_new_def acceptor_new_def bind_res_eq_Inr Let_def server_inv_def net.extend_def on_socks_def)

section \<open>Properties\<close>

definition server_example :: tcp_server where
  "server_example = net.extend net_example
     \<lparr>sv_loop = 0, sv_ip_port = ''127.0.0.1:80'', sv_name = ''srv'',
      sv_acceptor = \<lparr>ac_loop = 0, ac_sockfd = 5, ac_ch = 99, ac_new_conn_callback = True, ac_listening = False\<rparr>,
      sv_thread_pool = eloop_tpool_new 0 ''srv'', sv_conn_callback = True, sv_msg_callback = True,
      sv_write_complete_callback = True, sv_thread_init_callback = False, sv_started = 0, sv_next_conn_id = 1,
      sv_conns = Map.empty, sv_next_ptr = 100, sv_accepts = 0\<rparr>"

lemma server_example_inv [simp]: "server_inv server_example"
  by (simp add: server_inv_def server_example_def net.extend_def net_example_def)

text \<open>A server with one established connection, at address 100 with its channel at 101.\<close>

definition conn_example :: tcp_conn where
  "conn_example = \<lparr>tc_loop = 0, tc_id = 1, tc_name = ''srv-127.0.0.1:80#1'', tc_state = CONNECTED,
     tc_reading = True, tc_sockfd = 6, tc_ch = 101, tc_local_addr = sockaddr_zero, tc_peer_addr = sockaddr_zero,
     tc_conn_callback = True, tc_msg_callback = True, tc_write_complete_callback = True,
     tc_close_callback = True, tc_high_water_mark_callback = True, tc_high_water_mark = 10,
     tc_input_buf = buffer_example, tc_output_buf = buffer_example, tc_wire = [], tc_accepted = [], tc_received = [],
     tc_writes = 0, tc_reads = 0\<rparr>"

definition conn_world :: tcp_server where
  "conn_world = server_example\<lparr>n_conns := [100 \<mapsto> conn_example],
     n_loops := (\<lambda>_. loop_example\<lparr>el_chans := [101 \<mapsto> chan_new 6]\<rparr>), sv_conns := [1 \<mapsto> 100],
     sv_loop := 0, sv_next_ptr := 102\<rparr>"

lemma conn_world_at [simp]: "conn_at conn_world 100 conn_example (chan_new 6)"
  by (simp add: conn_at_def conn_world_def conn_example_def loop_example_def)

lemma conn_example_inv [simp]: "conn_inv conn_example (is_writing (chan_new 6))"
  by (simp add: conn_inv_def conn_example_def is_writing_def chan_new_def contents_def buffer_example_def
      [THEN arg_cong, of writer_index] buffer_example_def [THEN arg_cong, of reader_index])



text \<open>
  C33.  \<^verbatim>\<open>start()\<close> takes effect once: after a first call that succeeded, a further call changes nothing but
  the counter of calls, whichever thread makes it.
\<close>

theorem tcp_server_start_once:
  assumes "tcp_server_start k cur new_loop s = Inr s'" and "sv_started s = 0"
  shows "tcp_server_start k cur' new_loop' s' = Inr (s'\<lparr>sv_started := 2\<rparr>)"
proof -
  have "sv_started s' = 1"
    using assms by (auto simp: tcp_server_start_def bind_res_eq_Inr Let_def server_listen_def
        acceptor_listen_def on_loop_def net_queue_def split: if_splits)
  then show ?thesis by (simp add: tcp_server_start_def Let_def)
qed

theorem tcp_server_start_once_witness:
  "\<exists>s'. tcp_server_start os_example 8 (\<lambda>_. 0) server_example = Inr s' \<and>
     tcp_server_start os_example 7 (\<lambda>_. 0) s' = Inr (s'\<lparr>sv_started := 2\<rparr>)"
proof -
  obtain s' where s': "tcp_server_start os_example 8 (\<lambda>_. 0) server_example = Inr s'"
    by (simp add: tcp_server_start_def eloop_tpool_start_def eloop_tpool_new_def server_example_def net.extend_def
        eloop_is_in_loop_thread_def net_example_def loop_example_def Let_def)
  have "sv_started server_example = 0" by (simp add: server_example_def net.extend_def)
  from tcp_server_start_once [OF s' this] s' show ?thesis by blast
qed

text \<open>
  C23.  A connection accepted in the main thread for a loop of another thread: the pool's next loop
  gets it; it is entered in the map under the next id, at a fresh address, with the server's
  callbacks and not yet connected; and the only thing its loop is asked to do is \<^verbatim>\<open>establish_conn\<close>.
\<close>

theorem new_conn_hands_over:
  assumes "server_inv s" and "get_next_loop (sv_thread_pool s) = Inr (i, pool)"
    and "el_thread_id (n_loops s i) \<noteq> cur"
  shows "\<exists>s'. new_conn k a cur sockfd peer_addr s = Inr s' \<and>
     n_conns s (sv_next_ptr s) = None \<and> (\<forall>q. q \<noteq> sv_next_ptr s \<longrightarrow> n_conns s' q = n_conns s q) \<and>
     sv_conns s' = (sv_conns s)(sv_next_conn_id s \<mapsto> sv_next_ptr s) \<and>
     sv_next_conn_id s' = sv_next_conn_id s + 1 \<and>
     (\<exists>c. n_conns s' (sv_next_ptr s) = Some c \<and>
        tc_id c = sv_next_conn_id s \<and> tc_loop c = i \<and> tc_sockfd c = sockfd \<and> tc_state c = CONNENTING \<and>
        tc_close_callback c \<and> tc_conn_callback c = sv_conn_callback s \<and> tc_msg_callback c = sv_msg_callback s \<and>
        tc_write_complete_callback c = sv_write_complete_callback s \<and> tc_name c = conn_name s) \<and>
     el_pending_functors (n_loops s' i) = el_pending_functors (n_loops s i) @ [F_establish_conn (sv_next_ptr s)]"
proof -
  have "CHEAP_PREPEND + INITIAL_SIZE \<le> vector_max_size"
    by (simp add: CHEAP_PREPEND_def INITIAL_SIZE_def vector_max_size_def)
  then obtain b where b: "buffer_new INITIAL_SIZE = Inr b" by (rule buffer_new_ok)
  have "n_conns s (sv_next_ptr s) = None" using assms(1) by (simp add: server_inv_def)
  with assms(2,3) b show ?thesis
    by (cases "k_getsockname k sockfd")
      (simp_all add: new_conn_def local_address_def tcp_conn_new_def check_loop_not_null_def
        register_conn_def put_conn_def net_log_def set_conn_callbacks_def eloop_is_in_loop_thread_def
        net_queue_def eloop_queue_in_loop_def eloop_push_def Let_def)
qed

theorem new_conn_hands_over_witness:
  "\<exists>s'. new_conn os_example app_example 8 6 sockaddr_zero server_example = Inr s' \<and>
     sv_conns s' = [1 \<mapsto> 100] \<and> sv_next_conn_id s' = 2 \<and>
     el_pending_functors (n_loops s' 0) = [F_establish_conn 100]"
proof -
  have "get_next_loop (sv_thread_pool server_example) = Inr (0, sv_thread_pool server_example)"
    "el_thread_id (n_loops server_example 0) \<noteq> 8"
    by (simp_all add: get_next_loop_def server_example_def net.extend_def eloop_tpool_new_def
        net_example_def loop_example_def)
  from new_conn_hands_over [OF server_example_inv this, of os_example app_example 6 sockaddr_zero] show ?thesis
    by (auto simp: server_example_def net.extend_def net_example_def loop_example_def)
qed

text \<open>\<^verbatim>\<open>handle_close\<close> on a connection of a server whose loop runs in the current thread.\<close>

lemma handle_close_removes:
  assumes "conn_at s ptr c ch" "tc_close_callback c" "el_thread_id (n_loops s (sv_loop s)) = cur"
  shows "\<exists>s' b. handle_close k a (remove_conn k) cur ptr s = Inr s' \<and>
     n_conns s' ptr = Some (c\<lparr>tc_state := DISCONNECTED, tc_input_buf := b\<rparr>) \<and>
     sv_conns s' = (sv_conns s)(tc_id c := None) \<and>
     el_pending_functors (n_loops s' (tc_loop c)) =
       el_pending_functors (n_loops s (tc_loop c)) @ [F_destroy_conn ptr]"
proof -
  let ?c = "c\<lparr>tc_state := DISCONNECTED\<rparr>"
  let ?s1 = "put_conn ptr ?c (net_log INFO (''closing conn ['' @ c_str (tc_name c) @ ''] fd='' @ dec_int (ch_fd ch)) s)"
  have "conn_at ?s1 ptr ?c ch" by (rule conn_at_put [of _ _ c]) (simp_all add: assms(1))
  then obtain s2 ch' where s2: "conn_mask k Disable_All c ?s1 = Inr s2" "conn_at s2 ptr ?c ch'"
    by (rule conn_mask_at [where c = c and k = k and m = Disable_All]) simp_all
  note loops = conn_mask_loops [OF s2(1)]
  have more: "sv_conns s2 = sv_conns s" "sv_loop s2 = sv_loop s"
    using loops(3) by (cases s2; cases s; simp add: put_conn_def net_log_def)+
  obtain b t where cb: "run_conn_callback k a cur ptr s2 = Inr (put_conn ptr (?c\<lparr>tc_input_buf := b\<rparr>) (s2\<lparr>n_calls := t\<rparr>))"
    using closed_conn_callback [OF s2(2)] by force
  let ?s3 = "put_conn ptr (?c\<lparr>tc_input_buf := b\<rparr>) (s2\<lparr>n_calls := t\<rparr>)"
  have at3: "conn_at ?s3 ptr (?c\<lparr>tc_input_buf := b\<rparr>) ch'"
    by (rule conn_at_put [of _ _ ?c]) (simp_all add: s2(2))
  have "handle_close k a (remove_conn k) cur ptr s = remove_conn k cur ptr ?s3"
    using assms(1,2) s2(1) cb by (simp add: handle_close_def)
  also have "\<dots> = remove_conn_in_loop k cur ptr ?s3"
    using assms(3) loops(1) more by (simp add: remove_conn_def eloop_is_in_loop_thread_def put_conn_def net_log_def)
  also have "\<dots> = Inr (net_queue k cur (tc_loop c) (F_destroy_conn ptr)
      ((net_log INFO (''removing connection '' @ c_str (tc_name c)) ?s3)\<lparr>sv_conns := (sv_conns ?s3)(tc_id c := None)\<rparr>))"
    (is "_ = Inr ?s4")
    using at3 by (simp add: remove_conn_in_loop_def Let_def)
  finally have eq: "handle_close k a (remove_conn k) cur ptr s = Inr ?s4" .
  have "n_conns ?s4 ptr = Some (?c\<lparr>tc_input_buf := b\<rparr>)" "sv_conns ?s4 = (sv_conns s)(tc_id c := None)"
    "el_pending_functors (n_loops ?s4 (tc_loop c)) =
       el_pending_functors (n_loops s (tc_loop c)) @ [F_destroy_conn ptr]"
    using loops(2) more by (simp_all add: queue_pending put_conn_def net_log_def)
  with eq show ?thesis by blast
qed

text \<open>
  When the peer closes its side, a read event in the main loop's thread tears the connection
  down: its state becomes \<^verbatim>\<open>DISCONNECTED\<close>, its id leaves the map, and the last thing its loop is asked
  to do is \<^verbatim>\<open>destroy_conn\<close>, which keeps the connection alive until then.
\<close>

theorem peer_close_removes_conn:
  assumes "conn_at s ptr c ch" and "conn_inv c (is_writing ch)"
    and "k_read k ptr (tc_reads c) (readv_capacity (tc_input_buf c)) = Inr []" and "tc_close_callback c"
    and "el_thread_id (n_loops s (sv_loop s)) = cur"
  shows "\<exists>s' c'. handle_read k a (remove_conn k) cur ptr s = Inr s' \<and>
     sv_conns s' = (sv_conns s)(tc_id c := None) \<and>
     n_conns s' ptr = Some c' \<and> tc_state c' = DISCONNECTED \<and> tc_id c' = tc_id c \<and>
     el_pending_functors (n_loops s' (tc_loop c)) =
       el_pending_functors (n_loops s (tc_loop c)) @ [F_destroy_conn ptr]"
proof -
  have inv: "buf_inv (tc_input_buf c)" using assms(2) by (simp add: conn_inv_def)
  obtain b where b: "read_fd (tc_input_buf c) (Inr []) = Inr (0, None, b)"
    using read_fd_fits [OF inv, of "[]"] by force
  let ?c = "c\<lparr>tc_reads := tc_reads c + 1, tc_input_buf := b,
       tc_received := tc_received c @ bytes_read (k_read k ptr (tc_reads c) (readv_capacity (tc_input_buf c)))\<rparr>"
  let ?s = "put_conn ptr ?c s"
  have at: "conn_at ?s ptr ?c ch" using assms(1) by (rule conn_at_put) simp_all
  have "handle_read k a (remove_conn k) cur ptr s = handle_close k a (remove_conn k) cur ptr ?s"
    using assms(1,3) b by (simp add: handle_read_def Let_def)
  with handle_close_removes [OF at, of cur k a] assms(4,5) show ?thesis
    by (auto simp: put_conn_def)
qed

theorem peer_close_removes_conn_witness:
  "\<exists>s' c'. handle_read os_example app_example (remove_conn os_example) 7 100 conn_world = Inr s' \<and>
     sv_conns s' = Map.empty \<and> n_conns s' 100 = Some c' \<and> tc_state c' = DISCONNECTED \<and>
     el_pending_functors (n_loops s' 0) = [F_destroy_conn 100]"
proof -
  have "k_read os_example 100 (tc_reads conn_example) (readv_capacity (tc_input_buf conn_example)) = Inr []"
    "tc_close_callback conn_example" "el_thread_id (n_loops conn_world (sv_loop conn_world)) = 7"
    by (simp_all add: os_example_def conn_example_def conn_world_def loop_example_def)
  from peer_close_removes_conn [OF conn_world_at conn_example_inv this, of app_example] show ?thesis
    by (auto simp: conn_world_def conn_example_def loop_example_def)
qed

end
