(* ===== verification/LoopInv.thy ===== *)
theory LoopInv
  imports ELoop
begin

text \<open>
  The channels of a loop and the kernel's interest list: an event loop is well formed when each of its
  channels agrees with the kernel, the kernel knows no address without a live channel behind it, and no
  two channels share a descriptor.  The lemmas follow the operations that change channels.
\<close>

section \<open>Well-formed loops\<close>

definition chans_wf :: "epoll_poller \<Rightarrow> chan_store \<Rightarrow> bool" where
  "chans_wf p chans \<longleftrightarrow>
     (\<forall>q ch. chans q = Some ch \<longrightarrow> chan_synced p q ch) \<and>
     (\<forall>f e q. interest (ep_calls p) f = Some (e, q) \<longrightarrow> (\<exists>ch. chans q = Some ch \<and> ch_fd ch = f)) \<and>
     (\<forall>q q' ch ch'. chans q = Some ch \<longrightarrow> chans q' = Some ch' \<longrightarrow> ch_fd ch = ch_fd ch' \<longrightarrow> q = q')"

definition loop_wf :: "'f eloop \<Rightarrow> bool" where
  "loop_wf l \<longleftrightarrow> (\<exists>p. el_poller l = Some p \<and> chans_wf p (el_chans l))"

text \<open>The parts of a channel that neither its mask nor the poller changes.\<close>

definition same_chan :: "chan \<Rightarrow> chan \<Rightarrow> bool" where
  "same_chan ch ch' \<longleftrightarrow> ch_fd ch' = ch_fd ch \<and>
     ch_read_callback ch' = ch_read_callback ch \<and> ch_write_callback ch' = ch_write_callback ch \<and>
     ch_close_callback ch' = ch_close_callback ch \<and> ch_error_callback ch' = ch_error_callback ch"

lemma same_chan_refl [simp]: "same_chan ch ch"
  by (simp add: same_chan_def)

lemma same_chan_trans: "same_chan ch ch1 \<Longrightarrow> same_chan ch1 ch2 \<Longrightarrow> same_chan ch ch2"
  by (simp add: same_chan_def)

lemma same_chan_simps [simp]:
  "same_chan ch (chan_mask m ch')  = same_chan ch ch'"
  "same_chan ch (chan_set_index ch' n) = same_chan ch ch'"
  "same_chan ch (chan_set_revents ch' e) = same_chan ch ch'"
  "same_chan ch (chan_tie ch' x) = same_chan ch ch'"
  by (simp_all add: same_chan_def chan_set_index_def chan_set_revents_def chan_tie_def)

lemma chan_set_index_id: "ch_index ch = i \<Longrightarrow> chan_set_index ch i = ch"
  by (auto simp: chan_set_index_def)

lemma chans_wf_synced: "chans_wf p chans \<Longrightarrow> chans q = Some ch \<Longrightarrow> chan_synced p q ch"
  by (simp add: chans_wf_def)

lemma chans_wf_fd:
  "chans_wf p chans \<Longrightarrow> chans q = Some ch \<Longrightarrow> chans q' = Some ch' \<Longrightarrow> ch_fd ch = ch_fd ch' \<Longrightarrow> q = q'"
  by (simp add: chans_wf_def)

lemma chans_wf_interest:
  assumes "chans_wf p chans" "interest (ep_calls p) f = Some (e, q)"
  obtains ch where "chans q = Some ch" "ch_fd ch = f"
  using assms unfolding chans_wf_def by metis

lemma chans_wfI:
  assumes "\<And>q ch. chans q = Some ch \<Longrightarrow> chan_synced p q ch"
    and "\<And>f e q. interest (ep_calls p) f = Some (e, q) \<Longrightarrow> \<exists>ch. chans q = Some ch \<and> ch_fd ch = f"
    and "\<And>q q' ch ch'. chans q = Some ch \<Longrightarrow> chans q' = Some ch' \<Longrightarrow> ch_fd ch = ch_fd ch' \<Longrightarrow> q = q'"
  shows "chans_wf p chans"
  using assms unfolding chans_wf_def by blast

text \<open>One channel and the kernel's entry for its descriptor change together.\<close>

lemma chans_wf_upd:
  assumes wf: "chans_wf p chans" and q: "chans q = Some ch" and fd: "ch_fd ch' = ch_fd ch"
    and sync: "chan_synced p' q ch'"
    and other: "\<forall>f. f \<noteq> ch_fd ch \<longrightarrow> interest (ep_calls p') f = interest (ep_calls p) f"
  shows "chans_wf p' (chans(q \<mapsto> ch'))"
proof -
  have apart: "ch_fd ch2 \<noteq> ch_fd ch" if "q2 \<noteq> q" "chans q2 = Some ch2" for q2 ch2
    using chans_wf_fd [OF wf that(2) q] that(1) by blast
  have 1: "chan_synced p' q2 ch2" if "(chans(q \<mapsto> ch')) q2 = Some ch2" for q2 ch2
  proof (cases "q2 = q")
    case False
    with that have "chans q2 = Some ch2" by simp
    with apart [OF False this] chans_wf_synced [OF wf this] other show ?thesis by (simp add: chan_synced_def)
  qed (use sync that in simp)
  have 2: "\<exists>ch2. (chans(q \<mapsto> ch')) q2 = Some ch2 \<and> ch_fd ch2 = f" if "interest (ep_calls p') f = Some (e, q2)" for f e q2
  proof (cases "f = ch_fd ch")
    case True
    then have "interest (ep_calls p') (ch_fd ch') = Some (e, q2)" using that fd by simp
    then have "q2 = q" using sync by (simp add: chan_synced_def split: if_splits)
    with True fd show ?thesis by simp
  next
    case False
    then have "interest (ep_calls p) f = Some (e, q2)" using that other by simp
    then obtain ch2 where "chans q2 = Some ch2" "ch_fd ch2 = f" by (rule chans_wf_interest [OF wf])
    with q False show ?thesis by (cases "q2 = q") auto
  qed
  have 3: "q1 = q2" if "(chans(q \<mapsto> ch')) q1 = Some ch1" "(chans(q \<mapsto> ch')) q2 = Some ch2" "ch_fd ch1 = ch_fd ch2"
    for q1 q2 ch1 ch2
    using that apart fd chans_wf_fd [OF wf] by (auto split: if_splits)
  from 1 2 3 show ?thesis by (rule chans_wfI)
qed

lemma chans_wf_same:
  assumes "chans_wf p chans" "chans q = Some ch" "ch_fd ch' = ch_fd ch" "ch_index ch' = ch_index ch"
    "ch_events ch' = ch_events ch"
  shows "chans_wf p (chans(q \<mapsto> ch'))"
  using chans_wf_synced [OF assms(1,2)] assms(3-5) by (intro chans_wf_upd [OF assms(1-3)]) (simp_all add: chan_synced_def)

lemma chans_wf_add:
  assumes wf: "chans_wf p chans" and fresh: "\<forall>q' ch'. chans q' = Some ch' \<longrightarrow> ch_fd ch' \<noteq> ch_fd ch"
    and new: "chans q = None" "ch_index ch = NEW"
  shows "chans_wf p (chans(q \<mapsto> ch))"
proof -
  have "interest (ep_calls p) (ch_fd ch) = None"
  proof (rule ccontr)
    assume "interest (ep_calls p) (ch_fd ch) \<noteq> None"
    then obtain e q' where "interest (ep_calls p) (ch_fd ch) = Some (e, q')" by auto
    then obtain ch' where "chans q' = Some ch'" "ch_fd ch' = ch_fd ch" by (rule chans_wf_interest [OF wf])
    with fresh show False by blast
  qed
  then have sync: "chan_synced p q ch" using new(2) by (simp add: chan_synced_def NEW_def ADDED_def)
  show ?thesis
  proof (rule chans_wfI)
    fix q2 ch2 assume "(chans(q \<mapsto> ch)) q2 = Some ch2"
    with sync chans_wf_synced [OF wf] show "chan_synced p q2 ch2" by (auto split: if_splits)
  next
    fix f e q2 assume "interest (ep_calls p) f = Some (e, q2)"
    then obtain ch2 where "chans q2 = Some ch2" "ch_fd ch2 = f" by (rule chans_wf_interest [OF wf])
    with new(1) show "\<exists>ch2. (chans(q \<mapsto> ch)) q2 = Some ch2 \<and> ch_fd ch2 = f" by (cases "q2 = q") simp_all
  next
    fix q1 q2 ch1 ch2
    assume "(chans(q \<mapsto> ch)) q1 = Some ch1" "(chans(q \<mapsto> ch)) q2 = Some ch2" "ch_fd ch1 = ch_fd ch2"
    with fresh chans_wf_fd [OF wf] show "q1 = q2" by (metis fun_upd_apply option.inject)
  qed
qed

lemma chans_wf_del:
  assumes wf: "chans_wf p chans" and q: "chans q = Some ch" "ch_index ch \<noteq> ADDED"
  shows "chans_wf p (chans(q := None))"
proof -
  have "interest (ep_calls p) (ch_fd ch) = None"
    using chans_wf_synced [OF wf q(1)] q(2) by (simp add: chan_synced_def)
  then have other: "q' \<noteq> q" if "interest (ep_calls p) f = Some (e, q')" for f e q'
    using chans_wf_interest [OF wf that] that q(1) by fastforce
  show ?thesis
  proof (rule chans_wfI)
    fix f e q2 assume i: "interest (ep_calls p) f = Some (e, q2)"
    then obtain ch2 where "chans q2 = Some ch2" "ch_fd ch2 = f" by (rule chans_wf_interest [OF wf])
    with other [OF i] show "\<exists>ch2. (chans(q := None)) q2 = Some ch2 \<and> ch_fd ch2 = f" by simp
  qed (use chans_wf_synced [OF wf] chans_wf_fd [OF wf] in \<open>auto split: if_splits\<close>)
qed

section \<open>Operations on channels\<close>

lemma chan_set_mask_wf:
  assumes "epoll_documented K" "loop_wf l" "el_chans l q = Some ch"
  obtains p' l' where "l' = l\<lparr>el_poller := Some p', el_chans := (el_chans l)(q \<mapsto> chan_set_index (chan_mask m ch) ADDED)\<rparr>"
    "chan_set_mask K m q l = Inr l'" "loop_wf l'"
proof -
  obtain p where p: "el_poller l = Some p" "chans_wf p (el_chans l)" using assms(2) by (auto simp: loop_wf_def)
  have sync: "chan_synced p q ch" using p(2) assms(3) by (rule chans_wf_synced)
  obtain ch' p' where up: "epoll_update_chan K p q (chan_mask m ch) = (ch', p')" by fastforce
  note syncs = update_chan_syncs [OF assms(1) chan_synced_registered [OF sync], of m, unfolded up fst_conv snd_conv]
  have ch': "ch' = chan_set_index (chan_mask m ch) ADDED"
    using up sync by (auto simp: epoll_update_chan_def Let_def chan_synced_def chan_set_index_id split: if_splits)
  have "chan_set_mask K m q l = Inr (l\<lparr>el_poller := Some p', el_chans := (el_chans l)(q \<mapsto> ch')\<rparr>)"
    using p up assms(3) by (simp add: chan_set_mask_def eloop_update_chan_def eloop_poller_call_def)
  moreover have "chans_wf p' ((el_chans l)(q \<mapsto> ch'))"
    using syncs by (intro chans_wf_upd [OF p(2) assms(3)]) simp_all
  ultimately show thesis using ch' by (intro that) (auto simp: loop_wf_def)
qed

lemma chan_remove_wf:
  assumes "epoll_documented K" "loop_wf l" "el_chans l q = Some ch"
  obtains p' l' where "l' = l\<lparr>el_poller := Some p', el_chans := (el_chans l)(q \<mapsto> chan_set_index ch DELETED)\<rparr>"
    "chan_remove K q l = Inr l'" "loop_wf l'"
proof -
  obtain p where p: "el_poller l = Some p" "chans_wf p (el_chans l)" using assms(2) by (auto simp: loop_wf_def)
  have sync: "chan_synced p q ch" using p(2) assms(3) by (rule chans_wf_synced)
  obtain ch' p' where rm: "epoll_remove_chan K p q ch = (ch', p')" by fastforce
  note syncs = remove_chan_syncs [OF assms(1) sync, unfolded rm fst_conv snd_conv]
  have ch': "ch' = chan_set_index ch DELETED" using rm by (auto simp: epoll_remove_chan_def Let_def)
  have "chan_remove K q l = Inr (l\<lparr>el_poller := Some p', el_chans := (el_chans l)(q \<mapsto> ch')\<rparr>)"
    using p rm assms(3) by (simp add: chan_remove_def eloop_remove_chan_def eloop_poller_call_def)
  moreover have "chans_wf p' ((el_chans l)(q \<mapsto> ch'))"
    using syncs by (intro chans_wf_upd [OF p(2) assms(3)]) simp_all
  ultimately show thesis using ch' by (intro that) (auto simp: loop_wf_def)
qed

text \<open>Queues, flags and the eventfd are not part of it.\<close>

lemma loop_wf_frame [simp]:
  "loop_wf (eloop_queue_in_loop E cur f l) = loop_wf l"
  "loop_wf (eloop_handle_read E l) = loop_wf l"
  "loop_wf (eloop_begin_calling l) = loop_wf l" "loop_wf (eloop_end_calling l) = loop_wf l"
  "loop_wf (l\<lparr>el_pending_functors := fs\<rparr>) = loop_wf l" "loop_wf (l\<lparr>el_active_chs := qs\<rparr>) = loop_wf l"
  by (simp_all add: loop_wf_def eloop_queue_in_loop_def eloop_push_def eloop_wakeup_def eloop_handle_read_def
      eloop_begin_calling_def eloop_end_calling_def Let_def split: prod.splits)

section \<open>Polling\<close>

text \<open>
  What the manual says of \<^verbatim>\<open>epoll_wait\<close>: it reports entries of the interest list, each at most once.
\<close>

definition poll_possible :: "errno + (32 word \<times> chan_ptr) list \<Rightarrow> 'f eloop \<Rightarrow> bool" where
  "poll_possible outcome l \<longleftrightarrow>
     (\<forall>ready p. outcome = Inr ready \<longrightarrow> el_poller l = Some p \<longrightarrow> distinct (map snd ready) \<and>
        (\<forall>(ev, q) \<in> set ready. \<exists>f e. interest (ep_calls p) f = Some (e, q)))"

lemma revents_refl [simp]: "rel_option (\<lambda>ch ch'. \<exists>ev. ch' = ch\<lparr>ch_revents := ev\<rparr>) x x"
proof (cases x)
  case (Some ch)
  have "\<exists>ev. ch = ch\<lparr>ch_revents := ev\<rparr>" by (rule exI [of _ "ch_revents ch"]) simp
  with Some show ?thesis by (simp only: option.rel_inject)
qed simp

lemma fill_active_wf:
  assumes "chans_wf p chans" "\<forall>(ev, q) \<in> set ready. chans q \<noteq> None"
  shows "\<exists>chans'. fill_active_chs chans ready = Inr (map snd ready, chans') \<and> chans_wf p chans' \<and>
     (\<forall>q. rel_option (\<lambda>ch ch'. \<exists>ev. ch' = ch\<lparr>ch_revents := ev\<rparr>) (chans q) (chans' q))"
  using assms
proof (induction ready arbitrary: chans)
  case Nil
  then show ?case by simp
next
  case (Cons x ready)
  obtain ev q where x: "x = (ev, q)" by (cases x)
  with Cons.prems obtain ch where ch: "chans q = Some ch" by auto
  let ?c1 = "chans(q \<mapsto> chan_set_revents ch ev)"
  have "chans_wf p ?c1" using Cons.prems(1) ch by (rule chans_wf_same) (simp_all add: chan_set_revents_def)
  moreover have "\<forall>(ev, q) \<in> set ready. ?c1 q \<noteq> None" using Cons.prems(2) by auto
  ultimately obtain c2 where c2: "fill_active_chs ?c1 ready = Inr (map snd ready, c2)" "chans_wf p c2"
    "\<forall>q. rel_option (\<lambda>ch ch'. \<exists>ev. ch' = ch\<lparr>ch_revents := ev\<rparr>) (?c1 q) (c2 q)" using Cons.IH by blast
  have "rel_option (\<lambda>ch ch'. \<exists>ev. ch' = ch\<lparr>ch_revents := ev\<rparr>) (chans q') (c2 q')" for q'
    using c2(3) [rule_format, of q'] ch
    by (cases "q' = q") (auto simp: chan_set_revents_def option_rel_Some1)
  with c2 x ch show ?case by simp
qed

lemma eloop_poll_wf:
  assumes "loop_wf l" "poll_possible outcome l"
  obtains l' where "eloop_poll outcome l = Inr l'" "loop_wf l'"
    "\<forall>q. rel_option (\<lambda>ch ch'. \<exists>ev. ch' = ch\<lparr>ch_revents := ev\<rparr>) (el_chans l q) (el_chans l' q)"
    "el_pending_functors l' = el_pending_functors l" "el_thread_id l' = el_thread_id l"
    "\<forall>q \<in> set (el_active_chs l'). \<exists>ch. el_chans l' q = Some ch \<and> ch_index ch = ADDED"
    "distinct (el_active_chs l')"
proof -
  obtain p where p: "el_poller l = Some p" "chans_wf p (el_chans l)" using assms(1) by (auto simp: loop_wf_def)
  let ?R = "\<lambda>ch ch'. \<exists>ev. ch' = ch\<lparr>ch_revents := ev\<rparr>"
  define ready where "ready = (case outcome of Inl e \<Rightarrow> [] | Inr r \<Rightarrow> r)"
  have poss: "\<exists>f e. interest (ep_calls p) f = Some (e, q)" if "(ev, q) \<in> set ready" for ev q
    using that assms(2) p(1) by (fastforce simp: poll_possible_def ready_def split: sum.splits)
  have live: "\<exists>ch. el_chans l q = Some ch \<and> ch_index ch = ADDED" if r: "(ev, q) \<in> set ready" for ev q
  proof -
    obtain f e where i: "interest (ep_calls p) f = Some (e, q)" using poss [OF r] by blast
    then obtain ch where ch: "el_chans l q = Some ch" "ch_fd ch = f" by (rule chans_wf_interest [OF p(2)])
    with chans_wf_synced [OF p(2) ch(1)] i show ?thesis by (auto simp: chan_synced_def split: if_splits)
  qed
  then obtain chans' where f: "fill_active_chs (el_chans l) ready = Inr (map snd ready, chans')" "chans_wf p chans'"
    "\<forall>q. rel_option ?R (el_chans l q) (chans' q)"
    using fill_active_wf [OF p(2), of ready] by fastforce
  define p' where "p' = (if ready \<noteq> [] \<and> length ready = ep_nevents p then p\<lparr>ep_nevents := ep_nevents p * 2\<rparr> else p)"
  have "ep_calls p' = ep_calls p" by (simp add: p'_def)
  then have wf': "chans_wf p' chans'" using f(2) by (simp add: chans_wf_def chan_synced_def)
  have added: "\<exists>ch. chans' q = Some ch \<and> ch_index ch = ADDED" if "q \<in> set (map snd ready)" for q
  proof -
    from that obtain ev where "(ev, q) \<in> set ready" by auto
    then obtain ch where "el_chans l q = Some ch" "ch_index ch = ADDED" using live by blast
    with f(3) [rule_format, of q] show ?thesis by (auto simp: option_rel_Some1)
  qed
  have dist: "distinct (map snd ready)" using assms(2) p(1) by (auto simp: poll_possible_def ready_def split: sum.splits)
  have "epoll_poll p (el_chans l) outcome = Inr (map snd ready, p', chans')"
    using f(1) by (auto simp: epoll_poll_def ready_def p'_def split: sum.splits)
  then have "eloop_poll outcome l = Inr (l\<lparr>el_active_chs := map snd ready, el_poller := Some p', el_chans := chans'\<rparr>)"
    using p(1) by (simp add: eloop_poll_def)
  then show thesis by (rule that) (use wf' f(3) added dist in \<open>simp_all add: loop_wf_def\<close>)
qed

end
