(* ===== verification/TcpMoves.thy ===== *)
theory TcpMoves
  imports TcpFrame LoopInv
begin

text \<open>
  What the code of one connection may do to the whole system, when it runs in the connection's own
  loop: it changes that connection and its channel, keeps the loop in step with the kernel, and queues
  nothing but notifications about itself.
\<close>

section \<open>Moves of one connection\<close>

definition own_functor :: "conn_ptr \<Rightarrow> loop_functor \<Rightarrow> bool" where
  "own_functor ptr f = (case f of F_write_complete p \<Rightarrow> p = ptr | F_high_water_mark p n \<Rightarrow> p = ptr | _ \<Rightarrow> False)"

text \<open>Between \<^verbatim>\<open>establish_conn\<close> and the close of the connection.\<close>

definition live_state :: "conn_state \<Rightarrow> bool" where
  "live_state st \<longleftrightarrow> st = CONNECTED \<or> st = DISCONNENTING"

definition chan_moves :: "bool \<Rightarrow> chan \<Rightarrow> chan \<Rightarrow> bool" where
  "chan_moves opened ch ch' \<longleftrightarrow> same_chan ch ch' \<and> is_reading ch' = is_reading ch \<and>
     ch_tied ch' = ch_tied ch \<and> ch_tie ch' = ch_tie ch \<and> (ch_index ch' = ch_index ch \<or> opened \<and> ch_index ch' = ADDED)"

definition state_moves :: "conn_state \<Rightarrow> conn_state \<Rightarrow> bool" where
  "state_moves st st' \<longleftrightarrow> st' = st \<or> st = CONNECTED \<and> st' = DISCONNENTING"

definition same_conn :: "tcp_conn \<Rightarrow> tcp_conn \<Rightarrow> bool" where
  "same_conn c c' \<longleftrightarrow> tc_loop c' = tc_loop c \<and> tc_ch c' = tc_ch c \<and> tc_id c' = tc_id c \<and>
     tc_sockfd c' = tc_sockfd c \<and> tc_close_callback c' = tc_close_callback c"

definition loop_moves :: "conn_ptr \<Rightarrow> chan_ptr \<Rightarrow> bool \<Rightarrow> loop_functor eloop \<Rightarrow> loop_functor eloop \<Rightarrow> bool" where
  "loop_moves ptr q opened l l' \<longleftrightarrow>
     el_thread_id l' = el_thread_id l \<and> (loop_wf l \<longrightarrow> loop_wf l') \<and>
     (\<forall>r. r \<noteq> q \<longrightarrow> el_chans l' r = el_chans l r) \<and>
     rel_option (chan_moves opened) (el_chans l q) (el_chans l' q) \<and>
     (\<exists>fs. el_pending_functors l' = el_pending_functors l @ fs \<and> list_all (own_functor ptr) fs)"

definition moves :: "conn_ptr \<Rightarrow> 'z net_scheme \<Rightarrow> 'z net_scheme \<Rightarrow> bool" where
  "moves ptr w w' \<longleftrightarrow>
     (\<exists>c c' l'. n_conns w ptr = Some c \<and> n_conns w' = (n_conns w)(ptr \<mapsto> c') \<and> same_conn c c' \<and>
        state_moves (tc_state c) (tc_state c') \<and> net.more w' = net.more w \<and> n_strings w' = n_strings w \<and>
        n_loops w' = (n_loops w)(tc_loop c := l') \<and>
        loop_moves ptr (tc_ch c) (live_state (tc_state c)) (n_loops w (tc_loop c)) l')"

lemma same_conn_refl [simp]: "same_conn c c"
  by (simp add: same_conn_def)

lemma same_conn_trans: "same_conn c c1 \<Longrightarrow> same_conn c1 c2 \<Longrightarrow> same_conn c c2"
  by (simp add: same_conn_def)

lemma state_moves_refl [simp]: "state_moves st st"
  by (simp add: state_moves_def)

lemma chan_moves_refl [simp]: "chan_moves opened ch ch"
  by (simp add: chan_moves_def)

lemma chan_moves_trans:
  "chan_moves opened ch ch1 \<Longrightarrow> chan_moves opened' ch1 ch2 \<Longrightarrow> (opened' \<Longrightarrow> opened) \<Longrightarrow> chan_moves opened ch ch2"
  by (auto simp: chan_moves_def intro: same_chan_trans)

lemma loop_moves_refl [simp]: "loop_moves ptr q opened l l"
  by (simp add: loop_moves_def option.rel_refl)

lemma loop_moves_trans:
  assumes "loop_moves ptr q opened l l1" "loop_moves ptr q opened' l1 l2" "opened' \<Longrightarrow> opened"
  shows "loop_moves ptr q opened l l2"
proof -
  have "rel_option (chan_moves opened) (el_chans l q) (el_chans l2 q)"
    using assms by (cases "el_chans l q"; cases "el_chans l1 q"; cases "el_chans l2 q")
      (auto simp: loop_moves_def intro: chan_moves_trans)
  with assms(1,2) show ?thesis by (fastforce simp: loop_moves_def)
qed

lemma moves_refl: "n_conns w ptr = Some c \<Longrightarrow> moves ptr w w"
  unfolding moves_def by (intro exI [of _ c] exI [of _ "n_loops w (tc_loop c)"]) (simp add: fun_upd_idem)

lemma moves_trans:
  assumes "moves ptr w w1" "moves ptr w1 w2"
  shows "moves ptr w w2"
proof -
  obtain c c1 l1 where m1: "n_conns w ptr = Some c" "n_conns w1 = (n_conns w)(ptr \<mapsto> c1)" "same_conn c c1"
    "state_moves (tc_state c) (tc_state c1)" "net.more w1 = net.more w" "n_strings w1 = n_strings w"
    "n_loops w1 = (n_loops w)(tc_loop c := l1)"
    "loop_moves ptr (tc_ch c) (live_state (tc_state c)) (n_loops w (tc_loop c)) l1"
    using assms(1) unfolding moves_def by blast
  obtain c2 l2 where m2: "n_conns w2 = (n_conns w1)(ptr \<mapsto> c2)" "same_conn c1 c2"
    "state_moves (tc_state c1) (tc_state c2)" "net.more w2 = net.more w1" "n_strings w2 = n_strings w1"
    "n_loops w2 = (n_loops w1)(tc_loop c1 := l2)"
    "loop_moves ptr (tc_ch c1) (live_state (tc_state c1)) (n_loops w1 (tc_loop c1)) l2"
    using assms(2) m1(2) unfolding moves_def by auto
  have place: "tc_loop c1 = tc_loop c" "tc_ch c1 = tc_ch c" using m1(3) by (simp_all add: same_conn_def)
  have "loop_moves ptr (tc_ch c) (live_state (tc_state c)) (n_loops w (tc_loop c)) l2"
    using m1(4) m2(7) by (intro loop_moves_trans [OF m1(8)]) (auto simp: m1(7) place state_moves_def live_state_def)
  moreover have "state_moves (tc_state c) (tc_state c2)" using m1(4) m2(3) by (auto simp: state_moves_def)
  moreover have "n_conns w2 = (n_conns w)(ptr \<mapsto> c2)" "n_loops w2 = (n_loops w)(tc_loop c := l2)"
    "net.more w2 = net.more w" "n_strings w2 = n_strings w"
    using m1(2,5-7) m2(1,4-6) place by simp_all
  ultimately show ?thesis
    using m1(1) same_conn_trans [OF m1(3) m2(2)] unfolding moves_def by blast
qed

lemma moves_bind:
  "yields r (moves ptr w) \<Longrightarrow> (\<And>w1. moves ptr w w1 \<Longrightarrow> yields (f w1) (moves ptr w1)) \<Longrightarrow>
     yields (bind_res r f) (moves ptr w)"
  by (erule yields_bindI) (blast intro: yields_mono moves_trans)

lemma moves_from: "yields r (moves ptr w0) \<Longrightarrow> moves ptr w w0 \<Longrightarrow> yields r (moves ptr w)"
  by (blast intro: yields_mono moves_trans)

text \<open>Logging, socket calls and the record of callbacks are not part of it.\<close>

lemma moves_frame [simp]:
  "moves ptr w (net_log lv s w') = moves ptr w w'"
  "moves ptr w (w'\<lparr>n_socks := t\<rparr>) = moves ptr w w'"
  "moves ptr w (w'\<lparr>n_calls := t'\<rparr>) = moves ptr w w'"
  by (simp_all add: moves_def net_log_def)

lemma moves_put:
  assumes "moves ptr w w'" "n_conns w' ptr = Some c" "same_conn c c'" "state_moves (tc_state c) (tc_state c')"
  shows "moves ptr w (put_conn ptr c' w')"
proof (rule moves_trans [OF assms(1)])
  show "moves ptr w' (put_conn ptr c' w')"
    using assms(2-4) unfolding moves_def
    by (intro exI [of _ c] exI [of _ c'] exI [of _ "n_loops w' (tc_loop c)"]) (simp add: put_conn_def)
qed

lemma moves_queue:
  assumes "moves ptr w w'" "n_conns w' ptr = Some c" "i = tc_loop c" "own_functor ptr f"
  shows "moves ptr w (net_queue k cur i f w')"
proof (rule moves_trans [OF assms(1)])
  let ?l = "eloop_queue_in_loop (k_eventfd k) cur f (n_loops w' (tc_loop c))"
  have "el_pending_functors ?l = el_pending_functors (n_loops w' (tc_loop c)) @ [f]"
    by (simp add: eloop_queue_in_loop_def eloop_push_def Let_def)
  then have "loop_moves ptr (tc_ch c) (live_state (tc_state c)) (n_loops w' (tc_loop c)) ?l"
    using assms(4) by (simp add: loop_moves_def option.rel_refl)
  moreover have "n_conns (net_queue k cur i f w') = (n_conns w')(ptr \<mapsto> c)" using assms(2) by auto
  ultimately show "moves ptr w' (net_queue k cur i f w')"
    using assms(2,3) unfolding moves_def
    by (intro exI [of _ c] exI [of _ ?l]) (simp add: net_queue_def)
qed

lemma moves_if: "(b \<Longrightarrow> moves ptr w w1) \<Longrightarrow> (\<not> b \<Longrightarrow> moves ptr w w2) \<Longrightarrow> moves ptr w (if b then w1 else w2)"
  by simp

text \<open>Changing the mask of an open connection's channel.\<close>

lemma moves_mask:
  assumes "epoll_documented (k_ctl k)" "loop_wf (n_loops w (tc_loop c))" "n_conns w ptr = Some c0" "same_conn c c0"
    and "live_state (tc_state c0)" "m = Enable_Writing \<or> m = Disable_Writing"
  shows "yields (conn_mask k m c w) (moves ptr w)"
proof (cases "el_chans (n_loops w (tc_loop c)) (tc_ch c)")
  case (Some ch)
  obtain p' l' where l': "l' = (n_loops w (tc_loop c))\<lparr>el_poller := Some p',
      el_chans := (el_chans (n_loops w (tc_loop c)))(tc_ch c \<mapsto> chan_set_index (chan_mask m ch) ADDED)\<rparr>"
    "chan_set_mask (k_ctl k) m (tc_ch c) (n_loops w (tc_loop c)) = Inr l'" "loop_wf l'"
    using chan_set_mask_wf [OF assms(1,2) Some, of m] by blast
  have "loop_moves ptr (tc_ch c) True (n_loops w (tc_loop c)) l'"
    using l'(1,3) Some assms(6) by (auto simp: loop_moves_def chan_moves_def same_chan_def chan_set_index_def is_reading_bit chan_mask_def event_defs bit_simps)
  then have "moves ptr w (w\<lparr>n_loops := (n_loops w)(tc_loop c := l')\<rparr>)"
    using assms(3-5) unfolding moves_def
    by (intro exI [of _ c0] exI [of _ l']) (auto simp: same_conn_def)
  then show ?thesis using l'(2) by (simp add: conn_mask_def on_loop_def)
qed (simp add: conn_mask_def on_loop_def chan_set_mask_def)

lemma moves_conn:
  assumes "moves ptr w w'" "n_conns w ptr = Some c"
  obtains c' where "n_conns w' ptr = Some c'" "same_conn c c'" "state_moves (tc_state c) (tc_state c')"
  using assms unfolding moves_def by auto

lemma moves_loop_wf: "moves ptr w w' \<Longrightarrow> loop_wf (n_loops w i) \<Longrightarrow> loop_wf (n_loops w' i)"
  by (auto simp: moves_def loop_moves_def)

lemma moves_thread: "moves ptr w w' \<Longrightarrow> el_thread_id (n_loops w' i) = el_thread_id (n_loops w i)"
  by (auto simp: moves_def loop_moves_def)

section \<open>The operations of a connection\<close>

text \<open>The connection at \<open>ptr\<close> is handled in the thread of its loop, and that loop is well formed.\<close>

definition at_home :: "tid \<Rightarrow> conn_ptr \<Rightarrow> 'z net_scheme \<Rightarrow> bool" where
  "at_home cur ptr w \<longleftrightarrow> (\<forall>c. n_conns w ptr = Some c \<longrightarrow>
     loop_wf (n_loops w (tc_loop c)) \<and> eloop_is_in_loop_thread cur (n_loops w (tc_loop c)))"

lemma at_home_moves: "at_home cur ptr w \<Longrightarrow> moves ptr w w' \<Longrightarrow> at_home cur ptr w'"
  by (auto simp: at_home_def moves_def loop_moves_def same_conn_def eloop_is_in_loop_thread_def)

lemma at_homeD:
  "at_home cur ptr w \<Longrightarrow> n_conns w ptr = Some c \<Longrightarrow> loop_wf (n_loops w (tc_loop c))"
  "at_home cur ptr w \<Longrightarrow> n_conns w ptr = Some c \<Longrightarrow> eloop_is_in_loop_thread cur (n_loops w (tc_loop c))"
  by (simp_all add: at_home_def)

lemma moves_send_write:
  assumes "n_conns w ptr = Some c" "send_write k cur ptr data c ch w = (n, r, fault, w1)"
  shows "moves ptr w w1"
proof -
  have put: "moves ptr w (put_conn ptr c' w)" if "same_conn c c'" "tc_state c' = tc_state c" for c'
    using that by (intro moves_put [OF moves_refl [OF assms(1)] assms(1)]) simp_all
  have queue: "moves ptr w (net_queue k cur (tc_loop c) (F_write_complete ptr) (put_conn ptr c' w))"
    if "same_conn c c'" "tc_state c' = tc_state c" for c'
    using that by (intro moves_queue [OF put [OF that], where c = c']) (simp_all add: put_conn_def own_functor_def same_conn_def)
  show ?thesis
    using assms(2) moves_refl [OF assms(1)] put queue
    by (auto simp: send_write_def Let_def same_conn_def split: if_splits sum.splits)
qed

lemma moves_send_rest:
  assumes "epoll_documented (k_ctl k)" "at_home cur ptr w" "\<And>c. n_conns w ptr = Some c \<Longrightarrow> live_state (tc_state c)"
  shows "yields (send_rest k cur ptr data n r w) (moves ptr w)"
proof (unfold send_rest_def Let_def, rule yields_with_conn)
  fix c ch assume c: "n_conns w ptr = Some c"
  let ?w1 = "if size_add (readable_bytes (tc_output_buf c)) r \<ge> tc_high_water_mark c \<and>
      readable_bytes (tc_output_buf c) < tc_high_water_mark c \<and> tc_high_water_mark_callback c
    then net_queue k cur (tc_loop c) (F_high_water_mark ptr (size_add (readable_bytes (tc_output_buf c)) r)) w else w"
  have w1: "moves ptr w ?w1"
    by (rule moves_if) (auto intro: moves_queue [OF moves_refl [OF c] c] moves_refl [OF c] simp: own_functor_def)
  have "n_conns ?w1 ptr = Some c" using c by simp
  then have w2: "moves ptr w (put_conn ptr (c\<lparr>tc_output_buf := b\<rparr>) ?w1)" for b
    by (rule moves_put [OF w1]) (simp_all add: same_conn_def)
  have "yields (conn_mask k Enable_Writing c (put_conn ptr (c\<lparr>tc_output_buf := b\<rparr>) ?w1)) (moves ptr w)" for b
  proof (rule moves_from [OF moves_mask w2])
    show "loop_wf (n_loops (put_conn ptr (c\<lparr>tc_output_buf := b\<rparr>) ?w1) (tc_loop c))"
      using moves_loop_wf [OF w2] at_homeD(1) [OF assms(2) c] .
    show "n_conns (put_conn ptr (c\<lparr>tc_output_buf := b\<rparr>) ?w1) ptr = Some (c\<lparr>tc_output_buf := b\<rparr>)" by (simp add: put_conn_def)
  qed (use assms(1,3) c in \<open>simp_all add: same_conn_def\<close>)
  with w2 show "yields (bind_res (buffer_append (tc_output_buf c) (drop n data) r) (\<lambda>b.
      if \<not> is_writing ch then conn_mask k Enable_Writing c (put_conn ptr (c\<lparr>tc_output_buf := b\<rparr>) ?w1)
      else Inr (put_conn ptr (c\<lparr>tc_output_buf := b\<rparr>) ?w1))) (moves ptr w)"
    by (cases "buffer_append (tc_output_buf c) (drop n data) r") simp_all
qed

lemma moves_send_in_loop:
  assumes "epoll_documented (k_ctl k)" "at_home cur ptr w"
    and "\<And>c. n_conns w ptr = Some c \<Longrightarrow> tc_state c \<noteq> CONNENTING"
  shows "yields (send_in_loop k cur ptr data w) (moves ptr w)"
proof (unfold send_in_loop_def Let_def, rule yields_with_conn)
  fix c ch assume c: "n_conns w ptr = Some c"
  obtain n r fault w1 where sw: "send_write k cur ptr data c ch w = (n, r, fault, w1)"
    by (cases "send_write k cur ptr data c ch w")
  have w1: "moves ptr w w1" using c sw by (rule moves_send_write)
  obtain c1 where c1: "n_conns w1 ptr = Some c1" "same_conn c c1" "state_moves (tc_state c) (tc_state c1)"
    using w1 c by (rule moves_conn)
  let ?w2 = "if fault then w1 else put_conn ptr (c1\<lparr>tc_accepted := tc_accepted c @ data\<rparr>) w1"
  have w2: "moves ptr w ?w2" using w1 c1(1) by (auto intro!: moves_put [OF w1 c1(1)] simp: same_conn_def)
  have "yields (send_rest k cur ptr data n r ?w2) (moves ptr w)" if "tc_state c \<noteq> DISCONNECTED"
  proof (rule moves_from [OF moves_send_rest w2])
    show "at_home cur ptr ?w2" using assms(2) w2 by (rule at_home_moves)
    show "live_state (tc_state c2)" if "n_conns ?w2 ptr = Some c2" for c2
      using that c1 \<open>tc_state c \<noteq> DISCONNECTED\<close> assms(3) [OF c]
      by (cases "tc_state c") (auto simp: put_conn_def state_moves_def live_state_def split: if_splits)
  qed (rule assms(1))
  with w2 show "yields (if tc_state c = DISCONNECTED then Inr (net_log WARN ''conn already closed, abort sending'' w)
     else (case send_write k cur ptr data c ch w of (nwrote, remaining, fault_occurred, w1) \<Rightarrow>
        if \<not> fault_occurred \<and> remaining > 0
        then send_rest k cur ptr data nwrote remaining (if fault_occurred then w1
                  else (case n_conns w1 ptr of None \<Rightarrow> w1
                        | Some c1 \<Rightarrow> put_conn ptr (c1\<lparr>tc_accepted := tc_accepted c @ data\<rparr>) w1))
        else Inr (if fault_occurred then w1
                  else (case n_conns w1 ptr of None \<Rightarrow> w1
                        | Some c1 \<Rightarrow> put_conn ptr (c1\<lparr>tc_accepted := tc_accepted c @ data\<rparr>) w1)))) (moves ptr w)"
    using moves_refl [OF c] c1(1) by (cases fault) (simp_all add: sw)
qed

lemma moves_send:
  assumes "epoll_documented (k_ctl k)" "at_home cur ptr w"
  shows "yields (tcp_conn_send k cur ptr addr data w) (moves ptr w)"
  using at_homeD(2) [OF assms(2)]
  by (auto simp: tcp_conn_send_def intro!: yields_with_conn moves_refl moves_send_in_loop [OF assms])

lemma moves_shutdown_in_loop: "yields (shutdown_in_loop k ptr w) (moves ptr w)"
  by (auto simp: shutdown_in_loop_def intro!: yields_with_conn intro: moves_refl)

lemma moves_shutdown:
  assumes "at_home cur ptr w"
  shows "yields (tcp_conn_shutdown k cur ptr w) (moves ptr w)"
proof (unfold tcp_conn_shutdown_def Let_def, rule yields_with_conn)
  fix c ch assume c: "n_conns w ptr = Some c"
  have "yields (shutdown_in_loop k ptr (put_conn ptr (c\<lparr>tc_state := DISCONNENTING\<rparr>) w)) (moves ptr w)"
    if "tc_state c = CONNECTED"
    using that by (intro moves_from [OF moves_shutdown_in_loop] moves_put [OF moves_refl [OF c] c])
      (simp_all add: same_conn_def state_moves_def)
  then show "yields (if tc_state c = CONNECTED then
        if eloop_is_in_loop_thread cur (n_loops (put_conn ptr (c\<lparr>tc_state := DISCONNENTING\<rparr>) w) (tc_loop c))
        then shutdown_in_loop k ptr (put_conn ptr (c\<lparr>tc_state := DISCONNENTING\<rparr>) w)
        else Inr (net_queue k cur (tc_loop c) (F_shutdown_in_loop ptr) (put_conn ptr (c\<lparr>tc_state := DISCONNENTING\<rparr>) w))
      else Inr w) (moves ptr w)"
    using at_homeD(2) [OF assms c] moves_refl [OF c] by simp
qed

lemma moves_action:
  assumes "epoll_documented (k_ctl k)" "at_home cur ptr w"
  shows "yields (run_action k cur ptr w act) (moves ptr w)"
proof (cases act)
  case (A_retrieve n)
  then show ?thesis by (auto intro!: yields_with_conn moves_put [OF moves_refl] simp: same_conn_def)
qed (simp_all add: moves_send [OF assms] moves_shutdown [OF assms(2)])

lemma moves_actions:
  assumes "epoll_documented (k_ctl k)" "at_home cur ptr w" "n_conns w ptr = Some c"
  shows "yields (fold_res (run_action k cur ptr) w acts) (moves ptr w)"
proof (rule yields_fold)
  fix w1 act assume "moves ptr w w1"
  with at_home_moves [OF assms(2)] show "yields (run_action k cur ptr w1 act) (moves ptr w)"
    by (blast intro: moves_from moves_action [OF assms(1)])
qed (rule moves_refl [OF assms(3)])

lemma moves_callback:
  assumes "epoll_documented (k_ctl k)" "at_home cur ptr w" "n_conns w ptr = Some c"
  shows "yields (run_callback k cur ptr what present acts w) (moves ptr w)"
proof -
  let ?w = "w\<lparr>n_calls := n_calls w @ [(ptr, what)]\<rparr>"
  have w: "moves ptr w ?w" using moves_refl [OF assms(3)] by simp
  have "yields (fold_res (run_action k cur ptr) ?w acts) (moves ptr ?w)"
    using assms(3) by (intro moves_actions [OF assms(1) at_home_moves [OF assms(2) w]]) simp
  from moves_from [OF this w] moves_refl [OF assms(3)] show ?thesis by (simp add: run_callback_def)
qed

lemma moves_conn_callback:
  assumes "epoll_documented (k_ctl k)" "at_home cur ptr w"
  shows "yields (run_conn_callback k a cur ptr w) (moves ptr w)"
  unfolding run_conn_callback_def by (rule yields_with_conn) (rule moves_callback [OF assms])

lemma moves_error: "yields (handle_error k ptr w) (moves ptr w)"
  by (auto simp: handle_error_def Let_def intro!: yields_with_conn intro: moves_refl)

lemma moves_write:
  assumes "epoll_documented (k_ctl k)" "at_home cur ptr w"
    and "\<And>c ch. n_conns w ptr = Some c \<Longrightarrow> el_chans (n_loops w (tc_loop c)) (tc_ch c) = Some ch \<Longrightarrow> is_writing ch \<Longrightarrow>
           live_state (tc_state c)"
  shows "yields (handle_write k cur ptr w) (moves ptr w)"
proof (cases "n_conns w ptr")
  case c: (Some c)
  show ?thesis
  proof (cases "el_chans (n_loops w (tc_loop c)) (tc_ch c)")
    case ch: (Some ch)
    have put: "moves ptr w (put_conn ptr c' w)" if "same_conn c c'" "tc_state c' = tc_state c" for c'
      using that by (intro moves_put [OF moves_refl [OF c] c]) simp_all
    have flushed: "yields (bind_res (conn_mask k Disable_Writing c (put_conn ptr c' w)) (\<lambda>w2.
        let w3 = (if tc_write_complete_callback c
                  then net_queue k cur (tc_loop c) (F_write_complete ptr) w2 else w2) in
        if tc_state c = DISCONNENTING then shutdown_in_loop k ptr w3 else Inr w3)) (moves ptr w)"
      if c': "same_conn c c'" "tc_state c' = tc_state c" "live_state (tc_state c)" for c'
    proof (rule moves_from [OF moves_bind put [OF c'(1,2)]])
      let ?w1 = "put_conn ptr c' w"
      show "yields (conn_mask k Disable_Writing c ?w1) (moves ptr ?w1)"
        using assms(1) at_homeD(1) [OF assms(2) c] c'
        by (intro moves_mask [where c = c and ?c0.0 = c']) (simp_all add: put_conn_def)
      fix w2 assume w2: "moves ptr ?w1 w2"
      obtain c2 where c2: "n_conns w2 ptr = Some c2" "same_conn c' c2"
        using w2 by (rule moves_conn [where c = c']) (simp add: put_conn_def)
      let ?w3 = "if tc_write_complete_callback c then net_queue k cur (tc_loop c) (F_write_complete ptr) w2 else w2"
      have w3: "moves ptr w2 ?w3"
        using moves_queue [OF moves_refl [OF c2(1)] c2(1)] moves_refl [OF c2(1)] c2(2) c'(1)
        by (simp add: same_conn_def own_functor_def)
      then have "yields (if tc_state c = DISCONNENTING then shutdown_in_loop k ptr ?w3 else Inr ?w3) (moves ptr w2)"
        by (intro yields_if moves_from [OF moves_shutdown_in_loop w3]) simp
      then show "yields (let w3 = (if tc_write_complete_callback c
                  then net_queue k cur (tc_loop c) (F_write_complete ptr) w2 else w2) in
        if tc_state c = DISCONNENTING then shutdown_in_loop k ptr w3 else Inr w3) (moves ptr w2)" by (simp only: Let_def)
    qed
    obtain n e where wr: "write_fd (tc_output_buf c) (k_write k ptr (tc_writes c)
        (peek (tc_output_buf c) (readable_bytes (tc_output_buf c)))) = (n, e)" by fastforce
    have same: "same_conn c (c\<lparr>tc_writes := x\<rparr>)" "same_conn c (c\<lparr>tc_writes := x, tc_output_buf := b, tc_wire := y\<rparr>)" for x y b
      by (simp_all add: same_conn_def)
    show ?thesis
      using flushed [OF same(2)] put [OF same(1)] put [OF same(2)] moves_refl [OF c] assms(3) [OF c ch] c ch
      by (simp add: handle_write_def with_conn_def wr Let_def del: bind_res_simps)
  qed (use c in \<open>simp add: handle_write_def with_conn_def\<close>)
qed (simp add: handle_write_def with_conn_def)

end
