(* ===== verification/ServerLife.thy ===== *)
theory ServerLife
  imports TcpServer TcpMoves
begin

text \<open>
  The life of the connections of a running server, with any number of loops that take turns: which
  channels, queued functors and map entries there can be for a connection in each of its states, and
  why no turn ever follows a dangling pointer.
\<close>

section \<open>Invariant\<close>

text \<open>
  The channel of the connection at \<open>ptr\<close>, and the channels that belong to no connection: those of the
  acceptor and of the wake-up descriptors.
\<close>

definition chan_of :: "conn_ptr \<Rightarrow> chan \<Rightarrow> bool" where
  "chan_of ptr ch \<longleftrightarrow> ch_read_callback ch = Some (Conn_handle_read ptr) \<and>
     ch_write_callback ch = Some (Conn_handle_write ptr) \<and>
     ch_close_callback ch = Some (Conn_handle_close ptr) \<and> ch_error_callback ch = Some (Conn_handle_error ptr)"

text \<open>Once tied, the channel is tied to the connection that owns it.\<close>

definition tie_ok :: "conn_ptr \<Rightarrow> chan \<Rightarrow> bool" where
  "tie_ok ptr ch \<longleftrightarrow> (ch_tied ch \<longrightarrow> ch_tie ch = Some ptr)"

lemma tie_ok_simps [simp]:
  "tie_ok ptr (chan_mask m ch) = tie_ok ptr ch" "tie_ok ptr (chan_set_index ch n) = tie_ok ptr ch"
  "tie_ok ptr (chan_tie ch ptr)"
  by (simp_all add: tie_ok_def chan_mask_def chan_set_index_def chan_tie_def)

definition plain_chan :: "chan \<Rightarrow> bool" where
  "plain_chan ch \<longleftrightarrow> ch_read_callback ch \<in> {None, Some Eloop_handle_read, Some Acceptor_handle_read} \<and>
     ch_write_callback ch = None \<and> ch_close_callback ch = None \<and> ch_error_callback ch = None"

definition listener :: "tcp_server \<Rightarrow> loop_ptr \<Rightarrow> chan_ptr \<Rightarrow> bool" where
  "listener s j q \<longleftrightarrow> j = ac_loop (sv_acceptor s) \<and> q = ac_ch (sv_acceptor s)"

definition plain_at :: "tcp_server \<Rightarrow> loop_ptr \<Rightarrow> chan_ptr \<Rightarrow> chan \<Rightarrow> bool" where
  "plain_at s j q ch \<longleftrightarrow> plain_chan ch \<and> (ch_read_callback ch = Some Acceptor_handle_read \<longrightarrow> listener s j q)"

text \<open>
  The functors that wait for loop \<open>j\<close>, when loop \<open>i\<close> is in the middle of a batch with \<open>fs\<close> still to run.
\<close>

definition waiting :: "loop_ptr \<Rightarrow> loop_functor list \<Rightarrow> tcp_server \<Rightarrow> loop_ptr \<Rightarrow> loop_functor list" where
  "waiting i fs s j = (if j = i then fs else []) @ el_pending_functors (n_loops s j)"

definition awaits :: "loop_ptr \<Rightarrow> loop_functor list \<Rightarrow> tcp_server \<Rightarrow> loop_functor \<Rightarrow> bool" where
  "awaits i fs s f \<longleftrightarrow> (\<exists>j. f \<in> set (waiting i fs s j))"

text \<open>
  What may wait in which loop: functors refer to live connections in a fitting state, and those of
  \<^verbatim>\<open>send\<close> to a string that still exists.
\<close>

definition functor_ok :: "tcp_server \<Rightarrow> loop_ptr \<Rightarrow> loop_functor \<Rightarrow> bool" where
  "functor_ok s j f =
     (case f of
        F_send_in_loop ptr addr len \<Rightarrow> (\<exists>c. n_conns s ptr = Some c \<and> tc_loop c = j \<and> tc_state c \<noteq> CONNENTING) \<and>
          (\<exists>d. n_strings s addr = Some d \<and> len \<le> length d \<and> length d \<le> vector_max_size)
      | F_shutdown_in_loop ptr \<Rightarrow> \<exists>c. n_conns s ptr = Some c \<and> tc_loop c = j
      | F_write_complete ptr \<Rightarrow> \<exists>c. n_conns s ptr = Some c \<and> tc_loop c = j
      | F_high_water_mark ptr n \<Rightarrow> \<exists>c. n_conns s ptr = Some c \<and> tc_loop c = j
      | F_establish_conn ptr \<Rightarrow> \<exists>c. n_conns s ptr = Some c \<and> tc_loop c = j \<and> tc_state c = CONNENTING
      | F_destroy_conn ptr \<Rightarrow> \<exists>c. n_conns s ptr = Some c \<and> tc_loop c = j \<and> tc_state c = DISCONNECTED
      | F_remove_conn_in_loop ptr \<Rightarrow> \<exists>c. n_conns s ptr = Some c \<and> tc_state c = DISCONNECTED
      | F_acceptor_listen \<Rightarrow> True)"

definition chans_inv :: "tcp_server \<Rightarrow> bool" where
  "chans_inv s \<longleftrightarrow> (\<forall>j. loop_wf (n_loops s j)) \<and>
     (\<forall>j q ch. el_chans (n_loops s j) q = Some ch \<longrightarrow> q < sv_next_ptr s \<and>
        (plain_at s j q ch \<or> (\<exists>ptr c. chan_of ptr ch \<and> n_conns s ptr = Some c \<and> tc_loop c = j \<and> tc_ch c = q))) \<and>
     (\<exists>ch. el_chans (n_loops s (ac_loop (sv_acceptor s))) (ac_ch (sv_acceptor s)) = Some ch \<and> plain_chan ch)"

text \<open>A connection is registered in the kernel from \<^verbatim>\<open>establish_conn\<close> on, for reading while it is open.\<close>

definition chan_fits :: "tcp_conn \<Rightarrow> chan \<Rightarrow> bool" where
  "chan_fits c ch \<longleftrightarrow> (tc_state c = CONNENTING \<longrightarrow> ch_index ch \<noteq> ADDED) \<and>
     (live_state (tc_state c) \<longrightarrow> ch_index ch = ADDED \<and> is_reading ch)"

definition conns_inv :: "tcp_server \<Rightarrow> bool" where
  "conns_inv s \<longleftrightarrow>
     (\<forall>ptr c. n_conns s ptr = Some c \<longrightarrow> ptr < sv_next_ptr s \<and> tc_close_callback c \<and> tc_loop c \<in> set (server_loops s) \<and>
        (\<exists>ch. el_chans (n_loops s (tc_loop c)) (tc_ch c) = Some ch \<and> chan_of ptr ch \<and> tie_ok ptr ch \<and>
           ch_fd ch = tc_sockfd c \<and> conn_inv c (is_writing ch) \<and> chan_fits c ch))"

definition map_inv :: "tcp_server \<Rightarrow> bool" where
  "map_inv s \<longleftrightarrow>
     (\<forall>cid ptr. sv_conns s cid = Some ptr \<longrightarrow> (\<exists>c. n_conns s ptr = Some c \<and> tc_id c = cid)) \<and>
     (\<forall>ptr ptr' c c'. n_conns s ptr = Some c \<longrightarrow> n_conns s ptr' = Some c' \<longrightarrow> tc_id c = tc_id c' \<longrightarrow> ptr = ptr')"

definition queues_inv :: "loop_ptr \<Rightarrow> loop_functor list \<Rightarrow> tcp_server \<Rightarrow> bool" where
  "queues_inv i fs s \<longleftrightarrow>
     (\<forall>j f. f \<in> set (waiting i fs s j) \<longrightarrow> functor_ok s j f) \<and>
     (\<forall>j ptr. count_list (waiting i fs s j) (F_establish_conn ptr) \<le> 1) \<and>
     pool_valid (sv_thread_pool s) \<and> lp_base_loop (sv_thread_pool s) = sv_loop s \<and>
     (\<forall>j. j \<notin> set (server_loops s) \<longrightarrow> el_pending_functors (n_loops s j) = [])"

text \<open>
  The functors of \<^verbatim>\<open>send\<close> and \<^verbatim>\<open>shutdown\<close> are bound to the bare \<^verbatim>\<open>this\<close>.  In a queue they are guarded when the
  functor that destroys the connection, and keeps it alive, comes after them.
\<close>

primrec raw_conn :: "loop_functor \<Rightarrow> conn_ptr option" where
  "raw_conn (F_send_in_loop ptr addr len) = Some ptr"
| "raw_conn (F_shutdown_in_loop ptr) = Some ptr"
| "raw_conn (F_write_complete ptr) = None"
| "raw_conn (F_high_water_mark ptr n) = None"
| "raw_conn (F_establish_conn ptr) = None"
| "raw_conn (F_destroy_conn ptr) = None"
| "raw_conn (F_remove_conn_in_loop ptr) = None"
| "raw_conn F_acceptor_listen = None"

primrec raws_guarded :: "conn_ptr \<Rightarrow> loop_functor list \<Rightarrow> bool" where
  "raws_guarded ptr [] = True"
| "raws_guarded ptr (f # fs) \<longleftrightarrow> (raw_conn f = Some ptr \<longrightarrow> F_destroy_conn ptr \<in> set fs) \<and> raws_guarded ptr fs"

lemma raws_guarded_append:
  "raws_guarded ptr xs \<Longrightarrow> (\<And>f. f \<in> set ys \<Longrightarrow> raw_conn f \<noteq> Some ptr) \<Longrightarrow> raws_guarded ptr (xs @ ys)"
  by (induction xs) (auto, induction ys, auto)

lemma raws_guarded_destroy [simp]: "raws_guarded ptr (xs @ [F_destroy_conn ptr])"
  by (induction xs) auto

lemma raws_guarded_none:
  "raws_guarded ptr xs \<Longrightarrow> F_destroy_conn ptr \<notin> set xs \<Longrightarrow> f \<in> set xs \<Longrightarrow> raw_conn f \<noteq> Some ptr"
  by (induction xs) auto

text \<open>
  A connection that is not disconnected is in the map; one that is disconnected and still registered
  in the kernel, or still in the map, is on its way out; each is held by the map, by a waiting
  functor or by a functor of the batch \<open>held\<close> that is being run; and no bare pointer outlives it.
\<close>

definition conn_life :: "loop_ptr \<Rightarrow> loop_functor list \<Rightarrow> loop_functor list \<Rightarrow> tcp_server \<Rightarrow> conn_ptr \<Rightarrow> tcp_conn \<Rightarrow> bool" where
  "conn_life i fs held s ptr c \<longleftrightarrow>
     (tc_state c \<noteq> DISCONNECTED \<longrightarrow> sv_conns s (tc_id c) = Some ptr) \<and>
     (tc_state c = DISCONNECTED \<longrightarrow>
        (\<forall>ch. el_chans (n_loops s (tc_loop c)) (tc_ch c) = Some ch \<longrightarrow> ch_index ch = ADDED \<longrightarrow>
           awaits i fs s (F_destroy_conn ptr) \<or> awaits i fs s (F_remove_conn_in_loop ptr)) \<and>
        (sv_conns s (tc_id c) = Some ptr \<longrightarrow> awaits i fs s (F_remove_conn_in_loop ptr)) \<and>
        ((\<exists>f. awaits i fs s f \<and> functor_conn f = Some ptr) \<or> (\<exists>f \<in> set held. functor_conn f = Some ptr)) \<and>
        (awaits i fs s (F_remove_conn_in_loop ptr) \<or> raws_guarded ptr (waiting i fs s (tc_loop c))))"

text \<open>The invariant, where the connections in \<open>X\<close> are exempt from the last part.\<close>

definition server_ok ::
    "loop_ptr \<Rightarrow> loop_functor list \<Rightarrow> loop_functor list \<Rightarrow> conn_ptr set \<Rightarrow> tcp_server \<Rightarrow> bool" where
  "server_ok i fs held X s \<longleftrightarrow> chans_inv s \<and> conns_inv s \<and> map_inv s \<and> queues_inv i fs s \<and>
     (\<forall>f \<in> set held. \<forall>ptr. functor_conn f = Some ptr \<longrightarrow> n_conns s ptr \<noteq> None) \<and>
     (\<forall>ptr c. n_conns s ptr = Some c \<longrightarrow> ptr \<notin> X \<longrightarrow> conn_life i fs held s ptr c)"

section \<open>Access\<close>

lemma chan_of_unique: "chan_of ptr ch \<Longrightarrow> chan_of ptr' ch \<Longrightarrow> ptr = ptr'"
  by (simp add: chan_of_def)

lemma chan_of_not_plain: "chan_of ptr ch \<Longrightarrow> \<not> plain_chan ch"
  by (simp add: chan_of_def plain_chan_def)

lemma same_chan_of: "same_chan ch ch' \<Longrightarrow> chan_of ptr ch' = chan_of ptr ch"
  by (simp add: same_chan_def chan_of_def)

lemma same_chan_plain: "same_chan ch ch' \<Longrightarrow> plain_chan ch' = plain_chan ch"
  by (simp add: same_chan_def plain_chan_def)

lemma server_ok_conn:
  assumes "server_ok i fs held X s" "n_conns s ptr = Some c"
  obtains ch where "el_chans (n_loops s (tc_loop c)) (tc_ch c) = Some ch" "chan_of ptr ch" "ch_fd ch = tc_sockfd c"
    "conn_inv c (is_writing ch)" "conn_at s ptr c ch" "tc_close_callback c" "tc_loop c \<in> set (server_loops s)"
    "chan_fits c ch" "tie_ok ptr ch"
proof -
  have "chans_inv s" "conns_inv s" using assms(1) by (simp_all add: server_ok_def)
  moreover from this(1) have "el_poller (n_loops s (tc_loop c)) \<noteq> None" by (auto simp: chans_inv_def loop_wf_def)
  ultimately show thesis using assms(2) that by (fastforce simp: conns_inv_def conn_at_def)
qed

lemma server_ok_wf: "server_ok i fs held X s \<Longrightarrow> loop_wf (n_loops s j)"
  by (simp add: server_ok_def chans_inv_def)

lemma server_ok_place:
  assumes "server_ok i fs held X s" "n_conns s ptr = Some c" "n_conns s ptr' = Some c'"
    and "tc_loop c = tc_loop c'" "tc_ch c = tc_ch c'"
  shows "ptr = ptr'"
proof -
  obtain ch where "el_chans (n_loops s (tc_loop c)) (tc_ch c) = Some ch" "chan_of ptr ch"
    using assms(1,2) by (rule server_ok_conn)
  moreover obtain ch' where "el_chans (n_loops s (tc_loop c')) (tc_ch c') = Some ch'" "chan_of ptr' ch'"
    using assms(1,3) by (rule server_ok_conn)
  ultimately show ?thesis using assms(4,5) chan_of_unique by simp
qed

lemma awaits_mono:
  "(\<And>j. set (waiting i fs s j) \<subseteq> set (waiting i' fs' s' j)) \<Longrightarrow> awaits i fs s f \<Longrightarrow> awaits i' fs' s' f"
  by (auto simp: awaits_def)

lemma more_sv:
  assumes "net.more s' = net.more s"
  shows "sv_conns s' = sv_conns s" "sv_next_ptr s' = sv_next_ptr s" "sv_loop s' = sv_loop s"
    "sv_acceptor s' = sv_acceptor s" "sv_thread_pool s' = sv_thread_pool s" "server_loops s' = server_loops s"
    "sv_next_conn_id s' = sv_next_conn_id s" "sv_accepts s' = sv_accepts s"
  using assms by (cases s; cases s'; simp add: server_loops_def)+

section \<open>Changes of one connection\<close>

text \<open>
  The connection at \<open>ptr\<close> and its channel become \<open>c'\<close> and \<open>ch'\<close>, and notifications about it may be
  queued in its loop; everything else stays.
\<close>

definition conn_change ::
    "conn_ptr \<Rightarrow> tcp_conn \<Rightarrow> chan \<Rightarrow> tcp_conn \<Rightarrow> chan \<Rightarrow> tcp_server \<Rightarrow> tcp_server \<Rightarrow> bool" where
  "conn_change ptr c ch c' ch' s s' \<longleftrightarrow>
     n_conns s ptr = Some c \<and> el_chans (n_loops s (tc_loop c)) (tc_ch c) = Some ch \<and>
     n_conns s' = (n_conns s)(ptr \<mapsto> c') \<and> same_conn c c' \<and> same_chan ch ch' \<and> (tie_ok ptr ch \<longrightarrow> tie_ok ptr ch') \<and> net.more s' = net.more s \<and>
     n_strings s' = n_strings s \<and>
     (\<forall>j. el_chans (n_loops s' j) =
        (if j = tc_loop c then (el_chans (n_loops s j))(tc_ch c \<mapsto> ch') else el_chans (n_loops s j))) \<and>
     (\<forall>j. loop_wf (n_loops s' j)) \<and> (\<forall>j. el_thread_id (n_loops s' j) = el_thread_id (n_loops s j)) \<and>
     (\<forall>j. \<exists>gs. el_pending_functors (n_loops s' j) = el_pending_functors (n_loops s j) @ gs \<and>
        list_all (own_functor ptr) gs \<and> (j = tc_loop c \<or> gs = []))"

lemma own_functor_ok: "own_functor ptr f \<Longrightarrow> n_conns s ptr = Some c \<Longrightarrow> functor_ok s (tc_loop c) f"
  by (auto simp: own_functor_def functor_ok_def split: loop_functor.splits)

lemma count_own: "list_all (own_functor ptr) gs \<Longrightarrow> count_list gs (F_establish_conn p) = 0"
  by (induction gs) (auto simp: own_functor_def)

lemma conn_change_waiting:
  assumes "conn_change ptr c ch c' ch' s s'"
  obtains gs where "waiting i fs s' j = waiting i fs s j @ gs" "list_all (own_functor ptr) gs"
    "j = tc_loop c \<or> gs = []"
  using assms unfolding conn_change_def waiting_def by (metis append.assoc)

lemma guarded_change:
  assumes "conn_change ptr c ch c' ch' s s'" "raws_guarded p (waiting i fs s j)"
  shows "raws_guarded p (waiting i fs s' j)"
proof -
  obtain gs where gs: "waiting i fs s' j = waiting i fs s j @ gs" "list_all (own_functor ptr) gs"
    using conn_change_waiting [OF assms(1)] by blast
  have "raw_conn f \<noteq> Some p" if "f \<in> set gs" for f
    using gs(2) that by (cases f) (auto simp: list_all_iff own_functor_def)
  with raws_guarded_append [OF assms(2)] gs(1) show ?thesis by simp
qed

lemma conn_change_awaits:
  assumes "conn_change ptr c ch c' ch' s s'" "awaits i fs s f"
  shows "awaits i fs s' f"
proof -
  obtain j where j: "f \<in> set (waiting i fs s j)" using assms(2) by (auto simp: awaits_def)
  obtain gs where "waiting i fs s' j = waiting i fs s j @ gs" using conn_change_waiting [OF assms(1)] by blast
  with j have "f \<in> set (waiting i fs s' j)" by simp
  then show ?thesis unfolding awaits_def by blast
qed

lemma change_chans_inv:
  assumes "server_ok i fs held X s" "conn_change ptr c ch c' ch' s s'"
  shows "chans_inv s'"
proof -
  have s: "chans_inv s" using assms(1) by (simp add: server_ok_def)
  note ch = assms(2) [unfolded conn_change_def]
  obtain ch0 where "el_chans (n_loops s (tc_loop c)) (tc_ch c) = Some ch0" "chan_of ptr ch0"
    using assms(1) ch by (blast elim: server_ok_conn)
  then have of_ptr: "chan_of ptr ch'" using ch same_chan_of by auto
  have sv: "sv_next_ptr s' = sv_next_ptr s" "sv_acceptor s' = sv_acceptor s" using ch more_sv by blast+
  have "q < sv_next_ptr s' \<and> (plain_at s' j q d \<or> (\<exists>p e. chan_of p d \<and> n_conns s' p = Some e \<and> tc_loop e = j \<and> tc_ch e = q))"
    if q: "el_chans (n_loops s' j) q = Some d" for j q d
  proof (cases "j = tc_loop c \<and> q = tc_ch c")
    case True
    then have "d = ch'" using q ch by simp
    moreover have "q < sv_next_ptr s" using True s ch by (auto simp: chans_inv_def)
    moreover have "n_conns s' ptr = Some c'" "tc_loop c' = j" "tc_ch c' = q"
      using ch True by (simp_all add: same_conn_def)
    ultimately show ?thesis using of_ptr sv by auto
  next
    case False
    then have "el_chans (n_loops s j) q = Some d" using q ch by (auto split: if_splits)
    then have d: "q < sv_next_ptr s"
      "plain_at s j q d \<or> (\<exists>p e. chan_of p d \<and> n_conns s p = Some e \<and> tc_loop e = j \<and> tc_ch e = q)"
      using s by (auto simp: chans_inv_def)
    have "n_conns s' p = Some e" if "n_conns s p = Some e" "tc_loop e = j" "tc_ch e = q" for p e
      using that False ch by (cases "p = ptr") auto
    with d sv show ?thesis by (auto simp: plain_at_def listener_def)
  qed
  moreover have "\<exists>d. el_chans (n_loops s' (ac_loop (sv_acceptor s'))) (ac_ch (sv_acceptor s')) = Some d \<and> plain_chan d"
  proof -
    obtain d where d: "el_chans (n_loops s (ac_loop (sv_acceptor s))) (ac_ch (sv_acceptor s)) = Some d" "plain_chan d"
      using s by (auto simp: chans_inv_def)
    have "\<not> plain_chan ch" using of_ptr chan_of_not_plain ch same_chan_plain by blast
    with d have "ac_loop (sv_acceptor s) \<noteq> tc_loop c \<or> ac_ch (sv_acceptor s) \<noteq> tc_ch c" using ch by auto
    with d sv ch show ?thesis by auto
  qed
  ultimately show ?thesis using ch by (auto simp: chans_inv_def)
qed

lemma change_conns_inv:
  assumes "server_ok i fs held X s" "conn_change ptr c ch c' ch' s s'" "conn_inv c' (is_writing ch')"
    and "chan_fits c' ch'"
  shows "conns_inv s'"
proof -
  have s: "conns_inv s" using assms(1) by (simp add: server_ok_def)
  note ch = assms(2) [unfolded conn_change_def]
  have sv: "sv_next_ptr s' = sv_next_ptr s" "server_loops s' = server_loops s" using ch more_sv by blast+
  show ?thesis unfolding conns_inv_def
  proof (intro allI impI)
    fix p e assume p: "n_conns s' p = Some e"
    show "p < sv_next_ptr s' \<and> tc_close_callback e \<and> tc_loop e \<in> set (server_loops s') \<and>
        (\<exists>d. el_chans (n_loops s' (tc_loop e)) (tc_ch e) = Some d \<and> chan_of p d \<and> tie_ok p d \<and> ch_fd d = tc_sockfd e \<and>
           conn_inv e (is_writing d) \<and> chan_fits e d)"
    proof (cases "p = ptr")
      case True
      then have e: "e = c'" using p ch by simp
      obtain d where d: "el_chans (n_loops s (tc_loop c)) (tc_ch c) = Some d" "chan_of ptr d" "tie_ok ptr d" "ch_fd d = tc_sockfd c"
        "tc_close_callback c" "tc_loop c \<in> set (server_loops s)"
        using assms(1) ch by (blast elim: server_ok_conn)
      then have "d = ch" using ch by simp
      with d ch have "chan_of ptr ch'" "tie_ok ptr ch'" "ch_fd ch' = tc_sockfd c'"
        by (auto simp: same_chan_of, auto simp: same_chan_def same_conn_def)
      moreover have "el_chans (n_loops s' (tc_loop c')) (tc_ch c') = Some ch'" using ch by (simp add: same_conn_def)
      moreover have "ptr < sv_next_ptr s" using s ch by (auto simp: conns_inv_def)
      ultimately show ?thesis using True e d ch assms(3,4) sv by (auto simp: same_conn_def)
    next
      case False
      then have e: "n_conns s p = Some e" using p ch by simp
      have "\<not> (tc_loop e = tc_loop c \<and> tc_ch e = tc_ch c)"
        using server_ok_place [OF assms(1) e, of ptr c] ch False by blast
      then have "el_chans (n_loops s' (tc_loop e)) (tc_ch e) = el_chans (n_loops s (tc_loop e)) (tc_ch e)"
        using ch by auto
      with s e sv show ?thesis by (auto simp: conns_inv_def)
    qed
  qed
qed

lemma change_map_inv:
  assumes "server_ok i fs held X s" "conn_change ptr c ch c' ch' s s'"
  shows "map_inv s'"
proof -
  have s: "map_inv s" using assms(1) by (simp add: server_ok_def)
  note ch = assms(2) [unfolded conn_change_def]
  have ids: "n_conns s' p = Some e \<Longrightarrow> \<exists>e0. n_conns s p = Some e0 \<and> tc_id e0 = tc_id e" for p e
    using ch by (auto simp: same_conn_def split: if_splits)
  have keep: "n_conns s p = Some e \<Longrightarrow> \<exists>e1. n_conns s' p = Some e1 \<and> tc_id e1 = tc_id e" for p e
    using ch by (auto simp: same_conn_def)
  have "sv_conns s' = sv_conns s" using ch more_sv by blast
  then have "\<forall>cid p. sv_conns s' cid = Some p \<longrightarrow> (\<exists>e. n_conns s' p = Some e \<and> tc_id e = cid)"
    using s keep unfolding map_inv_def by metis
  moreover have "p = p'" if "n_conns s' p = Some e" "n_conns s' p' = Some e'" "tc_id e = tc_id e'" for p p' e e'
    using ids [OF that(1)] ids [OF that(2)] that(3) s unfolding map_inv_def by metis
  ultimately show ?thesis unfolding map_inv_def by blast
qed

lemma functor_ok_update:
  assumes "functor_ok s j f" "f = F_establish_conn ptr \<Longrightarrow> tc_state c = CONNENTING \<Longrightarrow> tc_state c' = CONNENTING"
    and "n_conns s ptr = Some c" "n_conns s' = (n_conns s)(ptr \<mapsto> c')" "n_strings s' = n_strings s" "tc_loop c' = tc_loop c"
    and "tc_state c = DISCONNECTED \<Longrightarrow> tc_state c' = DISCONNECTED" "tc_state c' = CONNENTING \<Longrightarrow> tc_state c = CONNENTING"
  shows "functor_ok s' j f"
proof -
  have conn: "\<exists>e'. n_conns s' p = Some e' \<and> tc_loop e' = tc_loop e \<and> (tc_state e = DISCONNECTED \<longrightarrow> tc_state e' = DISCONNECTED) \<and>
      (tc_state e' = CONNENTING \<longrightarrow> tc_state e = CONNENTING) \<and>
      (f = F_establish_conn p \<longrightarrow> tc_state e = CONNENTING \<longrightarrow> tc_state e' = CONNENTING)" if "n_conns s p = Some e" for p e
  proof (cases "p = ptr")
    case True
    with assms(3) that have "e = c" by simp
    moreover have "n_conns s' p = Some c'" using True assms(4) by simp
    ultimately show ?thesis using True assms(2,6-8) by blast
  qed (use assms(4) that in simp)
  from assms(1,5) show ?thesis by (cases f) (auto simp: functor_ok_def dest!: conn)
qed

text \<open>A state may change when no waiting functor depends on the old one.\<close>

lemma change_queues_inv:
  assumes "server_ok i fs held X s" "conn_change ptr c ch c' ch' s s'"
    and "tc_state c = DISCONNECTED \<Longrightarrow> tc_state c' = DISCONNECTED"
    and "tc_state c = CONNENTING \<Longrightarrow> tc_state c' \<noteq> CONNENTING \<Longrightarrow> \<not> awaits i fs s (F_establish_conn ptr)"
    and "tc_state c' = CONNENTING \<Longrightarrow> tc_state c = CONNENTING"
  shows "queues_inv i fs s'"
proof -
  have s: "queues_inv i fs s" using assms(1) by (simp add: server_ok_def)
  note ch = assms(2) [unfolded conn_change_def]
  have sv: "sv_thread_pool s' = sv_thread_pool s" "server_loops s' = server_loops s" "sv_loop s' = sv_loop s"
    using ch more_sv by blast+
  have loop: "tc_loop c' = tc_loop c" using ch by (simp add: same_conn_def)
  have old: "functor_ok s' j f" if f: "f \<in> set (waiting i fs s j)" for j f
  proof -
    have "functor_ok s j f" using f s by (simp add: queues_inv_def)
    moreover have "f = F_establish_conn ptr \<Longrightarrow> tc_state c = CONNENTING \<Longrightarrow> tc_state c' = CONNENTING"
      using assms(4) f by (auto simp: awaits_def)
    ultimately show ?thesis by (rule functor_ok_update [where c = c and c' = c' and ptr = ptr]) (use ch loop assms(3,5) in auto)
  qed
  have "functor_ok s' j f" if "f \<in> set (waiting i fs s' j)" for j f
  proof -
    obtain gs where gs: "waiting i fs s' j = waiting i fs s j @ gs" "list_all (own_functor ptr) gs" "j = tc_loop c \<or> gs = []"
      using conn_change_waiting [OF assms(2)] by blast
    have "n_conns s' ptr = Some c'" using ch by simp
    with gs that old own_functor_ok [of ptr f s' c'] loop show ?thesis by (auto simp: list_all_iff)
  qed
  moreover have "count_list (waiting i fs s' j) (F_establish_conn p) \<le> 1" for j p
  proof -
    obtain gs where gs: "waiting i fs s' j = waiting i fs s j @ gs" "list_all (own_functor ptr) gs"
      using conn_change_waiting [OF assms(2)] by blast
    then show ?thesis using s count_own [OF gs(2)] by (simp add: queues_inv_def)
  qed
  moreover have "el_pending_functors (n_loops s' j) = []" if j: "j \<notin> set (server_loops s')" for j
  proof -
    have "tc_loop c \<in> set (server_loops s)" using assms(1) ch by (blast elim: server_ok_conn)
    then have "j \<noteq> tc_loop c" using j sv by auto
    moreover have "el_pending_functors (n_loops s j) = []" using j sv s by (simp add: queues_inv_def)
    ultimately show ?thesis using ch by (metis append_Nil2)
  qed
  ultimately show ?thesis using s sv by (simp add: queues_inv_def)
qed

lemma server_ok_change:
  assumes "server_ok i fs held X s" "conn_change ptr c ch c' ch' s s'" "conn_inv c' (is_writing ch')"
    and "chan_fits c' ch'"
    and "tc_state c = DISCONNECTED \<Longrightarrow> tc_state c' = DISCONNECTED"
    and "tc_state c = CONNENTING \<Longrightarrow> tc_state c' \<noteq> CONNENTING \<Longrightarrow> \<not> awaits i fs s (F_establish_conn ptr)"
    and "ptr \<notin> X \<Longrightarrow> tc_state c' = DISCONNECTED \<Longrightarrow>
      tc_state c = DISCONNECTED \<and> (ch_index ch' = ADDED \<longrightarrow> ch_index ch = ADDED)"
    and "tc_state c' = CONNENTING \<Longrightarrow> tc_state c = CONNENTING"
  shows "server_ok i fs held X s'"
proof -
  note ch = assms(2) [unfolded conn_change_def]
  have sv: "sv_conns s' = sv_conns s" using ch more_sv by blast
  note aw = conn_change_awaits [OF assms(2)] and guard = guarded_change [OF assms(2)]
  have life: "conn_life i fs held s p e" if "n_conns s p = Some e" "p \<notin> X" for p e
    using assms(1) that by (simp add: server_ok_def)
  have "conn_life i fs held s' p e" if p: "n_conns s' p = Some e" "p \<notin> X" for p e
  proof (cases "p = ptr")
    case True
    then have e: "e = c'" using p ch by simp
    have "conn_life i fs held s ptr c" using life True p ch by blast
    moreover have "tc_id c' = tc_id c" "tc_loop c' = tc_loop c" "tc_ch c' = tc_ch c" using ch by (simp_all add: same_conn_def)
    moreover have "el_chans (n_loops s' (tc_loop c)) (tc_ch c) = Some ch'" "el_chans (n_loops s (tc_loop c)) (tc_ch c) = Some ch"
      using ch by simp_all
    moreover have "tc_state c' = DISCONNECTED \<Longrightarrow> tc_state c = DISCONNECTED \<and> (ch_index ch' = ADDED \<longrightarrow> ch_index ch = ADDED)"
      using assms(7) True p(2) by blast
    ultimately show ?thesis using True e sv aw guard assms(5) by (auto simp: conn_life_def)
  next
    case False
    then have e: "n_conns s p = Some e" using p ch by simp
    have "\<not> (tc_loop e = tc_loop c \<and> tc_ch e = tc_ch c)"
      using server_ok_place [OF assms(1) e, of ptr c] ch False by blast
    then have "el_chans (n_loops s' (tc_loop e)) (tc_ch e) = el_chans (n_loops s (tc_loop e)) (tc_ch e)"
      using ch by auto
    with life [OF e p(2)] sv aw guard show ?thesis by (auto simp: conn_life_def)
  qed
  moreover have "\<forall>f \<in> set held. \<forall>p. functor_conn f = Some p \<longrightarrow> n_conns s' p \<noteq> None"
    using assms(1) ch by (auto simp: server_ok_def)
  ultimately show ?thesis
    using change_chans_inv [OF assms(1,2)] change_conns_inv [OF assms(1-4)] change_map_inv [OF assms(1,2)]
      change_queues_inv [OF assms(1,2,5,6,8)]
    unfolding server_ok_def by blast
qed

lemma moves_change:
  assumes "server_ok i fs held X s" "moves ptr s s'"
  obtains c ch c' ch' where "conn_change ptr c ch c' ch' s s'" "state_moves (tc_state c) (tc_state c')"
    "chan_moves (live_state (tc_state c)) ch ch'"
proof -
  obtain c c' l' where m: "n_conns s ptr = Some c" "n_conns s' = (n_conns s)(ptr \<mapsto> c')" "same_conn c c'"
    "state_moves (tc_state c) (tc_state c')" "net.more s' = net.more s" "n_strings s' = n_strings s"
    "n_loops s' = (n_loops s)(tc_loop c := l')"
    "loop_moves ptr (tc_ch c) (live_state (tc_state c)) (n_loops s (tc_loop c)) l'"
    using assms(2) unfolding moves_def by blast
  note l' = m(8) [unfolded loop_moves_def]
  obtain ch where ch: "el_chans (n_loops s (tc_loop c)) (tc_ch c) = Some ch"
    using assms(1) m(1) by (rule server_ok_conn)
  then obtain ch' where ch': "el_chans l' (tc_ch c) = Some ch'" "chan_moves (live_state (tc_state c)) ch ch'"
    using l' by (auto simp: option_rel_Some1)
  have "el_chans l' = (el_chans (n_loops s (tc_loop c)))(tc_ch c \<mapsto> ch')" using l' ch' by auto
  moreover have "loop_wf l'" using l' server_ok_wf [OF assms(1)] by blast
  moreover have "same_chan ch ch'" "tie_ok ptr ch \<longrightarrow> tie_ok ptr ch'" using ch'(2) by (simp_all add: chan_moves_def tie_ok_def)
  moreover have "loop_wf (n_loops s j)" for j using assms(1) by (rule server_ok_wf)
  moreover have "\<exists>gs. el_pending_functors (n_loops s' j) = el_pending_functors (n_loops s j) @ gs \<and>
      list_all (own_functor ptr) gs \<and> (j = tc_loop c \<or> gs = [])" for j
    using l' m(7) by (cases "j = tc_loop c") auto
  ultimately have "conn_change ptr c ch c' ch' s s'"
    using m ch l' unfolding conn_change_def by (simp add: fun_eq_iff)
  with m(4) ch'(2) show thesis using that by blast
qed

lemma server_ok_moves:
  assumes "server_ok i fs held X s" "moves ptr s s'" "conn_ok loc s' ptr"
  shows "server_ok i fs held X s'"
proof -
  obtain c ch c' ch' where m: "conn_change ptr c ch c' ch' s s'" "state_moves (tc_state c) (tc_state c')"
    "chan_moves (live_state (tc_state c)) ch ch'"
    using assms(1,2) by (rule moves_change)
  have "n_conns s' ptr = Some c'" "el_chans (n_loops s' (tc_loop c')) (tc_ch c') = Some ch'"
    using m(1) by (simp_all add: conn_change_def same_conn_def)
  then have inv: "conn_inv c' (is_writing ch')" using assms(3) by (auto simp: conn_ok_def conn_at_def)
  have "chan_fits c ch" using assms(1) m(1) by (auto simp: conn_change_def elim: server_ok_conn)
  then have "chan_fits c' ch'" using m(2,3) by (auto simp: chan_fits_def state_moves_def chan_moves_def live_state_def)
  with assms(1) m(1) inv show ?thesis
    by (rule server_ok_change) (use m(2,3) in \<open>auto simp: state_moves_def chan_moves_def live_state_def\<close>)
qed

section \<open>Other changes\<close>

lemma functor_ok_cong: "n_conns s' = n_conns s \<Longrightarrow> n_strings s' = n_strings s \<Longrightarrow> functor_ok s' = functor_ok s"
  by (intro ext) (simp only: functor_ok_def)

lemma waiting_cong: "n_loops s' = n_loops s \<Longrightarrow> waiting i fs s' = waiting i fs s"
  by (intro ext) (simp add: waiting_def)

lemma awaits_cong: "waiting i fs s' = waiting i fs s \<Longrightarrow> awaits i fs s' = awaits i fs s"
  by (intro ext) (simp add: awaits_def)

lemma plain_at_cong:
  "ac_loop (sv_acceptor s') = ac_loop (sv_acceptor s) \<Longrightarrow> ac_ch (sv_acceptor s') = ac_ch (sv_acceptor s) \<Longrightarrow>
     plain_at s' = plain_at s"
  by (intro ext) (simp add: plain_at_def listener_def)

lemma server_ok_cong:
  assumes "n_conns s' = n_conns s" "n_loops s' = n_loops s" "sv_conns s' = sv_conns s" "sv_next_ptr s' = sv_next_ptr s"
    "sv_loop s' = sv_loop s" "sv_thread_pool s' = sv_thread_pool s"
    "ac_loop (sv_acceptor s') = ac_loop (sv_acceptor s)" "ac_ch (sv_acceptor s') = ac_ch (sv_acceptor s)"
    "n_strings s' = n_strings s"
  shows "server_ok i fs held X s' = server_ok i fs held X s"
proof -
  have 1: "server_loops s' = server_loops s" "functor_ok s' = functor_ok s" "plain_at s' = plain_at s"
    "waiting i fs s' = waiting i fs s" "awaits i fs s' = awaits i fs s"
    using functor_ok_cong [OF assms(1,9)] waiting_cong [OF assms(2)] awaits_cong [OF waiting_cong [OF assms(2)]]
      plain_at_cong [OF assms(7,8)] assms(5,6) by (simp_all add: server_loops_def)
  have "conn_life i fs held s' = conn_life i fs held s" by (intro ext) (simp add: conn_life_def assms 1)
  then show ?thesis
    unfolding server_ok_def chans_inv_def conns_inv_def map_inv_def queues_inv_def 1 assms by (simp only:)
qed

lemma server_ok_frame [simp]:
  "server_ok i fs held X (net_log lv m s) = server_ok i fs held X s"
  "server_ok i fs held X (s\<lparr>n_socks := t\<rparr>) = server_ok i fs held X s"
  "server_ok i fs held X (s\<lparr>n_calls := t'\<rparr>) = server_ok i fs held X s"
  "server_ok i fs held X (s\<lparr>sv_accepts := n\<rparr>) = server_ok i fs held X s"
  by (intro server_ok_cong; simp add: net_log_def)+

lemma server_ok_exempt: "server_ok i fs held X s \<Longrightarrow> X \<subseteq> Y \<Longrightarrow> server_ok i fs held Y s"
  unfolding server_ok_def by blast

lemma server_ok_unexempt:
  "server_ok i fs held (insert ptr X) s \<Longrightarrow> (\<And>c. n_conns s ptr = Some c \<Longrightarrow> conn_life i fs held s ptr c) \<Longrightarrow>
     server_ok i fs held X s"
  unfolding server_ok_def by blast

text \<open>Queueing a functor that may wait in loop \<open>j\<close>.\<close>

lemma waiting_queue:
  "waiting i fs (net_queue k cur j f s) j' = waiting i fs s j' @ (if j = j' then [f] else [])"
  by (simp add: waiting_def queue_pending)

lemma awaits_queue [simp]:
  "awaits i fs (net_queue k cur j f s) g \<longleftrightarrow> awaits i fs s g \<or> g = f"
  by (auto simp: awaits_def waiting_queue)

lemma queue_sv [simp]: "net.more (net_queue k cur j f s) = net.more s"
  by (simp add: net_queue_def)

lemma queue_strings [simp]: "n_strings (net_queue k cur j f s) = n_strings s"
  by (simp add: net_queue_def)

lemma queue_loop_wf [simp]: "loop_wf (n_loops (net_queue k cur j f s) j') = loop_wf (n_loops s j')"
  by (simp add: net_queue_def)

lemma guarded_queue_destroy [simp]: "raws_guarded ptr (waiting i fs (net_queue k cur j (F_destroy_conn ptr) s) j)"
  by (simp add: waiting_queue)

lemma server_ok_queue:
  assumes "server_ok i fs held X s" "functor_ok s j f" "j \<in> set (server_loops s)"
    and "\<And>ptr. f = F_establish_conn ptr \<Longrightarrow> \<not> awaits i fs s f"
    and "\<And>ptr c. raw_conn f = Some ptr \<Longrightarrow> n_conns s ptr = Some c \<Longrightarrow> tc_state c \<noteq> DISCONNECTED"
  shows "server_ok i fs held X (net_queue k cur j f s)"
proof -
  let ?s = "net_queue k cur j f s"
  note sv = more_sv [OF queue_sv [of k cur j f s]]
  have ok: "functor_ok ?s = functor_ok s" by (rule functor_ok_cong) simp_all
  have s: "queues_inv i fs s" "chans_inv s" "conns_inv s" "map_inv s" using assms(1) by (simp_all add: server_ok_def)
  have cnt: "count_list (waiting i fs ?s j') (F_establish_conn ptr) \<le> 1" for j' ptr
  proof (cases "j = j' \<and> f = F_establish_conn ptr")
    case True
    then have "count_list (waiting i fs s j') (F_establish_conn ptr) = 0"
      using assms(4) by (auto simp: awaits_def count_list_0_iff)
    with True show ?thesis by (simp add: waiting_queue)
  qed (use s(1) in \<open>auto simp: waiting_queue queues_inv_def\<close>)
  have "queues_inv i fs ?s"
    using s(1) assms(2,3) cnt by (auto simp: queues_inv_def waiting_queue ok sv queue_pending)
  moreover have "chans_inv ?s" "conns_inv ?s" "map_inv ?s"
    using s(2-4) by (simp_all add: chans_inv_def conns_inv_def map_inv_def sv plain_at_def listener_def)
  moreover have "conn_life i fs held ?s ptr c" if life: "conn_life i fs held s ptr c" and c: "n_conns s ptr = Some c" for ptr c
  proof -
    have "raws_guarded ptr (waiting i fs ?s j')"
      if "raws_guarded ptr (waiting i fs s j')" "tc_state c = DISCONNECTED" for j'
      using that assms(5) [OF _ c] by (auto simp: waiting_queue intro: raws_guarded_append)
    with life show ?thesis by (auto simp: conn_life_def sv)
  qed
  ultimately show ?thesis using assms(1) by (auto simp: server_ok_def)
qed

text \<open>Taking a disconnected connection out of the map.\<close>

lemma server_ok_erase:
  assumes "server_ok i fs held X s" "n_conns s ptr = Some c" "tc_state c = DISCONNECTED"
  shows "server_ok i fs held X (s\<lparr>sv_conns := (sv_conns s)(tc_id c := None)\<rparr>)" (is "server_ok i fs held X ?s")
proof -
  have s: "queues_inv i fs s" "chans_inv s" "conns_inv s" "map_inv s" using assms(1) by (simp_all add: server_ok_def)
  have loops: "server_loops ?s = server_loops s" by (simp add: server_loops_def)
  have eqs: "functor_ok ?s = functor_ok s" "waiting i fs ?s = waiting i fs s" "awaits i fs ?s = awaits i fs s"
    "plain_at ?s = plain_at s"
    by (rule functor_ok_cong waiting_cong awaits_cong [OF waiting_cong] plain_at_cong, simp, simp?)+
  have "conn_life i fs held ?s p e" if p: "n_conns s p = Some e" and life: "conn_life i fs held s p e" for p e
  proof -
    have "tc_state e \<noteq> DISCONNECTED \<Longrightarrow> tc_id e \<noteq> tc_id c"
      using s(4) p assms(2,3) unfolding map_inv_def by (metis option.inject)
    with life show ?thesis by (auto simp: conn_life_def eqs split: if_splits)
  qed
  moreover have "map_inv ?s" using s(4) by (auto simp: map_inv_def)
  moreover have "queues_inv i fs ?s" using s(1) by (simp add: queues_inv_def eqs loops)
  moreover have "chans_inv ?s" "conns_inv ?s" using s(2,3) by (simp_all add: chans_inv_def conns_inv_def eqs loops)
  ultimately show ?thesis using assms(1) by (auto simp: server_ok_def)
qed

text \<open>Taking the next functor of the batch.\<close>

lemma server_ok_pop:
  assumes "server_ok i (f # fs) held X s" "f \<in> set held"
    and "\<And>ptr. f = F_destroy_conn ptr \<or> f = F_remove_conn_in_loop ptr \<Longrightarrow> ptr \<in> X"
  shows "server_ok i fs held X s"
proof -
  have w: "waiting i (f # fs) s j = (if j = i then [f] else []) @ waiting i fs s j" for j
    by (simp add: waiting_def)
  have s: "queues_inv i (f # fs) s" using assms(1) by (simp add: server_ok_def)
  have "count_list (waiting i fs s j) (F_establish_conn ptr) \<le> 1" for j ptr
  proof -
    have "count_list (waiting i (f # fs) s j) (F_establish_conn ptr) \<le> 1" using s by (simp add: queues_inv_def)
    then show ?thesis unfolding w by simp
  qed
  with s have "queues_inv i fs s" by (auto simp: queues_inv_def w)
  moreover have aw: "awaits i (f # fs) s g \<longleftrightarrow> g = f \<or> awaits i fs s g" for g
    by (auto simp: awaits_def w)
  have "conn_life i fs held s ptr c" if "conn_life i (f # fs) held s ptr c" "ptr \<notin> X" for ptr c
    using that assms(2,3) by (auto simp: conn_life_def aw w split: if_splits)
  ultimately show ?thesis using assms(1) by (auto simp: server_ok_def)
qed

text \<open>Replacing a loop by one with the same queue and, up to reported events, the same channels.\<close>

definition chan_kept :: "chan \<Rightarrow> chan \<Rightarrow> bool" where
  "chan_kept ch ch' \<longleftrightarrow> same_chan ch ch' \<and>
     (plain_chan ch \<or> ch_tied ch' = ch_tied ch \<and> ch_tie ch' = ch_tie ch \<and> ch_index ch' = ch_index ch \<and> is_writing ch' = is_writing ch \<and> is_reading ch' = is_reading ch)"

lemma chan_kept_refl [simp]: "chan_kept ch ch"
  by (simp add: chan_kept_def)

lemma chan_kept_conn:
  assumes "chan_kept ch ch'" "chan_of ptr ch"
  shows "chan_of ptr ch'" "ch_fd ch' = ch_fd ch" "ch_index ch' = ch_index ch" "is_writing ch' = is_writing ch"
    "is_reading ch' = is_reading ch" "tie_ok ptr ch' = tie_ok ptr ch"
  using assms chan_of_not_plain [of ptr ch] same_chan_of [of ch ch' ptr] by (auto simp: chan_kept_def same_chan_def tie_ok_def)

lemma chan_kept_plain: "chan_kept ch ch' \<Longrightarrow> plain_at s j q ch \<Longrightarrow> plain_at s j q ch'"
  by (auto simp: chan_kept_def plain_at_def same_chan_plain, simp add: same_chan_def)

text \<open>The loops of \<open>s'\<close> are those of \<open>s\<close> up to such changes; all else is the same.\<close>

definition loops_kept :: "tcp_server \<Rightarrow> tcp_server \<Rightarrow> bool" where
  "loops_kept s s' \<longleftrightarrow> n_conns s' = n_conns s \<and> n_strings s' = n_strings s \<and> net.more s' = net.more s \<and> (\<forall>j. loop_wf (n_loops s' j)) \<and>
     (\<forall>j q. rel_option chan_kept (el_chans (n_loops s j) q) (el_chans (n_loops s' j) q)) \<and>
     (\<forall>j. el_pending_functors (n_loops s' j) = el_pending_functors (n_loops s j))"

lemma loops_kept_chan:
  assumes "loops_kept s s'"
  shows "el_chans (n_loops s j) q = Some ch \<Longrightarrow> \<exists>ch'. el_chans (n_loops s' j) q = Some ch' \<and> chan_kept ch ch'"
    "el_chans (n_loops s' j) q = Some ch' \<Longrightarrow> \<exists>ch. el_chans (n_loops s j) q = Some ch \<and> chan_kept ch ch'"
proof -
  have "rel_option chan_kept (el_chans (n_loops s j) q) (el_chans (n_loops s' j) q)" using assms by (simp add: loops_kept_def)
  then show "el_chans (n_loops s j) q = Some ch \<Longrightarrow> \<exists>ch'. el_chans (n_loops s' j) q = Some ch' \<and> chan_kept ch ch'"
    "el_chans (n_loops s' j) q = Some ch' \<Longrightarrow> \<exists>ch. el_chans (n_loops s j) q = Some ch \<and> chan_kept ch ch'"
    by (auto simp: option_rel_Some1 option_rel_Some2)
qed

lemma kept_chans_inv:
  assumes "chans_inv s" "loops_kept s s'"
  shows "chans_inv s'"
proof -
  note k = assms(2) [unfolded loops_kept_def] and chan = loops_kept_chan [OF assms(2)]
  have sv: "sv_next_ptr s' = sv_next_ptr s" "sv_acceptor s' = sv_acceptor s" using k more_sv by blast+
  have plain: "plain_at s' = plain_at s" using sv by (intro plain_at_cong) simp_all
  have "q < sv_next_ptr s' \<and> (plain_at s' j q ch' \<or>
      (\<exists>ptr c. chan_of ptr ch' \<and> n_conns s' ptr = Some c \<and> tc_loop c = j \<and> tc_ch c = q))"
    if q: "el_chans (n_loops s' j) q = Some ch'" for j q ch'
  proof -
    obtain ch where ch: "el_chans (n_loops s j) q = Some ch" "chan_kept ch ch'" using chan(2) [OF q] by blast
    have "q < sv_next_ptr s \<and> (plain_at s j q ch \<or>
      (\<exists>ptr c. chan_of ptr ch \<and> n_conns s ptr = Some c \<and> tc_loop c = j \<and> tc_ch c = q))"
      using assms(1) ch(1) by (simp add: chans_inv_def)
    then show ?thesis
      using k chan_kept_conn(1) [OF ch(2)] chan_kept_plain [OF ch(2)] unfolding plain sv by metis
  qed
  moreover have "\<exists>ch. el_chans (n_loops s' (ac_loop (sv_acceptor s'))) (ac_ch (sv_acceptor s')) = Some ch \<and> plain_chan ch"
  proof -
    obtain ch where ch: "el_chans (n_loops s (ac_loop (sv_acceptor s))) (ac_ch (sv_acceptor s)) = Some ch" "plain_chan ch"
      using assms(1) by (auto simp: chans_inv_def)
    with chan(1) [OF ch(1)] sv show ?thesis by (auto simp: chan_kept_def same_chan_plain)
  qed
  ultimately show ?thesis using k unfolding chans_inv_def by blast
qed

lemma kept_conns_inv:
  assumes "server_ok i fs held X s" "loops_kept s s'"
  shows "conns_inv s'"
  unfolding conns_inv_def
proof (intro allI impI)
  note k = assms(2) [unfolded loops_kept_def]
  fix ptr c assume "n_conns s' ptr = Some c"
  then have c: "n_conns s ptr = Some c" using k by simp
  have sv: "sv_next_ptr s' = sv_next_ptr s" "server_loops s' = server_loops s" using k more_sv by blast+
  obtain ch where ch: "el_chans (n_loops s (tc_loop c)) (tc_ch c) = Some ch" "chan_of ptr ch" "ch_fd ch = tc_sockfd c"
    "conn_inv c (is_writing ch)" "tc_close_callback c" "tc_loop c \<in> set (server_loops s)" "chan_fits c ch" "tie_ok ptr ch"
    using assms(1) c by (rule server_ok_conn)
  obtain ch' where ch': "el_chans (n_loops s' (tc_loop c)) (tc_ch c) = Some ch'" "chan_kept ch ch'"
    using loops_kept_chan(1) [OF assms(2) ch(1)] by blast
  have "ptr < sv_next_ptr s" using assms(1) c by (simp add: server_ok_def conns_inv_def)
  then show "ptr < sv_next_ptr s' \<and> tc_close_callback c \<and> tc_loop c \<in> set (server_loops s') \<and>
      (\<exists>ch. el_chans (n_loops s' (tc_loop c)) (tc_ch c) = Some ch \<and> chan_of ptr ch \<and> tie_ok ptr ch \<and> ch_fd ch = tc_sockfd c \<and>
         conn_inv c (is_writing ch) \<and> chan_fits c ch)"
    using ch(3-8) ch'(1) chan_kept_conn [OF ch'(2) ch(2)] by (simp add: chan_fits_def sv)
qed

lemma server_ok_kept:
  assumes ok: "server_ok i fs held X s" and kept: "loops_kept s s'"
  shows "server_ok i fs held X s'"
proof -
  note k = kept [unfolded loops_kept_def]
  have s: "queues_inv i fs s" "chans_inv s" "map_inv s" using ok by (simp_all add: server_ok_def)
  have sv: "sv_conns s' = sv_conns s" "sv_loop s' = sv_loop s" "sv_thread_pool s' = sv_thread_pool s"
    "server_loops s' = server_loops s" using k more_sv by blast+
  have w: "waiting i fs s' = waiting i fs s" using k by (intro ext) (simp add: waiting_def)
  have eqs: "functor_ok s' = functor_ok s" "awaits i fs s' = awaits i fs s"
    using k by (auto intro: functor_ok_cong awaits_cong [OF w])
  have "conn_life i fs held s' ptr c" if c: "n_conns s ptr = Some c" and life: "conn_life i fs held s ptr c" for ptr c
  proof -
    obtain ch where ch: "el_chans (n_loops s (tc_loop c)) (tc_ch c) = Some ch" "chan_of ptr ch"
      using ok c by (rule server_ok_conn)
    obtain ch' where "el_chans (n_loops s' (tc_loop c)) (tc_ch c) = Some ch'" "ch_index ch' = ch_index ch"
      using loops_kept_chan(1) [OF kept ch(1)] chan_kept_conn(3) [OF _ ch(2)] by blast
    with ch(1) life show ?thesis by (simp add: conn_life_def eqs sv w)
  qed
  moreover have "map_inv s'" "queues_inv i fs s'" using s(1,3) k by (simp_all add: map_inv_def queues_inv_def w eqs sv)
  ultimately show ?thesis
    using kept_chans_inv [OF s(2) kept] kept_conns_inv [OF ok kept] ok k by (simp add: server_ok_def)
qed

lemma server_ok_loop:
  assumes "server_ok i fs held X s" "loop_wf l'" "\<And>q. rel_option chan_kept (el_chans (n_loops s j) q) (el_chans l' q)"
    and "el_pending_functors l' = el_pending_functors (n_loops s j)"
  shows "server_ok i fs held X (s\<lparr>n_loops := (n_loops s)(j := l')\<rparr>)"
  using assms(1) by (rule server_ok_kept)
    (use assms server_ok_wf [OF assms(1)] in \<open>simp add: loops_kept_def option.rel_refl\<close>)

section \<open>What an operation keeps\<close>

text \<open>
  Operations on existing connections are steady: all channels and connections stay, and registered
  channels stay registered.
\<close>

definition chan_stays :: "chan \<Rightarrow> chan \<Rightarrow> bool" where
  "chan_stays ch ch' \<longleftrightarrow> same_chan ch ch' \<and> (ch_index ch = ADDED \<longrightarrow> ch_index ch' = ADDED)"

lemma chan_stays_refl [simp]: "chan_stays ch ch"
  by (simp add: chan_stays_def)

lemma chan_stays_trans: "chan_stays a b \<Longrightarrow> chan_stays b c \<Longrightarrow> chan_stays a c"
  unfolding chan_stays_def by (blast intro: same_chan_trans)

definition steady :: "tcp_server \<Rightarrow> tcp_server \<Rightarrow> bool" where
  "steady s s' \<longleftrightarrow>
     (\<forall>j q. rel_option chan_stays (el_chans (n_loops s j) q) (el_chans (n_loops s' j) q)) \<and>
     (\<forall>ptr. rel_option same_conn (n_conns s ptr) (n_conns s' ptr)) \<and>
     (\<forall>j. el_thread_id (n_loops s' j) = el_thread_id (n_loops s j)) \<and>
     sv_accepts s' = sv_accepts s \<and> sv_next_conn_id s' = sv_next_conn_id s \<and> sv_acceptor s' = sv_acceptor s \<and>
     server_loops s' = server_loops s"

lemma steady_refl [simp]: "steady s s"
  by (simp add: steady_def option.rel_refl)

lemma rel_option_trans:
  "rel_option R x y \<Longrightarrow> rel_option R y z \<Longrightarrow> (\<And>a b c. R a b \<Longrightarrow> R b c \<Longrightarrow> R a c) \<Longrightarrow> rel_option R x z"
  by (cases x; cases y; cases z) auto

lemma steadyD:
  assumes "steady s s'"
  shows "rel_option chan_stays (el_chans (n_loops s j) q) (el_chans (n_loops s' j) q)"
    "rel_option same_conn (n_conns s ptr) (n_conns s' ptr)"
  using assms by (simp_all add: steady_def)

lemma steady_trans:
  assumes "steady s s1" "steady s1 s2"
  shows "steady s s2"
proof -
  have "rel_option chan_stays (el_chans (n_loops s j) q) (el_chans (n_loops s2 j) q)" for j q
    using steadyD(1) [OF assms(1)] steadyD(1) [OF assms(2)] chan_stays_trans by (rule rel_option_trans)
  moreover have "rel_option same_conn (n_conns s ptr) (n_conns s2 ptr)" for ptr
    using steadyD(2) [OF assms(1)] steadyD(2) [OF assms(2)] same_conn_trans by (rule rel_option_trans)
  ultimately show ?thesis using assms by (simp add: steady_def)
qed

lemma steady_frame [simp]:
  "steady s (net_log lv m s') = steady s s'" "steady s (s'\<lparr>n_socks := t\<rparr>) = steady s s'"
  "steady s (s'\<lparr>n_calls := t'\<rparr>) = steady s s'" "steady s (s'\<lparr>sv_conns := mp\<rparr>) = steady s s'"
  "steady s (net_queue k cur i f s') = steady s s'"
proof -
  have "el_thread_id (n_loops (net_queue k cur i f s') j) = el_thread_id (n_loops s' j)" for j
    by (simp add: net_queue_def)
  moreover have "sv_accepts (net_queue k cur i f s') = sv_accepts s'" "sv_acceptor (net_queue k cur i f s') = sv_acceptor s'"
    "server_loops (net_queue k cur i f s') = server_loops s'"
    by (simp_all add: net_queue_def server_loops_def)
  ultimately show "steady s (net_queue k cur i f s') = steady s s'" by (simp add: steady_def)
qed (simp_all add: steady_def net_log_def server_loops_def)

lemma steady_change:
  assumes "conn_change ptr c ch c' ch' s s'" "ch_index ch = ADDED \<Longrightarrow> ch_index ch' = ADDED"
  shows "steady s s'"
proof -
  note ch = assms(1) [unfolded conn_change_def]
  have "rel_option chan_stays (el_chans (n_loops s j) q) (el_chans (n_loops s' j) q)" for j q
    using ch assms(2) by (cases "j = tc_loop c"; cases "q = tc_ch c") (simp_all add: option.rel_refl chan_stays_def)
  moreover have "rel_option same_conn (n_conns s p) (n_conns s' p)" for p
    using ch by (cases "p = ptr") (simp_all add: option.rel_refl)
  ultimately show ?thesis using ch more_sv [of s' s] by (simp add: steady_def)
qed

lemma ok_moves:
  assumes "server_ok i fs held X s" "ensures r (\<lambda>s'. conn_ok loc s' ptr)" "yields r (moves ptr s)"
  shows "ensures r (\<lambda>s'. server_ok i fs held X s' \<and> steady s s')"
proof (cases r)
  case (Inr s')
  with assms have m: "moves ptr s s'" "conn_ok loc s' ptr" by simp_all
  obtain c ch c' ch' where ch: "conn_change ptr c ch c' ch' s s'" "chan_moves (live_state (tc_state c)) ch ch'"
    using assms(1) m(1) by (rule moves_change)
  have "steady s s'" using ch(1) by (rule steady_change) (use ch(2) in \<open>auto simp: chan_moves_def\<close>)
  with server_ok_moves [OF assms(1) m] Inr show ?thesis by simp
qed (use assms(2) in simp)

end
