(* ===== verification/ServerTurn.thy ===== *)
theory ServerTurn
  imports ServerLife
begin

text \<open>
  The turns of a server's loops keep the invariant of \<^verbatim>\<open>ServerLife\<close>: each functor, each channel
  callback, the release of a batch, and so a whole turn.
\<close>

section \<open>Connections in their own loop\<close>

text \<open>What is assumed of the kernel and of the application.\<close>

definition env_ok :: "os \<Rightarrow> app \<Rightarrow> bool" where
  "env_ok k a \<longleftrightarrow> io_documented k \<and> epoll_documented (k_ctl k) \<and> app_ok a \<and> (\<forall>f. k_listen k f = 0)"

lemma env_okD:
  "env_ok k a \<Longrightarrow> io_documented k" "env_ok k a \<Longrightarrow> epoll_documented (k_ctl k)" "env_ok k a \<Longrightarrow> app_ok a"
  by (simp_all add: env_ok_def)

lemma server_ok_conn_ok:
  assumes "server_ok i fs held X s" "n_conns s ptr = Some c"
  shows "conn_ok (tc_loop c, tc_ch c) s ptr"
proof -
  obtain ch where "conn_inv c (is_writing ch)" "conn_at s ptr c ch" using assms by (rule server_ok_conn)
  then show ?thesis by (auto simp: conn_ok_def)
qed

lemma server_ok_home:
  assumes "server_ok i fs held X s" "n_conns s ptr = Some c" "el_thread_id (n_loops s (tc_loop c)) = cur"
  shows "at_home cur ptr s"
  using assms server_ok_wf [OF assms(1)] by (simp add: at_home_def eloop_is_in_loop_thread_def)

lemma ok_callback:
  assumes "env_ok k a" "server_ok i fs held X s" "n_conns s ptr = Some c" "el_thread_id (n_loops s (tc_loop c)) = cur"
    and "\<forall>x \<in> set acts. sendable x"
  shows "ensures (run_callback k cur ptr what present acts s) (\<lambda>s'. server_ok i fs held X s' \<and> steady s s')"
  using assms(2) conn_ok_callback [OF env_okD(1) [OF assms(1)] assms(5) server_ok_conn_ok [OF assms(2,3)]]
    moves_callback [OF env_okD(2) [OF assms(1)] server_ok_home [OF assms(2-4)] assms(3)]
  by (rule ok_moves)

lemma ok_conn_callback:
  assumes "env_ok k a" "server_ok i fs held X s" "n_conns s ptr = Some c" "el_thread_id (n_loops s (tc_loop c)) = cur"
  shows "ensures (run_conn_callback k a cur ptr s) (\<lambda>s'. server_ok i fs held X s' \<and> steady s s')"
  using assms(2) conn_ok_conn_callback [OF env_okD(1,3) [OF assms(1)] server_ok_conn_ok [OF assms(2,3)]]
    moves_conn_callback [OF env_okD(2) [OF assms(1)] server_ok_home [OF assms(2-4)]]
  by (rule ok_moves)

lemma ok_error:
  assumes "server_ok i fs held X s" "n_conns s ptr = Some c"
  shows "ensures (handle_error k ptr s) (\<lambda>s'. server_ok i fs held X s' \<and> steady s s')"
  using assms(1) conn_ok_error [OF server_ok_conn_ok [OF assms]] moves_error by (rule ok_moves)

lemma ok_write:
  assumes "env_ok k a" "server_ok i fs held X s" "n_conns s ptr = Some c" "el_thread_id (n_loops s (tc_loop c)) = cur"
    and "tc_state c \<noteq> CONNENTING"
  shows "ensures (handle_write k cur ptr s) (\<lambda>s'. server_ok i fs held X s' \<and> steady s s')"
proof (rule ok_moves [OF assms(2) conn_ok_write [OF env_okD(1) [OF assms(1)] server_ok_conn_ok [OF assms(2,3)]]])
  show "yields (handle_write k cur ptr s) (moves ptr s)"
  proof (rule moves_write [OF env_okD(2) [OF assms(1)] server_ok_home [OF assms(2-4)]])
    fix c' ch assume c': "n_conns s ptr = Some c'" "el_chans (n_loops s (tc_loop c')) (tc_ch c') = Some ch" "is_writing ch"
    obtain ch0 where "el_chans (n_loops s (tc_loop c)) (tc_ch c) = Some ch0" "conn_inv c (is_writing ch0)"
      using assms(2,3) by (rule server_ok_conn)
    with c' assms(3,5) show "live_state (tc_state c')" by (cases "tc_state c'") (auto simp: conn_inv_def live_state_def)
  qed
qed

section \<open>Removal\<close>

lemma ok_remove_in_loop:
  assumes "server_ok i fs held (insert ptr X) s" "n_conns s ptr = Some c" "tc_state c = DISCONNECTED"
  shows "ensures (remove_conn_in_loop k cur ptr s) (\<lambda>s'. server_ok i fs held X s' \<and> steady s s')"
proof -
  obtain ch where at: "conn_at s ptr c ch" "tc_loop c \<in> set (server_loops s)" using assms(1,2) by (rule server_ok_conn)
  let ?s1 = "net_log INFO (''removing connection '' @ c_str (tc_name c)) s"
  let ?s2 = "?s1\<lparr>sv_conns := (sv_conns ?s1)(tc_id c := None)\<rparr>"
  let ?s3 = "net_queue k cur (tc_loop c) (F_destroy_conn ptr) ?s2"
  have eq: "remove_conn_in_loop k cur ptr s = Inr ?s3" using at(1) by (simp add: remove_conn_in_loop_def)
  have "server_ok i fs held (insert ptr X) ?s2"
    using assms by (intro server_ok_erase) simp_all
  moreover have "functor_ok ?s2 (tc_loop c) (F_destroy_conn ptr)" "tc_loop c \<in> set (server_loops ?s2)"
    using assms(2,3) at(2) by (simp_all add: functor_ok_def server_loops_def net_log_def)
  ultimately have "server_ok i fs held (insert ptr X) ?s3" by (rule server_ok_queue) simp_all
  then have "server_ok i fs held X ?s3"
    by (rule server_ok_unexempt) (use assms(2,3) in \<open>auto simp: conn_life_def\<close>)
  then show ?thesis by (simp add: eq)
qed

lemma ok_remove_conn:
  assumes "server_ok i fs held (insert ptr X) s" "n_conns s ptr = Some c" "tc_state c = DISCONNECTED"
  shows "ensures (remove_conn k cur ptr s) (\<lambda>s'. server_ok i fs held X s' \<and> steady s s')"
proof (cases "eloop_is_in_loop_thread cur (n_loops s (sv_loop s))")
  case True
  with ok_remove_in_loop [OF assms] show ?thesis by (simp add: remove_conn_def)
next
  case False
  let ?s = "net_queue k cur (sv_loop s) (F_remove_conn_in_loop ptr) s"
  have "functor_ok s (sv_loop s) (F_remove_conn_in_loop ptr)" "sv_loop s \<in> set (server_loops s)"
    using assms(2,3) by (simp_all add: functor_ok_def server_loops_def)
  with assms(1) have "server_ok i fs held (insert ptr X) ?s" by (rule server_ok_queue) simp_all
  then have "server_ok i fs held X ?s"
    by (rule server_ok_unexempt) (use assms(2,3) in \<open>auto simp: conn_life_def intro!: exI [of _ "F_remove_conn_in_loop ptr"]\<close>)
  with False show ?thesis by (simp add: remove_conn_def)
qed

section \<open>Changes of state\<close>

lemma change_loop:
  assumes "server_ok i fs held X s" "n_conns s ptr = Some c" "el_chans (n_loops s (tc_loop c)) (tc_ch c) = Some ch"
    and "same_conn c c'" "same_chan ch ch'" "tie_ok ptr ch \<Longrightarrow> tie_ok ptr ch'" "loop_wf l'"
    and "el_chans l' = (el_chans (n_loops s (tc_loop c)))(tc_ch c \<mapsto> ch')"
    and "el_thread_id l' = el_thread_id (n_loops s (tc_loop c))"
    and "el_pending_functors l' = el_pending_functors (n_loops s (tc_loop c))"
    and "n_conns s' = (n_conns s)(ptr \<mapsto> c')" "n_loops s' = (n_loops s)(tc_loop c := l')" "net.more s' = net.more s"
    and "n_strings s' = n_strings s"
  shows "conn_change ptr c ch c' ch' s s'"
  using assms server_ok_wf [OF assms(1)] by (simp add: conn_change_def)

text \<open>Closing: the state is set, all events are disabled, the application is told and the owner called.\<close>

lemma ok_close:
  assumes "env_ok k a" "server_ok i fs held X s" "n_conns s ptr = Some c" "el_thread_id (n_loops s (tc_loop c)) = cur"
    and "tc_state c \<noteq> CONNENTING"
  shows "ensures (handle_close k a (remove_conn k) cur ptr s) (\<lambda>s'. server_ok i fs held X s' \<and> steady s s')"
proof -
  obtain ch where ch: "el_chans (n_loops s (tc_loop c)) (tc_ch c) = Some ch" "conn_at s ptr c ch"
    "conn_inv c (is_writing ch)" "tc_close_callback c"
    using assms(2,3) by (rule server_ok_conn)
  let ?c = "c\<lparr>tc_state := DISCONNECTED\<rparr>"
  let ?ch = "chan_set_index (chan_mask Disable_All ch) ADDED"
  let ?s0 = "net_log INFO (''closing conn ['' @ c_str (tc_name c) @ ''] fd='' @ dec_int (ch_fd ch)) s"
  let ?s1 = "put_conn ptr ?c ?s0"
  obtain p' l' where l': "l' = (n_loops s (tc_loop c))\<lparr>el_poller := Some p', el_chans := (el_chans (n_loops s (tc_loop c)))(tc_ch c \<mapsto> ?ch)\<rparr>"
    "chan_set_mask (k_ctl k) Disable_All (tc_ch c) (n_loops s (tc_loop c)) = Inr l'" "loop_wf l'"
    using chan_set_mask_wf [OF env_okD(2) [OF assms(1)] server_ok_wf [OF assms(2)] ch(1)] by metis
  let ?s2 = "?s1\<lparr>n_loops := (n_loops ?s1)(tc_loop c := l')\<rparr>"
  have mask: "conn_mask k Disable_All c ?s1 = Inr ?s2" using l'(2) by (simp add: conn_mask_def on_loop_def)
  have change: "conn_change ptr c ch ?c ?ch s ?s2"
    using l' by (intro change_loop [OF assms(2,3) ch(1)]) (simp_all add: same_conn_def put_conn_def net_log_def)
  have "server_ok i fs held (insert ptr X) s" using assms(2) by (rule server_ok_exempt) blast
  then have ok2: "server_ok i fs held (insert ptr X) ?s2"
    using change by (rule server_ok_change) (use ch(3) assms(5) in \<open>simp_all add: conn_inv_def is_writing_def
        chan_set_index_def chan_mask_def NONE_EVENT_def chan_fits_def live_state_def\<close>)
  have steady2: "steady s ?s2" using change by (rule steady_change) simp
  have c2: "n_conns ?s2 ptr = Some ?c" "el_thread_id (n_loops ?s2 (tc_loop ?c)) = cur"
    using l'(1) assms(4) by (simp_all add: put_conn_def)
  have closed: "yields (run_conn_callback k a cur ptr ?s2) (moves ptr ?s2)"
    using moves_conn_callback [OF env_okD(2) [OF assms(1)] server_ok_home [OF ok2 c2]] .
  have fin: "ensures (remove_conn k cur ptr s3) (\<lambda>s'. server_ok i fs held X s' \<and> steady s s')"
    if s3: "server_ok i fs held (insert ptr X) s3" "steady ?s2 s3" "moves ptr ?s2 s3" for s3
  proof -
    obtain c3 where c3: "n_conns s3 ptr = Some c3" "state_moves (tc_state ?c) (tc_state c3)" using s3(3) c2(1) by (rule moves_conn)
    then have "tc_state c3 = DISCONNECTED" by (simp add: state_moves_def)
    from ok_remove_conn [OF s3(1) c3(1) this] show ?thesis
      by (rule ensures_mono) (use steady_trans [OF steady2] steady_trans [OF s3(2)] in blast)
  qed
  have "handle_close k a (remove_conn k) cur ptr s = bind_res (run_conn_callback k a cur ptr ?s2) (remove_conn k cur ptr)"
    using ch(2,4) mask by (simp add: handle_close_def)
  moreover have "ensures (run_conn_callback k a cur ptr ?s2)
      (\<lambda>s3. server_ok i fs held (insert ptr X) s3 \<and> steady ?s2 s3 \<and> moves ptr ?s2 s3)"
    using ok_conn_callback [OF assms(1) ok2 c2] closed by (cases "run_conn_callback k a cur ptr ?s2") simp_all
  ultimately show ?thesis using fin by (auto intro: ensures_bindI)
qed

text \<open>Reading: the bytes go to the input buffer, and then the event is one of the three above.\<close>

lemma ok_put:
  assumes "server_ok i fs held X s" "n_conns s ptr = Some c" "same_conn c c'" "tc_state c' = tc_state c"
    and "\<And>writing. conn_inv c writing \<Longrightarrow> conn_inv c' writing"
  shows "server_ok i fs held X (put_conn ptr c' s)" "steady s (put_conn ptr c' s)"
proof -
  obtain ch where ch: "el_chans (n_loops s (tc_loop c)) (tc_ch c) = Some ch" "conn_inv c (is_writing ch)"
    "chan_fits c ch"
    using assms(1,2) by (rule server_ok_conn)
  have change: "conn_change ptr c ch c' ch s (put_conn ptr c' s)"
    using ch(1) server_ok_wf [OF assms(1)]
    by (intro change_loop [OF assms(1,2) ch(1) assms(3), where l' = "n_loops s (tc_loop c)"]) (simp_all add: put_conn_def fun_upd_idem)
  from assms(1) this show "server_ok i fs held X (put_conn ptr c' s)"
    by (rule server_ok_change) (use ch assms(4,5) in \<open>simp_all add: chan_fits_def\<close>)
  show "steady s (put_conn ptr c' s)" using change by (rule steady_change)
qed

lemma ok_read:
  assumes "env_ok k a" "server_ok i fs held X s" "n_conns s ptr = Some c" "el_thread_id (n_loops s (tc_loop c)) = cur"
    and "tc_state c \<noteq> CONNENTING"
  shows "ensures (handle_read k a (remove_conn k) cur ptr s) (\<lambda>s'. server_ok i fs held X s' \<and> steady s s')"
proof -
  obtain ch where ch: "conn_at s ptr c ch" "conn_inv c (is_writing ch)" using assms(2,3) by (rule server_ok_conn)
  let ?out = "k_read k ptr (tc_reads c) (readv_capacity (tc_input_buf c))"
  have buf: "buf_inv (tc_input_buf c)" using ch(2) by (simp add: conn_inv_def)
  have read: "ensures (read_fd (tc_input_buf c) ?out) (\<lambda>(n, e, b). buf_inv b \<and> contents b = contents (tc_input_buf c) @ bytes_read ?out)"
    using buf env_okD(1) [OF assms(1)] by (rule read_fd_keeps)
  have "ensures (let w1 = put_conn ptr (c\<lparr>tc_reads := tc_reads c + 1, tc_input_buf := b, tc_received := tc_received c @ bytes_read ?out\<rparr>) s in
      if n > 0 then run_callback k cur ptr ''msg'' (tc_msg_callback c) (a_msg a ptr (contents b)) w1
      else if n = 0 then handle_close k a (remove_conn k) cur ptr w1
      else handle_error k ptr (net_log ERROR (''read error: '' @
             k_strerror k (case e of Some e \<Rightarrow> e | None \<Rightarrow> 0)) w1)) (\<lambda>s'. server_ok i fs held X s' \<and> steady s s')"
    if b: "buf_inv b" "contents b = contents (tc_input_buf c) @ bytes_read ?out" for n :: int and e b
  proof -
    let ?c = "c\<lparr>tc_reads := tc_reads c + 1, tc_input_buf := b, tc_received := tc_received c @ bytes_read ?out\<rparr>"
    let ?s = "put_conn ptr ?c s"
    have s: "server_ok i fs held X ?s" "steady s ?s"
      using b by (auto intro!: ok_put [OF assms(2,3)] simp: same_conn_def conn_inv_def suffix_extend)
    have c: "n_conns ?s ptr = Some ?c" "el_thread_id (n_loops ?s (tc_loop ?c)) = cur" "tc_state ?c \<noteq> CONNENTING"
      using assms(4,5) by (simp_all add: put_conn_def)
    have acts: "\<forall>x \<in> set (a_msg a ptr (contents b)). sendable x" using env_okD(3) [OF assms(1)] contents_bound [OF b(1)]
      by (auto simp: app_ok_def)
    have err: "server_ok i fs held X (net_log lv m ?s)" "n_conns (net_log lv m ?s) ptr = Some ?c" for lv m
      using s(1) c(1) by simp_all
    note cases = ok_callback [OF assms(1) s(1) c(1,2) acts] ok_close [OF assms(1) s(1) c] ok_error [OF err]
    have lift: "ensures r (\<lambda>s'. server_ok i fs held X s' \<and> steady ?s s') \<Longrightarrow>
        ensures r (\<lambda>s'. server_ok i fs held X s' \<and> steady s s')" for r
      by (erule ensures_mono) (use steady_trans [OF s(2)] in blast)
    have lift': "ensures r (\<lambda>s'. server_ok i fs held X s' \<and> steady (net_log lv m ?s) s') \<Longrightarrow>
        ensures r (\<lambda>s'. server_ok i fs held X s' \<and> steady s s')" for r lv m
      by (erule ensures_mono) (use steady_trans [of s "net_log lv m ?s"] s(2) in auto)
    show ?thesis unfolding Let_def using lift [OF cases(1)] lift [OF cases(2)] lift' [OF cases(3)] by simp
  qed
  then show ?thesis
    using ch(1) read by (auto simp: handle_read_def intro!: ensures_bindI)
qed

text \<open>Establishing a connection, once.\<close>

lemma ok_establish:
  assumes "env_ok k a" "server_ok i fs held X s" "n_conns s ptr = Some c" "el_thread_id (n_loops s (tc_loop c)) = cur"
    and "tc_state c = CONNENTING" "\<not> awaits i fs s (F_establish_conn ptr)"
  shows "ensures (establish_conn k a cur ptr s) (\<lambda>s'. server_ok i fs held X s' \<and> steady s s')"
proof -
  obtain ch where ch: "el_chans (n_loops s (tc_loop c)) (tc_ch c) = Some ch" "conn_at s ptr c ch"
    "conn_inv c (is_writing ch)"
    using assms(2,3) by (rule server_ok_conn)
  let ?c = "c\<lparr>tc_state := CONNECTED\<rparr>" and ?l = "n_loops s (tc_loop c)"
  let ?l1 = "?l\<lparr>el_chans := (el_chans ?l)(tc_ch c \<mapsto> chan_tie ch ptr)\<rparr>"
  let ?ch = "chan_set_index (chan_mask Enable_Reading (chan_tie ch ptr)) ADDED"
  let ?s1 = "put_conn ptr ?c (s\<lparr>n_loops := (n_loops s)(tc_loop c := ?l1)\<rparr>)"
  obtain p where p: "el_poller ?l = Some p" "chans_wf p (el_chans ?l)"
    using server_ok_wf [OF assms(2)] by (auto simp: loop_wf_def)
  have "chans_wf p ((el_chans ?l)(tc_ch c \<mapsto> chan_tie ch ptr))"
    using p(2) ch(1) by (rule chans_wf_same) (simp_all add: chan_tie_def)
  then have "loop_wf ?l1" using p(1) by (simp add: loop_wf_def)
  moreover have "el_chans ?l1 (tc_ch c) = Some (chan_tie ch ptr)" by simp
  ultimately obtain p' l' where l': "l' = ?l1\<lparr>el_poller := Some p', el_chans := (el_chans ?l1)(tc_ch c \<mapsto> ?ch)\<rparr>"
    "chan_set_mask (k_ctl k) Enable_Reading (tc_ch c) ?l1 = Inr l'" "loop_wf l'"
    by (rule chan_set_mask_wf [OF env_okD(2) [OF assms(1)], where m = Enable_Reading])
  let ?s2 = "?s1\<lparr>n_loops := (n_loops ?s1)(tc_loop c := l')\<rparr>"
  have mask: "conn_mask k Enable_Reading c ?s1 = Inr ?s2" using l'(2) by (simp add: conn_mask_def on_loop_def)
  have change: "conn_change ptr c ch ?c ?ch s ?s2"
    using l' by (intro change_loop [OF assms(2,3) ch(1)]) (simp_all add: same_conn_def put_conn_def)
  have writing: "is_writing ?ch = is_writing ch"
    by (simp add: chan_set_index_def chan_tie_def is_writing_bit chan_mask_def event_defs bit_simps)
  have reading: "is_reading ?ch"
    by (simp add: chan_set_index_def is_reading_bit chan_mask_def event_defs bit_simps)
  have ok2: "server_ok i fs held X ?s2"
    using assms(2) change by (rule server_ok_change) (use ch(3) assms(5,6) writing reading in \<open>simp_all add: conn_inv_def chan_fits_def live_state_def\<close>)
  have steady2: "steady s ?s2" using change by (rule steady_change) simp
  have c2: "n_conns ?s2 ptr = Some ?c" "el_thread_id (n_loops ?s2 (tc_loop ?c)) = cur"
    using l'(1) assms(4) by (simp_all add: put_conn_def)
  have "establish_conn k a cur ptr s = run_conn_callback k a cur ptr ?s2"
    using ch(2) mask by (simp add: establish_conn_def Let_def)
  moreover have "ensures (run_conn_callback k a cur ptr ?s2) (\<lambda>s'. server_ok i fs held X s' \<and> steady s s')"
    using ok_conn_callback [OF assms(1) ok2 c2] by (rule ensures_mono) (use steady_trans [OF steady2] in blast)
  ultimately show ?thesis by simp
qed

text \<open>Destroying a closed connection takes its channel out of the poller.\<close>

lemma ok_destroy:
  assumes "env_ok k a" "server_ok i fs held (insert ptr X) s" "n_conns s ptr = Some c" "tc_state c = DISCONNECTED"
    and "sv_conns s (tc_id c) = Some ptr \<Longrightarrow> awaits i fs s (F_remove_conn_in_loop ptr)" "F_destroy_conn ptr \<in> set held"
    and "awaits i fs s (F_remove_conn_in_loop ptr) \<or> raws_guarded ptr (waiting i fs s (tc_loop c))"
  shows "ensures (destroy_conn k a cur ptr s) (server_ok i fs held X)"
proof -
  obtain ch where ch: "el_chans (n_loops s (tc_loop c)) (tc_ch c) = Some ch" "conn_at s ptr c ch"
    "conn_inv c (is_writing ch)"
    using assms(2,3) by (rule server_ok_conn)
  let ?ch = "chan_set_index ch DELETED"
  obtain p' l' where l': "l' = (n_loops s (tc_loop c))\<lparr>el_poller := Some p', el_chans := (el_chans (n_loops s (tc_loop c)))(tc_ch c \<mapsto> ?ch)\<rparr>"
    "chan_remove (k_ctl k) (tc_ch c) (n_loops s (tc_loop c)) = Inr l'" "loop_wf l'"
    using chan_remove_wf [OF env_okD(2) [OF assms(1)] server_ok_wf [OF assms(2)] ch(1)] by metis
  let ?s = "s\<lparr>n_loops := (n_loops s)(tc_loop c := l')\<rparr>"
  have eq: "destroy_conn k a cur ptr s = Inr ?s"
    using ch(2) assms(4) l'(2) by (simp add: destroy_conn_def on_loop_def)
  have change: "conn_change ptr c ch c ?ch s ?s"
    using l' assms(3) by (intro change_loop [OF assms(2,3) ch(1)]) (simp_all add: fun_upd_idem)
  have "is_writing ?ch = is_writing ch" by (simp add: is_writing_def)
  with ch(3) have "server_ok i fs held (insert ptr X) ?s"
    by (intro server_ok_change [OF assms(2) change]) (simp_all add: assms(4) chan_fits_def live_state_def)
  then have "server_ok i fs held X ?s"
  proof (rule server_ok_unexempt)
    fix c' assume "n_conns ?s ptr = Some c'"
    then have "c' = c" using assms(3) by simp
    moreover have "awaits i fs s f \<Longrightarrow> awaits i fs ?s f" for f using change by (rule conn_change_awaits)
    moreover have "\<exists>f \<in> set held. functor_conn f = Some ptr" by (rule bexI [OF _ assms(6)]) simp
    ultimately show "conn_life i fs held ?s ptr c'"
      using assms(4,5,7) guarded_change [OF change] l'(1) by (auto simp: conn_life_def DELETED_def ADDED_def)
  qed
  then show ?thesis by (simp add: eq)
qed

section \<open>Functors\<close>

lemma ok_listen:
  assumes "env_ok k a" "server_ok i fs held X s"
  shows "ensures (server_listen k s) (\<lambda>s'. server_ok i fs held X s' \<and>
     (\<forall>j. el_thread_id (n_loops s' j) = el_thread_id (n_loops s j)))"
proof -
  let ?ac = "sv_acceptor s"
  let ?l = "n_loops s (ac_loop ?ac)"
  obtain ch where ch: "el_chans ?l (ac_ch ?ac) = Some ch" "plain_chan ch"
    using assms(2) by (auto simp: server_ok_def chans_inv_def)
  let ?ch = "chan_set_index (chan_mask Enable_Reading ch) ADDED"
  obtain p' l' where l': "l' = ?l\<lparr>el_poller := Some p', el_chans := (el_chans ?l)(ac_ch ?ac \<mapsto> ?ch)\<rparr>"
    "chan_set_mask (k_ctl k) Enable_Reading (ac_ch ?ac) ?l = Inr l'" "loop_wf l'"
    using chan_set_mask_wf [OF env_okD(2) [OF assms(1)] server_ok_wf [OF assms(2)] ch(1)] by metis
  let ?s1 = "s\<lparr>n_socks := sys_call (Listen (ac_sockfd ?ac) 1024) (n_socks s)\<rparr>"
  let ?s2 = "?s1\<lparr>n_loops := (n_loops ?s1)(ac_loop ?ac := l')\<rparr>"
  let ?s3 = "?s2\<lparr>sv_acceptor := ?ac\<lparr>ac_listening := True\<rparr>\<rparr>"
  have "server_listen k s = Inr ?s3"
    using assms(1) l'(2) by (simp add: server_listen_def acceptor_listen_def socket_listen_def on_loop_def env_ok_def Let_def)
  moreover have "server_ok i fs held X ?s2"
  proof (rule server_ok_loop)
    show "rel_option chan_kept (el_chans (n_loops ?s1 (ac_loop ?ac)) q) (el_chans l' q)" for q
      using l'(1) ch by (simp add: option.rel_refl chan_kept_def)
  qed (use assms(2) l' in simp_all)
  then have "server_ok i fs held X ?s3" by (subst server_ok_cong [of _ ?s2]) simp_all
  moreover have "el_thread_id (n_loops ?s3 j) = el_thread_id (n_loops s j)" for j using l'(1) by simp
  ultimately show ?thesis by simp
qed

text \<open>One functor of a batch: \<open>f\<close> is taken from those that wait, and still held.\<close>

lemma waits_ok: "server_ok i (f # fs) held X s \<Longrightarrow> functor_ok s i f"
  by (simp add: server_ok_def queues_inv_def waiting_def)

lemma ok_notify:
  assumes "env_ok k a" "server_ok i (f # fs) held {} s" "f \<in> set held" "el_thread_id (n_loops s i) = cur"
    and "own_functor ptr f" "functor_conn f = Some ptr" "\<forall>x \<in> set acts. sendable x"
  shows "ensures (run_callback k cur ptr what present acts s) (\<lambda>s'. server_ok i fs held {} s' \<and> steady s s')"
proof -
  obtain c where c: "n_conns s ptr = Some c" "tc_loop c = i"
    using waits_ok [OF assms(2)] assms(5) by (auto simp: functor_ok_def own_functor_def split: loop_functor.splits)
  have "server_ok i fs held {} s" using assms(2,3)
    by (rule server_ok_pop) (use assms(5) in \<open>auto simp: own_functor_def\<close>)
  from ok_callback [OF assms(1) this c(1) _ assms(7)] c(2) assms(4) show ?thesis by simp
qed

text \<open>The functors of \<^verbatim>\<open>send\<close> and \<^verbatim>\<open>shutdown\<close> that other threads queued.\<close>

lemma ok_run_send:
  assumes "env_ok k a" "server_ok i (F_send_in_loop ptr addr len # fs) held {} s" "F_send_in_loop ptr addr len \<in> set held"
    and "el_thread_id (n_loops s i) = cur"
  shows "ensures (run_send_functor k cur ptr addr len s) (\<lambda>s'. server_ok i fs held {} s' \<and> steady s s')"
proof -
  obtain c d where c: "n_conns s ptr = Some c" "tc_loop c = i" "tc_state c \<noteq> CONNENTING"
    and d: "n_strings s addr = Some d" "len \<le> length d" "length d \<le> vector_max_size"
    using waits_ok [OF assms(2)] by (auto simp: functor_ok_def)
  have pop: "server_ok i fs held {} s" using assms(2,3) by (rule server_ok_pop) simp
  have home: "at_home cur ptr s" using server_ok_home [OF pop c(1)] c(2) assms(4) by simp
  have "ensures (send_in_loop k cur ptr (take len d) s) (\<lambda>s'. conn_ok (tc_loop c, tc_ch c) s' ptr)"
    using d by (intro conn_ok_send_in_loop [OF env_okD(1) [OF assms(1)] _ server_ok_conn_ok [OF pop c(1)]]) simp
  moreover have "yields (send_in_loop k cur ptr (take len d) s) (moves ptr s)"
    using c by (intro moves_send_in_loop [OF env_okD(2) [OF assms(1)] home]) simp
  ultimately have "ensures (send_in_loop k cur ptr (take len d) s) (\<lambda>s'. server_ok i fs held {} s' \<and> steady s s')"
    by (rule ok_moves [OF pop])
  with d show ?thesis by (simp add: run_send_functor_def)
qed

lemma ok_run_shutdown:
  assumes "server_ok i (F_shutdown_in_loop ptr # fs) held {} s" "F_shutdown_in_loop ptr \<in> set held"
  shows "ensures (shutdown_in_loop k ptr s) (\<lambda>s'. server_ok i fs held {} s' \<and> steady s s')"
proof -
  obtain c where c: "n_conns s ptr = Some c" using waits_ok [OF assms(1)] by (auto simp: functor_ok_def)
  have pop: "server_ok i fs held {} s" using assms by (rule server_ok_pop) simp
  from pop conn_ok_shutdown_in_loop [OF server_ok_conn_ok [OF pop c]] moves_shutdown_in_loop show ?thesis by (rule ok_moves)
qed

lemma establish_once:
  assumes "server_ok i (F_establish_conn ptr # fs) held {} s" "server_ok i fs held {} s"
  shows "\<not> awaits i fs s (F_establish_conn ptr)"
proof
  let ?f = "F_establish_conn ptr"
  assume "awaits i fs s ?f"
  then obtain j where j: "?f \<in> set (waiting i fs s j)" by (auto simp: awaits_def)
  have "functor_ok s j ?f" using assms(2) j by (simp add: server_ok_def queues_inv_def)
  with waits_ok [OF assms(1)] have "j = i" by (auto simp: functor_ok_def)
  moreover have "count_list (waiting i (?f # fs) s i) ?f \<le> 1" using assms(1) by (simp add: server_ok_def queues_inv_def)
  ultimately show False using j by (auto simp: waiting_def count_list_0_iff)
qed

lemma ok_run_establish:
  assumes "env_ok k a" "server_ok i (F_establish_conn ptr # fs) held {} s" "F_establish_conn ptr \<in> set held"
    and "el_thread_id (n_loops s i) = cur"
  shows "ensures (establish_conn k a cur ptr s) (\<lambda>s'. server_ok i fs held {} s' \<and> steady s s')"
proof -
  obtain c where c: "n_conns s ptr = Some c" "tc_loop c = i" "tc_state c = CONNENTING"
    using waits_ok [OF assms(2)] by (auto simp: functor_ok_def)
  have pop: "server_ok i fs held {} s" using assms(2,3) by (rule server_ok_pop) simp
  from ok_establish [OF assms(1) pop c(1) _ c(3) establish_once [OF assms(2) pop]] c(2) assms(4) show ?thesis by simp
qed

lemma pop_closing:
  assumes "server_ok i (f # fs) held {} s" "f \<in> set held" "f = F_destroy_conn ptr \<or> f = F_remove_conn_in_loop ptr"
  obtains c where "server_ok i fs held {ptr} s" "n_conns s ptr = Some c" "tc_state c = DISCONNECTED"
proof -
  obtain c where c: "n_conns s ptr = Some c" "tc_state c = DISCONNECTED"
    using waits_ok [OF assms(1)] assms(3) by (auto simp: functor_ok_def)
  have "server_ok i (f # fs) held {ptr} s" using assms(1) by (rule server_ok_exempt) simp
  then have "server_ok i fs held {ptr} s" using assms(2) by (rule server_ok_pop) (use assms(3) in auto)
  with c that show thesis by blast
qed

lemma destroy_threads:
  assumes "n_conns s ptr = Some c" "tc_state c = DISCONNECTED"
  shows "yields (destroy_conn k a cur ptr s) (\<lambda>s'. \<forall>j. el_thread_id (n_loops s' j) = el_thread_id (n_loops s j))"
  using assms by (auto simp: destroy_conn_def with_conn_def on_loop_def chan_remove_def eloop_remove_chan_def
      eloop_poller_call_def yields_def bind_res_eq_Inr split: option.splits sum.splits prod.splits)

lemma ok_run_destroy:
  assumes "env_ok k a" "server_ok i (F_destroy_conn ptr # fs) held {} s" "F_destroy_conn ptr \<in> set held"
  shows "ensures (destroy_conn k a cur ptr s) (\<lambda>s'. server_ok i fs held {} s' \<and>
     (\<forall>j. el_thread_id (n_loops s' j) = el_thread_id (n_loops s j)))"
proof -
  obtain c where c: "server_ok i fs held {ptr} s" "n_conns s ptr = Some c" "tc_state c = DISCONNECTED"
    using assms(2,3) by (rule pop_closing) simp
  have "conn_life i (F_destroy_conn ptr # fs) held s ptr c" using assms(2) c(2) by (simp add: server_ok_def)
  then have "sv_conns s (tc_id c) = Some ptr \<Longrightarrow> awaits i fs s (F_remove_conn_in_loop ptr)"
    "awaits i fs s (F_remove_conn_in_loop ptr) \<or> raws_guarded ptr (waiting i fs s (tc_loop c))"
    using c(3) by (auto simp: conn_life_def awaits_def waiting_def split: if_splits)
  from ok_destroy [OF assms(1) c this(1) assms(3) this(2), of cur] destroy_threads [OF c(2,3), of k a cur] show ?thesis
    by (cases "destroy_conn k a cur ptr s") simp_all
qed

lemma ok_functor:
  assumes "env_ok k a" "server_ok i (f # fs) held {} s" "f \<in> set held" "el_thread_id (n_loops s i) = cur"
  shows "ensures (run_functor k a cur s f) (\<lambda>s'. server_ok i fs held {} s' \<and>
     (\<forall>j. el_thread_id (n_loops s' j) = el_thread_id (n_loops s j)))"
proof -
  note app = env_okD(3) [OF assms(1)]
  have lift: "ensures r (\<lambda>s'. server_ok i fs held {} s' \<and> steady s s') \<Longrightarrow> ensures r (\<lambda>s'. server_ok i fs held {} s' \<and>
     (\<forall>j. el_thread_id (n_loops s' j) = el_thread_id (n_loops s j)))" for r
    by (erule ensures_mono) (simp add: steady_def)
  show ?thesis
  proof (cases f)
    case (F_send_in_loop ptr addr len)
    with assms ok_run_send [OF assms(1)] show ?thesis by (auto simp: run_functor_def intro!: lift)
  next
    case (F_shutdown_in_loop ptr)
    with assms ok_run_shutdown show ?thesis by (auto simp: run_functor_def intro!: lift)
  next
    case (F_write_complete ptr)
    with app show ?thesis by (auto simp: run_functor_def app_ok_def own_functor_def intro!: lift ok_notify [OF assms])
  next
    case (F_high_water_mark ptr n)
    with app show ?thesis by (auto simp: run_functor_def app_ok_def own_functor_def intro!: lift ok_notify [OF assms])
  next
    case (F_establish_conn ptr)
    with assms ok_run_establish [OF assms(1)] show ?thesis by (auto simp: run_functor_def intro!: lift)
  next
    case (F_destroy_conn ptr)
    with assms ok_run_destroy [OF assms(1)] show ?thesis by (simp add: run_functor_def)
  next
    case (F_remove_conn_in_loop ptr)
    then obtain c where c: "server_ok i fs held {ptr} s" "n_conns s ptr = Some c" "tc_state c = DISCONNECTED"
      using pop_closing [OF assms(2,3)] by blast
    from lift [OF ok_remove_in_loop [OF c]] F_remove_conn_in_loop show ?thesis by (simp add: run_functor_def)
  next
    case F_acceptor_listen
    have "server_ok i fs held {} s" using assms(2,3) by (rule server_ok_pop) (use F_acceptor_listen in simp)
    from ok_listen [OF assms(1) this] F_acceptor_listen show ?thesis by (simp add: run_functor_def)
  qed
qed

section \<open>New connections\<close>

text \<open>Accepting adds a connection and a channel; what exists stays.\<close>

definition grows :: "tcp_server \<Rightarrow> tcp_server \<Rightarrow> bool" where
  "grows s s' \<longleftrightarrow>
     (\<forall>j q ch. el_chans (n_loops s j) q = Some ch \<longrightarrow> (\<exists>ch'. el_chans (n_loops s' j) q = Some ch' \<and> chan_stays ch ch')) \<and>
     (\<forall>ptr c. n_conns s ptr = Some c \<longrightarrow> (\<exists>c'. n_conns s' ptr = Some c' \<and> same_conn c c')) \<and>
     (\<forall>j. el_thread_id (n_loops s' j) = el_thread_id (n_loops s j)) \<and> sv_acceptor s' = sv_acceptor s"

lemma steady_grows: "steady s s' \<Longrightarrow> grows s s'"
  unfolding steady_def grows_def by (metis option_rel_Some1)

lemma grows_refl [simp]: "grows s s"
  by (rule steady_grows) simp

lemma grows_trans:
  assumes "grows s s1" "grows s1 s2"
  shows "grows s s2"
proof -
  have "\<exists>ch2. el_chans (n_loops s2 j) q = Some ch2 \<and> chan_stays ch ch2" if "el_chans (n_loops s j) q = Some ch" for j q ch
    using assms that unfolding grows_def by (meson chan_stays_trans)
  moreover have "\<exists>c2. n_conns s2 ptr = Some c2 \<and> same_conn c c2" if "n_conns s ptr = Some c" for ptr c
    using assms that unfolding grows_def by (meson same_conn_trans)
  ultimately show ?thesis using assms by (simp add: grows_def)
qed

text \<open>The state right after a connection was created and entered in the map.\<close>

definition conn_added :: "conn_ptr \<Rightarrow> tcp_conn \<Rightarrow> chan \<Rightarrow> tcp_server \<Rightarrow> tcp_server \<Rightarrow> bool" where
  "conn_added ptr c ch s s' \<longleftrightarrow> ptr = sv_next_ptr s \<and> sv_next_ptr s' = ptr + 2 \<and> n_conns s' = (n_conns s)(ptr \<mapsto> c) \<and>
     n_strings s' = n_strings s \<and> sv_conns s' = (sv_conns s)(tc_id c \<mapsto> ptr) \<and> sv_loop s' = sv_loop s \<and> sv_acceptor s' = sv_acceptor s \<and>
     server_loops s' = server_loops s \<and> pool_valid (sv_thread_pool s') \<and> lp_base_loop (sv_thread_pool s') = sv_loop s \<and>
     (\<forall>j. el_chans (n_loops s' j) = (if j = tc_loop c then (el_chans (n_loops s j))(ptr + 1 \<mapsto> ch) else el_chans (n_loops s j))) \<and>
     (\<forall>j. el_pending_functors (n_loops s' j) = el_pending_functors (n_loops s j)) \<and>
     (\<forall>j. el_thread_id (n_loops s' j) = el_thread_id (n_loops s j)) \<and> (\<forall>j. loop_wf (n_loops s' j)) \<and>
     tc_ch c = ptr + 1 \<and> tc_loop c \<in> set (server_loops s) \<and> tc_state c = CONNENTING \<and> tc_close_callback c \<and>
     chan_of ptr ch \<and> tie_ok ptr ch \<and> ch_fd ch = tc_sockfd c \<and> conn_inv c (is_writing ch) \<and> ch_index ch = NEW"

lemma added_none:
  assumes "server_ok i fs held X s" "conn_added ptr c ch s s'"
  shows "n_conns s ptr = None" "el_chans (n_loops s j) (ptr + 1) = None"
proof -
  have s: "chans_inv s" "conns_inv s" "ptr = sv_next_ptr s" using assms by (simp_all add: server_ok_def conn_added_def)
  then show "n_conns s ptr = None" unfolding conns_inv_def by (metis less_irrefl not_None_eq)
  have "q < sv_next_ptr s" if "el_chans (n_loops s j) q = Some d" for q d using s(1) that unfolding chans_inv_def by blast
  from this [of "ptr + 1"] s(3) show "el_chans (n_loops s j) (ptr + 1) = None"
    by (cases "el_chans (n_loops s j) (ptr + 1)") auto
qed

lemma added_keeps:
  assumes "server_ok i fs held X s" "conn_added ptr c ch s s'"
  shows "el_chans (n_loops s j) q = Some d \<Longrightarrow> el_chans (n_loops s' j) q = Some d"
    "n_conns s p = Some e \<Longrightarrow> n_conns s' p = Some e"
    "n_conns s' p = Some e \<Longrightarrow> p = ptr \<and> e = c \<or> n_conns s p = Some e"
proof -
  note none = added_none [OF assms] and ad = assms(2) [unfolded conn_added_def]
  show "el_chans (n_loops s j) q = Some d \<Longrightarrow> el_chans (n_loops s' j) q = Some d"
    using none(2) [of j] ad by (cases "q = ptr + 1") auto
  show "n_conns s p = Some e \<Longrightarrow> n_conns s' p = Some e" using none(1) ad by (cases "p = ptr") auto
  show "n_conns s' p = Some e \<Longrightarrow> p = ptr \<and> e = c \<or> n_conns s p = Some e" using ad by (auto split: if_splits)
qed

lemma added_chans_inv:
  assumes "server_ok i fs held X s" "conn_added ptr c ch s s'"
  shows "chans_inv s'"
proof -
  have s: "chans_inv s" using assms(1) by (simp add: server_ok_def)
  note ad = assms(2) [unfolded conn_added_def] and keep = added_keeps [OF assms]
  have plain: "plain_at s' = plain_at s" using ad by (intro plain_at_cong) simp_all
  have "q < sv_next_ptr s' \<and> (plain_at s' j q d \<or> (\<exists>p e. chan_of p d \<and> n_conns s' p = Some e \<and> tc_loop e = j \<and> tc_ch e = q))"
    if q: "el_chans (n_loops s' j) q = Some d" for j q d
  proof (cases "j = tc_loop c \<and> q = ptr + 1")
    case True
    with q ad show ?thesis by (auto intro!: exI [of _ ptr] exI [of _ c])
  next
    case False
    then have "el_chans (n_loops s j) q = Some d" using q ad by (auto split: if_splits)
    then have "q < sv_next_ptr s \<and> (plain_at s j q d \<or> (\<exists>p e. chan_of p d \<and> n_conns s p = Some e \<and> tc_loop e = j \<and> tc_ch e = q))"
      using s unfolding chans_inv_def by blast
    with keep(2) ad show ?thesis unfolding plain by fastforce
  qed
  moreover have "\<exists>d. el_chans (n_loops s' (ac_loop (sv_acceptor s'))) (ac_ch (sv_acceptor s')) = Some d \<and> plain_chan d"
    using s keep(1) ad unfolding chans_inv_def by metis
  ultimately show ?thesis using ad unfolding chans_inv_def by blast
qed

lemma added_conns_inv:
  assumes "server_ok i fs held X s" "conn_added ptr c ch s s'"
  shows "conns_inv s'"
  unfolding conns_inv_def
proof (intro allI impI)
  note ad = assms(2) [unfolded conn_added_def] and keep = added_keeps [OF assms]
  fix p e assume p: "n_conns s' p = Some e"
  show "p < sv_next_ptr s' \<and> tc_close_callback e \<and> tc_loop e \<in> set (server_loops s') \<and>
      (\<exists>d. el_chans (n_loops s' (tc_loop e)) (tc_ch e) = Some d \<and> chan_of p d \<and> tie_ok p d \<and> ch_fd d = tc_sockfd e \<and>
         conn_inv e (is_writing d) \<and> chan_fits e d)"
    using keep(3) [OF p]
  proof
    assume "p = ptr \<and> e = c"
    with ad show ?thesis by (auto simp: NEW_def ADDED_def chan_fits_def live_state_def)
  next
    assume e: "n_conns s p = Some e"
    then have "p < sv_next_ptr s" using assms(1) by (simp add: server_ok_def conns_inv_def)
    moreover obtain d where "el_chans (n_loops s (tc_loop e)) (tc_ch e) = Some d" "chan_of p d" "tie_ok p d" "ch_fd d = tc_sockfd e"
      "conn_inv e (is_writing d)" "tc_close_callback e" "tc_loop e \<in> set (server_loops s)" "chan_fits e d"
      using assms(1) e by (rule server_ok_conn)
    ultimately show ?thesis using keep(1) ad by auto
  qed
qed

lemma added_map_inv:
  assumes "server_ok i fs held X s" "conn_added ptr c ch s s'"
    and "\<And>p e. n_conns s p = Some e \<Longrightarrow> tc_id e \<noteq> tc_id c"
  shows "map_inv s'"
  unfolding map_inv_def
proof (intro conjI allI impI)
  have s: "map_inv s" using assms(1) by (simp add: server_ok_def)
  note ad = assms(2) [unfolded conn_added_def] and keep = added_keeps [OF assms(1,2)]
  {
    fix cid p assume p: "sv_conns s' cid = Some p"
    show "\<exists>e. n_conns s' p = Some e \<and> tc_id e = cid"
    proof (cases "cid = tc_id c")
      case False
      then have "sv_conns s cid = Some p" using p ad by simp
      then show ?thesis using s keep(2) unfolding map_inv_def by blast
    qed (use p ad in simp)
  next
    fix p p' e e' assume "n_conns s' p = Some e" "n_conns s' p' = Some e'" "tc_id e = tc_id e'"
    with keep(3) assms(3) s show "p = p'" unfolding map_inv_def by metis
  }
qed

lemma server_ok_added:
  assumes ok: "server_ok i fs held X s" and add: "conn_added ptr c ch s s'"
    and fresh: "\<And>p e. n_conns s p = Some e \<Longrightarrow> tc_id e \<noteq> tc_id c"
  shows "server_ok i fs held X s'" "\<not> awaits i fs s' (F_establish_conn ptr)" "grows s s'"
proof -
  note ad = add [unfolded conn_added_def] and keep = added_keeps [OF ok add]
  have s: "queues_inv i fs s" using ok by (simp add: server_ok_def)
  have w: "waiting i fs s' = waiting i fs s" using ad by (intro ext) (simp add: waiting_def)
  note aw = awaits_cong [OF w]
  show "grows s s'" using keep(1,2) ad unfolding grows_def by (metis chan_stays_refl same_conn_refl)
  have "\<not> functor_ok s j (F_establish_conn ptr)" for j using added_none(1) [OF ok add] by (simp add: functor_ok_def)
  with s show "\<not> awaits i fs s' (F_establish_conn ptr)" unfolding aw awaits_def queues_inv_def by blast
  have "functor_ok s j f \<Longrightarrow> functor_ok s' j f" for j f
    using keep(2) ad by (fastforce simp: functor_ok_def split: loop_functor.splits)
  then have q: "queues_inv i fs s'" using s ad unfolding queues_inv_def w by auto
  have "conn_life i fs held s' p e" if p: "n_conns s' p = Some e" "p \<notin> X" for p e
    using keep(3) [OF p(1)]
  proof
    assume "p = ptr \<and> e = c"
    with ad show ?thesis by (simp add: conn_life_def)
  next
    assume e: "n_conns s p = Some e"
    obtain d where d: "el_chans (n_loops s (tc_loop e)) (tc_ch e) = Some d" using ok e by (rule server_ok_conn)
    have "conn_life i fs held s p e" using ok e p(2) by (simp add: server_ok_def)
    with d keep(1) [OF d] fresh [OF e] ad show ?thesis by (auto simp: conn_life_def aw w)
  qed
  moreover have "\<forall>f \<in> set held. \<forall>p. functor_conn f = Some p \<longrightarrow> n_conns s' p \<noteq> None"
    using ok ad by (auto simp: server_ok_def)
  moreover have "map_inv s'" using ok add fresh by (rule added_map_inv)
  ultimately show "server_ok i fs held X s'"
    using added_chans_inv [OF ok add] added_conns_inv [OF ok add] q unfolding server_ok_def by blast
qed

text \<open>The descriptor and the id of the next connection are not in use.\<close>

definition fresh_for :: "fd \<Rightarrow> tcp_server \<Rightarrow> bool" where
  "fresh_for sockfd s \<longleftrightarrow> (\<forall>j q ch. el_chans (n_loops s j) q = Some ch \<longrightarrow> ch_fd ch \<noteq> sockfd) \<and>
     (\<forall>ptr c. n_conns s ptr = Some c \<longrightarrow> tc_id c \<noteq> sv_next_conn_id s)"

lemma get_next_loop_frame:
  assumes "get_next_loop p = Inr (l, p')"
  shows "lp_base_loop p' = lp_base_loop p" "lp_loops p' = lp_loops p"
  using assms by (auto simp: get_next_loop_def split: if_splits)

text \<open>What \<^verbatim>\<open>tcp_conn::tcp_conn\<close> leaves behind, and the loop with the new channel.\<close>

definition conn_chan :: "fd \<Rightarrow> conn_ptr \<Rightarrow> chan" where
  "conn_chan sockfd ptr = (chan_new sockfd)\<lparr>ch_read_callback := Some (Conn_handle_read ptr),
     ch_write_callback := Some (Conn_handle_write ptr), ch_close_callback := Some (Conn_handle_close ptr),
     ch_error_callback := Some (Conn_handle_error ptr)\<rparr>"

lemma conn_chan_simps [simp]:
  "chan_of ptr (conn_chan sockfd ptr)" "tie_ok ptr (conn_chan sockfd ptr)" "ch_index (conn_chan sockfd ptr) = NEW" "ch_fd (conn_chan sockfd ptr) = sockfd"
  "\<not> is_writing (conn_chan sockfd ptr)"
  by (simp_all add: conn_chan_def chan_of_def tie_ok_def chan_new_def NEW_def is_writing_def)

lemma conn_created:
  obtains s' c where "tcp_conn_new (Some io) cid name sockfd la pa ptr cptr ret s = Inr s'"
    "n_conns s' = (n_conns s)(ptr \<mapsto> c)" "net.more s' = net.more s" "n_strings s' = n_strings s"
    "n_loops s' = (n_loops s)(io := (n_loops s io)\<lparr>el_chans := (el_chans (n_loops s io))(cptr \<mapsto> conn_chan sockfd ptr)\<rparr>)"
    "tc_loop c = io" "tc_id c = cid" "tc_ch c = cptr" "tc_state c = CONNENTING" "tc_sockfd c = sockfd" "conn_inv c False"
proof -
  obtain b where "buffer_new INITIAL_SIZE = Inr b" "buf_inv b" "contents b = []"
    by (rule buffer_new_ok [of INITIAL_SIZE]) (simp_all add: CHEAP_PREPEND_def INITIAL_SIZE_def vector_max_size_def)
  with that show thesis
    by (simp add: tcp_conn_new_def check_loop_not_null_def put_conn_def net_log_def conn_inv_def
        conn_chan_def Let_def)
qed

lemma new_chan_wf:
  assumes "server_ok i fs held X s" "fresh_for sockfd s"
  shows "loop_wf ((n_loops s io)\<lparr>el_chans := (el_chans (n_loops s io))(sv_next_ptr s + 1 \<mapsto> conn_chan sockfd ptr)\<rparr>)"
proof -
  have "el_chans (n_loops s io) (sv_next_ptr s + 1) = None"
  proof (cases "el_chans (n_loops s io) (sv_next_ptr s + 1)")
    case (Some d)
    then have "sv_next_ptr s + 1 < sv_next_ptr s" using assms(1) unfolding server_ok_def chans_inv_def by blast
    then show ?thesis by simp
  qed
  moreover obtain p where p: "el_poller (n_loops s io) = Some p" "chans_wf p (el_chans (n_loops s io))"
    using server_ok_wf [OF assms(1)] by (auto simp: loop_wf_def)
  ultimately have "chans_wf p ((el_chans (n_loops s io))(sv_next_ptr s + 1 \<mapsto> conn_chan sockfd ptr))"
    using assms(2) by (intro chans_wf_add [OF p(2)]) (auto simp: fresh_for_def)
  then show ?thesis using p(1) by (simp add: loop_wf_def)
qed

lemma new_conn_added:
  assumes ok: "server_ok i fs held X s" and fresh: "fresh_for sockfd s"
  obtains io c ch s4 where "conn_added (sv_next_ptr s) c ch s s4" "tc_loop c = io" "tc_id c = sv_next_conn_id s"
    "new_conn k a cur sockfd peer_addr s =
       (if eloop_is_in_loop_thread cur (n_loops s4 io) then establish_conn k a cur (sv_next_ptr s) s4
        else Inr (net_queue k cur io (F_establish_conn (sv_next_ptr s)) s4))"
proof -
  have q: "pool_valid (sv_thread_pool s)" "lp_base_loop (sv_thread_pool s) = sv_loop s"
    using ok by (simp_all add: server_ok_def queues_inv_def)
  from lpc.next_ok [OF q(1)] obtain io pool where pool: "get_next_loop (sv_thread_pool s) = Inr (io, pool)"
    "pool_valid pool" "io \<in> set (get_all_loops (sv_thread_pool s))" by blast
  have io: "io \<in> set (server_loops s)"
    using pool(3) q(2) by (auto simp: get_all_loops_def server_loops_def split: if_splits)
  let ?ptr = "sv_next_ptr s" and ?cid = "sv_next_conn_id s"
  let ?s1 = "net_log INFO (''new connection ['' @ c_str (conn_name s) @ ''] from '' @
                c_str (address_to_ip_port (k_ntop k) peer_addr)) (s\<lparr>sv_thread_pool := pool\<rparr>)"
  obtain la s2 where s2: "local_address k sockfd ?s1 = (la, s2)" by fastforce
  have eq: "n_conns s2 = n_conns s" "n_loops s2 = n_loops s" "sv_conns s2 = sv_conns s" "sv_next_ptr s2 = ?ptr"
    "sv_next_conn_id s2 = ?cid" "sv_loop s2 = sv_loop s" "sv_acceptor s2 = sv_acceptor s" "sv_thread_pool s2 = pool"
    "n_strings s2 = n_strings s"
    using s2 by (auto simp: local_address_def net_log_def split: sum.splits)
  obtain s3 c0 where s3: "tcp_conn_new (Some io) ?cid (conn_name s) sockfd (address_of_sockaddr la) peer_addr ?ptr (?ptr + 1)
      (k_setsockopt k sockfd SO_KEEPALIVE) s2 = Inr s3" "n_conns s3 = (n_conns s2)(?ptr \<mapsto> c0)" "net.more s3 = net.more s2"
    "n_strings s3 = n_strings s2" "n_loops s3 = (n_loops s2)(io := (n_loops s2 io)\<lparr>el_chans := (el_chans (n_loops s2 io))(?ptr + 1 \<mapsto> conn_chan sockfd ?ptr)\<rparr>)"
    "tc_loop c0 = io" "tc_id c0 = ?cid" "tc_ch c0 = ?ptr + 1" "tc_state c0 = CONNENTING" "tc_sockfd c0 = sockfd"
    "conn_inv c0 False" by (rule conn_created)
  let ?c = "set_conn_callbacks (s3\<lparr>sv_next_ptr := ?ptr + 2, sv_conns := (sv_conns s3)(?cid \<mapsto> ?ptr), sv_next_conn_id := ?cid + 1\<rparr>) c0"
  let ?s4 = "register_conn ?ptr ?cid s3"
  have c: "tc_loop ?c = io" "tc_id ?c = ?cid" "tc_ch ?c = ?ptr + 1" "tc_state ?c = CONNENTING" "tc_sockfd ?c = sockfd"
    "tc_close_callback ?c" "conn_inv ?c False"
    using s3(6-11) by (auto simp: set_conn_callbacks_def conn_inv_def)
  have s4: "n_conns ?s4 = (n_conns s)(?ptr \<mapsto> ?c)" "n_loops ?s4 = n_loops s3" "sv_conns ?s4 = (sv_conns s)(?cid \<mapsto> ?ptr)"
    "sv_next_ptr ?s4 = ?ptr + 2" "sv_loop ?s4 = sv_loop s" "sv_acceptor ?s4 = sv_acceptor s" "sv_thread_pool ?s4 = pool"
    "n_strings ?s4 = n_strings s"
    using s3(2,4) eq more_sv [OF s3(3)] by (simp_all add: register_conn_def put_conn_def Let_def)
  have "server_loops ?s4 = server_loops s" "lp_base_loop pool = sv_loop s"
    using get_next_loop_frame [OF pool(1)] s4(5,7) q(2) by (simp_all add: server_loops_def)
  then have "conn_added ?ptr ?c (conn_chan sockfd ?ptr) s ?s4"
    using s4 s3(5) eq(2) c io pool(2) server_ok_wf [OF ok] new_chan_wf [OF ok fresh, of io ?ptr] by (simp add: conn_added_def)
  moreover have "new_conn k a cur sockfd peer_addr s =
       (if eloop_is_in_loop_thread cur (n_loops ?s4 io) then establish_conn k a cur ?ptr ?s4
        else Inr (net_queue k cur io (F_establish_conn ?ptr) ?s4))"
    using pool(1) s2 eq s3(1) by (simp add: new_conn_def Let_def)
  ultimately show thesis using c by (intro that [of ?c "conn_chan sockfd ?ptr" ?s4 io]) simp_all
qed

lemma ok_new_conn:
  assumes "env_ok k a" "server_ok i fs held X s" "fresh_for sockfd s"
  shows "ensures (new_conn k a cur sockfd peer_addr s) (\<lambda>s'. server_ok i fs held X s' \<and> grows s s')"
proof -
  let ?ptr = "sv_next_ptr s"
  obtain io c ch s4 where n: "conn_added ?ptr c ch s s4" "tc_loop c = io" "tc_id c = sv_next_conn_id s"
    "new_conn k a cur sockfd peer_addr s =
       (if eloop_is_in_loop_thread cur (n_loops s4 io) then establish_conn k a cur ?ptr s4
        else Inr (net_queue k cur io (F_establish_conn ?ptr) s4))"
    by (rule new_conn_added [OF assms(2,3)])
  have fresh: "tc_id e \<noteq> tc_id c" if "n_conns s p = Some e" for p e
    using assms(3) that n(3) by (simp add: fresh_for_def)
  have s4: "server_ok i fs held X s4" "\<not> awaits i fs s4 (F_establish_conn ?ptr)" "grows s s4"
    using server_ok_added [OF assms(2) n(1)] fresh by blast+
  have c: "n_conns s4 ?ptr = Some c" "tc_state c = CONNENTING" "io \<in> set (server_loops s4)"
    using n(1,2) by (simp_all add: conn_added_def)
  show ?thesis
  proof (cases "eloop_is_in_loop_thread cur (n_loops s4 io)")
    case True
    then have "el_thread_id (n_loops s4 (tc_loop c)) = cur" using n(2) by (simp add: eloop_is_in_loop_thread_def)
    from ok_establish [OF assms(1) s4(1) c(1) this c(2) s4(2)]
    have "ensures (establish_conn k a cur ?ptr s4) (\<lambda>s'. server_ok i fs held X s' \<and> grows s s')"
      by (rule ensures_mono) (use grows_trans [OF s4(3) steady_grows] in blast)
    with True n(4) show ?thesis by simp
  next
    case False
    have "server_ok i fs held X (net_queue k cur io (F_establish_conn ?ptr) s4)"
      by (rule server_ok_queue [OF s4(1) _ c(3)]) (use c(1,2) n(2) s4(2) in \<open>auto simp: functor_ok_def\<close>)
    moreover have "grows s (net_queue k cur io (F_establish_conn ?ptr) s4)"
      by (rule grows_trans [OF s4(3) steady_grows]) simp
    ultimately show ?thesis using False n(4) by simp
  qed
qed

section \<open>Channel callbacks\<close>

definition chan_callbacks :: "chan \<Rightarrow> callback set" where
  "chan_callbacks ch = set_option (ch_read_callback ch) \<union> set_option (ch_write_callback ch) \<union>
     set_option (ch_close_callback ch) \<union> set_option (ch_error_callback ch)"

text \<open>A callback of a channel that is registered in loop \<open>i\<close>.\<close>

definition armed :: "tcp_server \<Rightarrow> loop_ptr \<Rightarrow> callback \<Rightarrow> bool" where
  "armed s i cb \<longleftrightarrow> (\<exists>q ch. el_chans (n_loops s i) q = Some ch \<and> ch_index ch = ADDED \<and> cb \<in> chan_callbacks ch)"

lemma same_chan_callbacks: "same_chan ch ch' \<Longrightarrow> chan_callbacks ch' = chan_callbacks ch"
  by (simp add: same_chan_def chan_callbacks_def)

lemma armed_grows:
  assumes "armed s i cb" "grows s s'"
  shows "armed s' i cb"
proof -
  obtain q ch where q: "el_chans (n_loops s i) q = Some ch" "ch_index ch = ADDED" "cb \<in> chan_callbacks ch"
    using assms(1) by (auto simp: armed_def)
  then obtain ch' where "el_chans (n_loops s' i) q = Some ch'" "chan_stays ch ch'"
    using assms(2) unfolding grows_def by blast
  with q show ?thesis unfolding armed_def chan_stays_def using same_chan_callbacks by blast
qed

text \<open>The next \<^verbatim>\<open>accept4\<close> gives a descriptor that is not open, and the next id is not in use.\<close>

definition accept_fresh :: "os \<Rightarrow> tcp_server \<Rightarrow> bool" where
  "accept_fresh k s \<longleftrightarrow> (\<forall>f addr. k_accept k (sv_accepts s) = Inr (f, addr) \<longrightarrow> fresh_for f s)"

lemma accept_fresh_steady:
  assumes "accept_fresh k s" "steady s s'"
  shows "accept_fresh k s'"
proof -
  have "\<exists>ch. el_chans (n_loops s j) q = Some ch \<and> ch_fd ch' = ch_fd ch" if "el_chans (n_loops s' j) q = Some ch'" for j q ch'
    using steadyD(1) [OF assms(2), of j q] that by (auto simp: option_rel_Some2 chan_stays_def same_chan_def)
  moreover have "\<exists>c. n_conns s ptr = Some c \<and> tc_id c' = tc_id c" if "n_conns s' ptr = Some c'" for ptr c'
    using steadyD(2) [OF assms(2), of ptr] that by (auto simp: option_rel_Some2 same_conn_def)
  ultimately have "fresh_for f s \<Longrightarrow> fresh_for f s'" for f
    using assms(2) unfolding fresh_for_def steady_def by metis
  moreover have "sv_accepts s' = sv_accepts s" using assms(2) by (simp add: steady_def)
  ultimately show ?thesis using assms(1) by (simp add: accept_fresh_def)
qed

lemma ok_accept:
  assumes "env_ok k a" "server_ok i fs held X s" "accept_fresh k s"
  shows "ensures (acceptor_handle_read k (sv_acceptor s) (new_conn k a cur) (k_accept k (sv_accepts s))
           (s\<lparr>sv_accepts := sv_accepts s + 1\<rparr>)) (\<lambda>s'. server_ok i fs held X s' \<and> grows s s')"
proof -
  let ?s = "\<lambda>t. s\<lparr>sv_accepts := sv_accepts s + 1, n_socks := t\<rparr>"
  have g: "grows s (?s t)" for t by (simp add: grows_def)
  have ok: "server_ok i fs held X (?s t)" for t using assms(2) by (simp add: server_ok_frame)
  have new: "ensures (new_conn k a cur f addr (?s t)) (\<lambda>s'. server_ok i fs held X s' \<and> grows s s')"
    if "fresh_for f s" for f addr t
  proof -
    have "fresh_for f (?s t)" using that by (simp add: fresh_for_def)
    from ok_new_conn [OF assms(1) ok this] show ?thesis
      by (rule ensures_mono) (use grows_trans [OF g] in blast)
  qed
  show ?thesis
  proof (cases "k_accept k (sv_accepts s)")
    case (Inl e)
    with ok g show ?thesis
      by (simp add: acceptor_handle_read_def socket_accept_def Let_def net_log_def)
  next
    case (Inr r)
    obtain f addr where r: "r = (f, addr)" by (cases r)
    with Inr assms(3) have "fresh_for f s" by (simp add: accept_fresh_def)
    from new [OF this] Inr r ok g show ?thesis
      by (simp add: acceptor_handle_read_def socket_accept_def Let_def net_log_def on_socks_def)
  qed
qed

lemma ok_wakeup:
  assumes "server_ok i fs held X s"
  shows "ensures (on_loop j (\<lambda>l. Inr (eloop_handle_read E l)) s) (\<lambda>s'. server_ok i fs held X s' \<and> steady s s')"
proof -
  let ?l = "eloop_handle_read E (n_loops s j)"
  have chans: "el_chans ?l = el_chans (n_loops s j)"
    by (simp add: eloop_handle_read_def Let_def split: prod.splits)
  have "server_ok i fs held X (s\<lparr>n_loops := (n_loops s)(j := ?l)\<rparr>)"
    by (rule server_ok_loop [OF assms]) (simp_all add: chans option.rel_refl server_ok_wf [OF assms])
  moreover have "steady s (s\<lparr>n_loops := (n_loops s)(j := ?l)\<rparr>)"
    by (simp add: steady_def chans option.rel_refl server_loops_def)
  ultimately show ?thesis by (simp add: on_loop_def)
qed

lemma armed_conn:
  assumes "server_ok i fs held X s" "armed s j cb"
    and "cb \<in> {Conn_handle_read ptr, Conn_handle_write ptr, Conn_handle_close ptr, Conn_handle_error ptr}"
  obtains c where "n_conns s ptr = Some c" "tc_loop c = j" "tc_state c \<noteq> CONNENTING"
proof -
  obtain q ch where q: "el_chans (n_loops s j) q = Some ch" "ch_index ch = ADDED" "cb \<in> chan_callbacks ch"
    using assms(2) by (auto simp: armed_def)
  have "\<not> plain_chan ch" using q(3) assms(3) by (auto simp: plain_chan_def chan_callbacks_def)
  then obtain p c where p: "chan_of p ch" "n_conns s p = Some c" "tc_loop c = j" "tc_ch c = q"
    using assms(1) q(1) unfolding server_ok_def chans_inv_def plain_at_def by blast
  have "p = ptr" using p(1) q(3) assms(3) by (auto simp: chan_of_def chan_callbacks_def)
  moreover obtain ch0 where "el_chans (n_loops s (tc_loop c)) (tc_ch c) = Some ch0" "chan_fits c ch0"
    using assms(1) p(2) by (rule server_ok_conn)
  ultimately show thesis using p q that by (auto simp: chan_fits_def)
qed

lemma ok_chan_callback:
  assumes "env_ok k a" "server_ok i fs held X s" "armed s j cb" "el_thread_id (n_loops s j) = cur"
    and "cb \<noteq> Acceptor_handle_read"
  shows "ensures (run_chan_callback k a j cur s cb) (\<lambda>s'. server_ok i fs held X s' \<and> steady s s')"
proof (cases cb)
  case Eloop_handle_read
  with ok_wakeup [OF assms(2)] show ?thesis by (simp add: run_chan_callback_def)
next
  case (Conn_handle_read ptr)
  obtain c where "n_conns s ptr = Some c" "tc_loop c = j" "tc_state c \<noteq> CONNENTING"
    using assms(2,3) by (rule armed_conn [where ptr = ptr]) (simp add: Conn_handle_read)
  with ok_read [OF assms(1,2), of ptr c cur] assms(4) Conn_handle_read show ?thesis by (simp add: run_chan_callback_def)
next
  case (Conn_handle_write ptr)
  obtain c where "n_conns s ptr = Some c" "tc_loop c = j" "tc_state c \<noteq> CONNENTING"
    using assms(2,3) by (rule armed_conn [where ptr = ptr]) (simp add: Conn_handle_write)
  with ok_write [OF assms(1,2), of ptr c cur] assms(4) Conn_handle_write show ?thesis by (simp add: run_chan_callback_def)
next
  case (Conn_handle_close ptr)
  obtain c where "n_conns s ptr = Some c" "tc_loop c = j" "tc_state c \<noteq> CONNENTING"
    using assms(2,3) by (rule armed_conn [where ptr = ptr]) (simp add: Conn_handle_close)
  with ok_close [OF assms(1,2), of ptr c cur] assms(4) Conn_handle_close show ?thesis by (simp add: run_chan_callback_def)
next
  case (Conn_handle_error ptr)
  obtain c where "n_conns s ptr = Some c"
    using assms(2,3) by (rule armed_conn [where ptr = ptr]) (simp add: Conn_handle_error)
  with ok_error [OF assms(2), of ptr c] Conn_handle_error show ?thesis by (simp add: run_chan_callback_def)
qed (use assms(5) in simp)

section \<open>Dispatching events\<close>

lemma handle_event_cases: "handle_event alive ch = ([], []) \<or> handle_event alive ch = handle_event_with_guard ch"
  by (cases "ch_tie ch") (simp_all add: handle_event_def)

lemma callback_list: "set (if b then (case x of Some cb \<Rightarrow> [cb] | None \<Rightarrow> []) else []) \<subseteq> set_option x"
  by (cases b; cases x; simp only: if_True if_False option.case list.set option.set; blast)

lemma handle_event_callbacks: "set (snd (handle_event alive ch)) \<subseteq> chan_callbacks ch"
proof -
  have "set (snd (handle_event_with_guard ch)) \<subseteq> chan_callbacks ch"
    unfolding handle_event_with_guard_def chan_callbacks_def snd_conv set_append
    by (intro Un_least subset_trans [OF callback_list]) blast+
  then show ?thesis using handle_event_cases [of alive ch] by auto
qed

lemma plain_events:
  assumes "plain_chan ch" "Acceptor_handle_read \<in> set (snd (handle_event alive ch))"
  shows "snd (handle_event alive ch) = [Acceptor_handle_read]"
proof -
  have "snd (handle_event_with_guard ch) \<in> {[], [the (ch_read_callback ch)]}"
    using assms(1) by (cases "ch_read_callback ch") (simp_all add: handle_event_with_guard_def plain_chan_def)
  then have "snd (handle_event alive ch) \<in> {[], [the (ch_read_callback ch)]}"
    using handle_event_cases [of alive ch] by auto
  with assms(2) show ?thesis by auto
qed

lemma log_fold [simp]:
  "server_ok i fs held X (fold (\<lambda>m s. net_log (fst m) (snd m) s) msgs s) = server_ok i fs held X s"
  "steady s0 (fold (\<lambda>m s. net_log (fst m) (snd m) s) msgs s) = steady s0 s"
  by (induction msgs arbitrary: s) simp_all

lemma steady_listener: "grows s s' \<Longrightarrow> listener s' j q = listener s j q"
  by (simp add: grows_def listener_def)

lemma ok_callbacks:
  assumes "env_ok k a" "server_ok i fs held X s" "\<forall>cb \<in> set cbs. armed s j cb \<and> cb \<noteq> Acceptor_handle_read"
    and "el_thread_id (n_loops s j) = cur"
  shows "ensures (fold_res (run_chan_callback k a j cur) s cbs) (\<lambda>s'. server_ok i fs held X s' \<and> steady s s')"
proof (rule ensures_fold)
  fix s1 cb assume s1: "server_ok i fs held X s1 \<and> steady s s1" and cb: "cb \<in> set cbs"
  have "armed s1 j cb" using assms(3) cb s1 by (auto intro: armed_grows steady_grows)
  moreover have "el_thread_id (n_loops s1 j) = cur" using s1 assms(4) by (simp add: steady_def)
  ultimately have "ensures (run_chan_callback k a j cur s1 cb) (\<lambda>s'. server_ok i fs held X s' \<and> steady s1 s')"
    using s1 cb assms(3) by (intro ok_chan_callback [OF assms(1)]) auto
  then show "ensures (run_chan_callback k a j cur s1 cb) (\<lambda>s'. server_ok i fs held X s' \<and> steady s s')"
    by (rule ensures_mono) (use s1 steady_trans in blast)
qed (use assms(2) in simp)

text \<open>The event phase of one channel, as the turn of a server runs it.\<close>

abbreviation server_dispatch :: "os \<Rightarrow> app \<Rightarrow> loop_ptr \<Rightarrow> tid \<Rightarrow> tcp_server \<Rightarrow> chan_ptr \<Rightarrow> tcp_server result" where
  "server_dispatch k a i cur \<equiv> dispatch_chan (\<lambda>s. n_loops s i) (\<lambda>s ptr. n_conns s ptr \<noteq> None)
     (\<lambda>msgs s. fold (\<lambda>m s. net_log (fst m) (snd m) s) msgs s) (run_chan_callback k a i cur)"

lemma acceptor_events:
  assumes "server_ok i fs held X s" "el_chans (n_loops s j) q = Some ch" "handle_event alive ch = (msgs, cbs)"
    and "Acceptor_handle_read \<in> set cbs"
  shows "cbs = [Acceptor_handle_read]" "listener s j q"
proof -
  have cb: "Acceptor_handle_read \<in> chan_callbacks ch" using handle_event_callbacks [of alive ch] assms(3,4) by auto
  then have "\<not> chan_of p ch" for p by (auto simp: chan_of_def chan_callbacks_def)
  then have "plain_at s j q ch" using assms(1,2) unfolding server_ok_def chans_inv_def by blast
  then have plain: "plain_chan ch" and "listener s j q"
    using cb by (auto simp: plain_at_def plain_chan_def chan_callbacks_def)
  then show "listener s j q" by simp
  show "cbs = [Acceptor_handle_read]" using plain_events [OF plain, of alive] assms(3,4) by simp
qed

lemma ok_dispatch:
  assumes "env_ok k a" "server_ok i fs held X s" "el_chans (n_loops s j) q = Some ch" "ch_index ch = ADDED"
    and "el_thread_id (n_loops s j) = cur" "listener s j q \<Longrightarrow> accept_fresh k s"
  shows "ensures (server_dispatch k a j cur s q)
           (\<lambda>s'. server_ok i fs held X s' \<and> grows s s' \<and> (\<not> listener s j q \<longrightarrow> steady s s'))"
proof -
  obtain msgs cbs where ev: "handle_event (\<lambda>ptr. n_conns s ptr \<noteq> None) ch = (msgs, cbs)" by fastforce
  let ?s = "fold (\<lambda>m s. net_log (fst m) (snd m) s) msgs s"
  have s: "server_ok i fs held X ?s" "steady s ?s" using assms(2) by simp_all
  have arm: "armed ?s j cb" if "cb \<in> set cbs" for cb
    using handle_event_callbacks [of "\<lambda>ptr. n_conns s ptr \<noteq> None" ch] that ev assms(3,4)
    by (intro armed_grows [OF _ steady_grows [OF s(2)]]) (auto simp: armed_def)
  have thread: "el_thread_id (n_loops ?s j) = cur" using s(2) assms(5) by (simp add: steady_def)
  have eq: "server_dispatch k a j cur s q = fold_res (run_chan_callback k a j cur) ?s cbs"
    using assms(3) ev by (simp add: dispatch_chan_def)
  show ?thesis
  proof (cases "Acceptor_handle_read \<in> set cbs")
    case False
    then have "ensures (fold_res (run_chan_callback k a j cur) ?s cbs) (\<lambda>s'. server_ok i fs held X s' \<and> steady ?s s')"
      using arm by (intro ok_callbacks [OF assms(1) s(1) _ thread]) auto
    then show ?thesis unfolding eq
      by (rule ensures_mono) (use steady_trans [OF s(2)] steady_grows in blast)
  next
    case True
    with acceptor_events [OF assms(2,3) ev] have cbs: "cbs = [Acceptor_handle_read]" and listener: "listener s j q" by simp_all
    have "accept_fresh k ?s" using accept_fresh_steady [OF assms(6) [OF listener] s(2)] .
    from ok_accept [OF assms(1) s(1) this, of cur]
    have "ensures (run_chan_callback k a j cur ?s Acceptor_handle_read) (\<lambda>s'. server_ok i fs held X s' \<and> grows ?s s')"
      by (simp add: run_chan_callback_def)
    then have "ensures (fold_res (run_chan_callback k a j cur) ?s cbs) (\<lambda>s'. server_ok i fs held X s' \<and> grows ?s s')"
      by (simp add: cbs ensures_bind)
    then show ?thesis unfolding eq
      by (rule ensures_mono) (use listener grows_trans [OF steady_grows [OF s(2)]] in blast)
  qed
qed

text \<open>After one event, the channels of the others are still registered, and there is one listener at most.\<close>

lemma dispatch_live:
  assumes "\<forall>q \<in> set (q0 # qs). \<exists>ch. el_chans (n_loops s j) q = Some ch \<and> ch_index ch = ADDED" "grows s s1"
  shows "\<forall>q \<in> set qs. \<exists>ch. el_chans (n_loops s1 j) q = Some ch \<and> ch_index ch = ADDED"
proof
  fix q assume "q \<in> set qs"
  then obtain ch where "el_chans (n_loops s j) q = Some ch" "ch_index ch = ADDED" using assms(1) by auto
  with assms(2) show "\<exists>ch. el_chans (n_loops s1 j) q = Some ch \<and> ch_index ch = ADDED"
    unfolding grows_def chan_stays_def by blast
qed

lemma dispatch_fresh:
  assumes "distinct (q # qs)" "\<exists>q' \<in> set (q # qs). listener s j q' \<Longrightarrow> accept_fresh k s" "grows s s1"
    and "\<not> listener s j q \<longrightarrow> steady s s1" "\<exists>q' \<in> set qs. listener s1 j q'"
  shows "accept_fresh k s1"
proof -
  obtain q' where q': "q' \<in> set qs" "listener s j q'" using assms(3,5) steady_listener by blast
  then have "\<not> listener s j q" using assms(1) by (auto simp: listener_def)
  with assms(4) have "steady s s1" by blast
  moreover have "accept_fresh k s" using assms(2) q' by auto
  ultimately show ?thesis using accept_fresh_steady by blast
qed

lemma ok_dispatch_all:
  assumes "env_ok k a" "server_ok i fs held X s" "\<forall>q \<in> set qs. \<exists>ch. el_chans (n_loops s j) q = Some ch \<and> ch_index ch = ADDED"
    and "distinct qs" "el_thread_id (n_loops s j) = cur" "\<exists>q \<in> set qs. listener s j q \<Longrightarrow> accept_fresh k s"
  shows "ensures (fold_res (server_dispatch k a j cur) s qs) (\<lambda>s'. server_ok i fs held X s' \<and> grows s s')"
  using assms(2-)
proof (induction qs arbitrary: s)
  case (Cons q qs)
  obtain ch where ch: "el_chans (n_loops s j) q = Some ch" "ch_index ch = ADDED" using Cons.prems(2) by auto
  have "ensures (server_dispatch k a j cur s q)
      (\<lambda>s'. server_ok i fs held X s' \<and> grows s s' \<and> (\<not> listener s j q \<longrightarrow> steady s s'))"
    using Cons.prems(4,5) by (intro ok_dispatch [OF assms(1) Cons.prems(1) ch]) auto
  moreover have "ensures (fold_res (server_dispatch k a j cur) s1 qs) (\<lambda>s'. server_ok i fs held X s' \<and> grows s s')"
    if s1: "server_ok i fs held X s1 \<and> grows s s1 \<and> (\<not> listener s j q \<longrightarrow> steady s s1)" for s1
  proof -
    have "\<forall>q' \<in> set qs. \<exists>ch. el_chans (n_loops s1 j) q' = Some ch \<and> ch_index ch = ADDED"
      using Cons.prems(2) s1 by (blast intro: dispatch_live [rule_format])
    moreover have "accept_fresh k s1" if "\<exists>q' \<in> set qs. listener s1 j q'"
      using Cons.prems(3,5) _ _ that by (rule dispatch_fresh) (use s1 in blast)+
    moreover have "el_thread_id (n_loops s1 j) = cur" using s1 Cons.prems(4) by (simp add: grows_def)
    ultimately have "ensures (fold_res (server_dispatch k a j cur) s1 qs) (\<lambda>s'. server_ok i fs held X s' \<and> grows s1 s')"
      using s1 Cons.prems(3) by (intro Cons.IH) auto
    then show ?thesis by (rule ensures_mono) (use s1 grows_trans in blast)
  qed
  ultimately show ?case by (auto intro: ensures_bindI)
qed simp

section \<open>Deleting connections\<close>

lemma not_referenced:
  assumes "server_ok i [] held X s" "\<not> conn_referenced s ptr c" "functor_conn f = Some ptr"
  shows "\<not> awaits i [] s f"
proof
  assume "awaits i [] s f"
  then obtain j where j: "f \<in> set (el_pending_functors (n_loops s j))" by (auto simp: awaits_def waiting_def split: if_splits)
  have "j \<in> set (server_loops s)"
  proof (rule ccontr)
    assume "j \<notin> set (server_loops s)"
    with assms(1) have "el_pending_functors (n_loops s j) = []" by (simp add: server_ok_def queues_inv_def)
    with j show False by simp
  qed
  with j assms(2,3) show False by (auto simp: conn_referenced_def list_ex_iff)
qed

lemma server_ok_unheld:
  assumes "server_ok i fs (f # rs) X s"
    and "\<And>ptr c. functor_conn f = Some ptr \<Longrightarrow> n_conns s ptr = Some c \<Longrightarrow> tc_state c = DISCONNECTED \<Longrightarrow>
      (\<exists>g. awaits i fs s g \<and> functor_conn g = Some ptr) \<or> (\<exists>g \<in> set rs. functor_conn g = Some ptr)"
  shows "server_ok i fs rs X s"
proof -
  have "conn_life i fs rs s ptr c" if "conn_life i fs (f # rs) s ptr c" "n_conns s ptr = Some c" for ptr c
    using that(1) assms(2) [OF _ that(2)] by (auto simp: conn_life_def)
  then show ?thesis using assms(1) by (auto simp: server_ok_def)
qed

text \<open>A connection that nothing refers to: it is closed, and its channel is not registered.\<close>

lemma unreferenced_conn:
  assumes "server_ok i [] held {} s" "n_conns s ptr = Some c" "\<not> conn_referenced s ptr c"
    and "el_chans (n_loops s (tc_loop c)) (tc_ch c) = Some ch"
  shows "ch_index ch \<noteq> ADDED"
proof -
  have life: "conn_life i [] held s ptr c" using assms(1,2) by (simp add: server_ok_def)
  have "tc_state c = DISCONNECTED" using life assms(3) by (auto simp: conn_life_def conn_referenced_def)
  with life assms(4) not_referenced [OF assms(1,3)] show ?thesis by (auto simp: conn_life_def)
qed

definition conn_gone :: "conn_ptr \<Rightarrow> tcp_conn \<Rightarrow> tcp_server \<Rightarrow> tcp_server \<Rightarrow> bool" where
  "conn_gone ptr c s s' \<longleftrightarrow> n_conns s ptr = Some c \<and> n_conns s' = (n_conns s)(ptr := None) \<and> net.more s' = net.more s \<and>
     n_strings s' = n_strings s \<and>
     (\<forall>j. el_chans (n_loops s' j) = (if j = tc_loop c then (el_chans (n_loops s j))(tc_ch c := None) else el_chans (n_loops s j))) \<and>
     (\<forall>j. loop_wf (n_loops s' j)) \<and> (\<forall>j. el_pending_functors (n_loops s' j) = el_pending_functors (n_loops s j))"

lemma tcp_conn_delete_gone:
  assumes "server_ok i [] held {} s" "n_conns s ptr = Some c" "\<not> conn_referenced s ptr c"
  shows "\<exists>s'. tcp_conn_delete ptr s = Inr s' \<and> conn_gone ptr c s s'"
proof -
  obtain ch where ch: "el_chans (n_loops s (tc_loop c)) (tc_ch c) = Some ch" "conn_at s ptr c ch"
    using assms(1,2) by (rule server_ok_conn)
  obtain p where p: "el_poller (n_loops s (tc_loop c)) = Some p" "chans_wf p (el_chans (n_loops s (tc_loop c)))"
    using server_ok_wf [OF assms(1)] by (auto simp: loop_wf_def)
  have "chans_wf p ((el_chans (n_loops s (tc_loop c)))(tc_ch c := None))"
    using p(2) ch(1) unreferenced_conn [OF assms ch(1)] by (rule chans_wf_del)
  then have "loop_wf ((n_loops s (tc_loop c))\<lparr>el_chans := (el_chans (n_loops s (tc_loop c)))(tc_ch c := None)\<rparr>)"
    using p(1) by (simp add: loop_wf_def)
  with ch(2) assms(2) server_ok_wf [OF assms(1)] show ?thesis
    by (simp add: tcp_conn_delete_def conn_gone_def net_log_def Let_def)
qed

lemma gone_chans_inv:
  assumes "server_ok i [] held {} s" "conn_gone ptr c s s'"
  shows "chans_inv s'"
proof -
  have s: "chans_inv s" using assms(1) by (simp add: server_ok_def)
  note g = assms(2) [unfolded conn_gone_def]
  have sv: "sv_next_ptr s' = sv_next_ptr s" "sv_acceptor s' = sv_acceptor s" using g more_sv by blast+
  have plain: "plain_at s' = plain_at s" using sv by (intro plain_at_cong) simp_all
  obtain ch where ch: "el_chans (n_loops s (tc_loop c)) (tc_ch c) = Some ch" "chan_of ptr ch"
    using assms(1) g by (blast elim: server_ok_conn)
  have "q < sv_next_ptr s' \<and> (plain_at s' j q d \<or> (\<exists>p e. chan_of p d \<and> n_conns s' p = Some e \<and> tc_loop e = j \<and> tc_ch e = q))"
    if q: "el_chans (n_loops s' j) q = Some d" for j q d
  proof -
    have d: "el_chans (n_loops s j) q = Some d" "\<not> (j = tc_loop c \<and> q = tc_ch c)" using q g by (auto split: if_splits)
    then have "q < sv_next_ptr s \<and> (plain_at s j q d \<or> (\<exists>p e. chan_of p d \<and> n_conns s p = Some e \<and> tc_loop e = j \<and> tc_ch e = q))"
      using s unfolding chans_inv_def by blast
    moreover have "n_conns s' p = Some e" if "n_conns s p = Some e" "tc_loop e = j" "tc_ch e = q" for p e
      using that d(2) g by (cases "p = ptr") auto
    ultimately show ?thesis unfolding plain sv by blast
  qed
  moreover have "\<exists>d. el_chans (n_loops s' (ac_loop (sv_acceptor s'))) (ac_ch (sv_acceptor s')) = Some d \<and> plain_chan d"
  proof -
    obtain d where d: "el_chans (n_loops s (ac_loop (sv_acceptor s))) (ac_ch (sv_acceptor s)) = Some d" "plain_chan d"
      using s unfolding chans_inv_def by blast
    then have "\<not> (ac_loop (sv_acceptor s) = tc_loop c \<and> ac_ch (sv_acceptor s) = tc_ch c)"
      using ch chan_of_not_plain by auto
    with d g sv show ?thesis by auto
  qed
  ultimately show ?thesis using g unfolding chans_inv_def by blast
qed

lemma gone_conns_inv:
  assumes "server_ok i [] held {} s" "conn_gone ptr c s s'"
  shows "conns_inv s'"
  unfolding conns_inv_def
proof (intro allI impI)
  fix p e assume "n_conns s' p = Some e"
  then have p: "p \<noteq> ptr" "n_conns s p = Some e" using assms(2) by (auto simp: conn_gone_def split: if_splits)
  note g = assms(2) [unfolded conn_gone_def]
  have sv: "sv_next_ptr s' = sv_next_ptr s" "server_loops s' = server_loops s" using g more_sv by blast+
  have "\<not> (tc_loop e = tc_loop c \<and> tc_ch e = tc_ch c)" using server_ok_place [OF assms(1) p(2), of ptr c] g p(1) by blast
  then have "el_chans (n_loops s' (tc_loop e)) (tc_ch e) = el_chans (n_loops s (tc_loop e)) (tc_ch e)" using g by auto
  moreover have "conns_inv s" using assms(1) by (simp add: server_ok_def)
  ultimately show "p < sv_next_ptr s' \<and> tc_close_callback e \<and> tc_loop e \<in> set (server_loops s') \<and>
      (\<exists>d. el_chans (n_loops s' (tc_loop e)) (tc_ch e) = Some d \<and> chan_of p d \<and> tie_ok p d \<and> ch_fd d = tc_sockfd e \<and>
         conn_inv e (is_writing d) \<and> chan_fits e d)"
    using p(2) sv by (auto simp: conns_inv_def)
qed

lemma functor_ok_gone:
  assumes "functor_ok s j f" "functor_conn f \<noteq> Some ptr" "raw_conn f \<noteq> Some ptr" "n_conns s' = (n_conns s)(ptr := None)"
    and "n_strings s' = n_strings s"
  shows "functor_ok s' j f"
  using assms by (cases f) (auto simp: functor_ok_def)

text \<open>Nor does a functor wait that was bound to its bare pointer.\<close>

lemma unreferenced_raw:
  assumes "server_ok i [] held {} s" "n_conns s ptr = Some c" "\<not> conn_referenced s ptr c" "f \<in> set (waiting i [] s j)"
  shows "raw_conn f \<noteq> Some ptr"
proof
  assume raw: "raw_conn f = Some ptr"
  have life: "conn_life i [] held s ptr c" and "functor_ok s j f"
    using assms(1,2,4) by (simp_all add: server_ok_def queues_inv_def)
  with raw assms(2) have j: "tc_loop c = j" by (cases f) (auto simp: functor_ok_def)
  have none: "\<not> awaits i [] s (F_remove_conn_in_loop ptr)" "\<not> awaits i [] s (F_destroy_conn ptr)"
    using not_referenced [OF assms(1,3)] by simp_all
  moreover have "tc_state c = DISCONNECTED" using life assms(3) by (auto simp: conn_life_def conn_referenced_def)
  ultimately have "raws_guarded ptr (waiting i [] s j)" using life j by (simp add: conn_life_def)
  moreover have "F_destroy_conn ptr \<notin> set (waiting i [] s j)" using none(2) by (auto simp: awaits_def)
  ultimately show False using raw assms(4) raws_guarded_none by blast
qed

lemma ok_delete:
  assumes ok: "server_ok i [] (f # rs) {} s" and f: "functor_conn f = Some ptr" and c: "n_conns s ptr = Some c"
    and unref: "\<not> conn_referenced s ptr c" "\<forall>g \<in> set rs. functor_conn g \<noteq> Some ptr" and g: "conn_gone ptr c s s'"
  shows "server_ok i [] rs {} s'"
proof -
  note gd = g [unfolded conn_gone_def]
  have s: "queues_inv i [] s" "map_inv s" using ok by (simp_all add: server_ok_def)
  have sv: "sv_conns s' = sv_conns s" "sv_thread_pool s' = sv_thread_pool s" "server_loops s' = server_loops s" "sv_loop s' = sv_loop s"
    using gd more_sv by blast+
  have w: "waiting i [] s' = waiting i [] s" using gd by (intro ext) (simp add: waiting_def)
  note aw = awaits_cong [OF w] and nref = not_referenced [OF ok unref(1)]
  have "functor_ok s' j h" if h: "h \<in> set (waiting i [] s j)" for j h
  proof (rule functor_ok_gone)
    show "functor_ok s j h" using s(1) h by (simp add: queues_inv_def)
    show "functor_conn h \<noteq> Some ptr" using nref h by (auto simp: awaits_def)
    show "raw_conn h \<noteq> Some ptr" using ok c unref(1) h by (rule unreferenced_raw)
  qed (use gd in simp_all)
  then have "queues_inv i [] s'" using s(1) gd unfolding queues_inv_def w sv by simp
  moreover have "map_inv s'" unfolding map_inv_def
  proof (intro conjI allI impI)
    fix cid p assume "sv_conns s' cid = Some p"
    then obtain e where e: "n_conns s p = Some e" "tc_id e = cid" "sv_conns s cid = Some p"
      using s(2) sv unfolding map_inv_def by metis
    moreover have "p \<noteq> ptr" using e c unref(1) by (auto simp: conn_referenced_def)
    ultimately show "\<exists>e. n_conns s' p = Some e \<and> tc_id e = cid" using gd by simp
  next
    fix p p' e e' assume "n_conns s' p = Some e" "n_conns s' p' = Some e'" "tc_id e = tc_id e'"
    with s(2) gd show "p = p'" unfolding map_inv_def by (metis fun_upd_apply option.distinct(1))
  qed
  moreover have "conn_life i [] rs s' p e" if "n_conns s' p = Some e" for p e
  proof -
    have p: "p \<noteq> ptr" "n_conns s p = Some e" using that gd by (auto split: if_splits)
    have "\<not> (tc_loop e = tc_loop c \<and> tc_ch e = tc_ch c)" using server_ok_place [OF ok p(2) c] p(1) by blast
    then have "el_chans (n_loops s' (tc_loop e)) (tc_ch e) = el_chans (n_loops s (tc_loop e)) (tc_ch e)" using gd by auto
    moreover have "conn_life i [] (f # rs) s p e" using ok p(2) by (simp add: server_ok_def)
    ultimately show ?thesis using f p(1) by (auto simp: conn_life_def aw sv w)
  qed
  moreover have "\<forall>h \<in> set rs. \<forall>p. functor_conn h = Some p \<longrightarrow> n_conns s' p \<noteq> None"
    using ok unref(2) gd by (auto simp: server_ok_def)
  ultimately show ?thesis using gone_chans_inv [OF ok g] gone_conns_inv [OF ok g] unfolding server_ok_def by blast
qed

lemma ok_release:
  "server_ok i [] rs {} s \<Longrightarrow> ensures (release_functors rs s) (server_ok i [] [] {})"
proof (induction rs arbitrary: s)
  case (Cons f rs)
  show ?case
  proof (cases "functor_conn f")
    case None
    then have "server_ok i [] rs {} s" by (intro server_ok_unheld [OF Cons.prems]) simp
    with Cons.IH None show ?thesis by simp
  next
    case (Some ptr)
    then obtain c where c: "n_conns s ptr = Some c" using Cons.prems by (auto simp: server_ok_def)
    show ?thesis
    proof (cases "conn_referenced s ptr c \<or> list_ex (\<lambda>g. functor_conn g = Some ptr) rs")
      case True
      have "\<exists>g. awaits i [] s g \<and> functor_conn g = Some ptr" if "tc_state c = DISCONNECTED" "conn_referenced s ptr c"
      proof -
        have "conn_life i [] (f # rs) s ptr c" using Cons.prems c by (simp add: server_ok_def)
        with that show ?thesis by (auto simp: conn_referenced_def conn_life_def list_ex_iff awaits_def waiting_def)
      qed
      with True Some c have "server_ok i [] rs {} s"
        by (intro server_ok_unheld [OF Cons.prems]) (auto simp: list_ex_iff)
      with Cons.IH True Some c show ?thesis by simp
    next
      case False
      then obtain s' where s': "tcp_conn_delete ptr s = Inr s'" "conn_gone ptr c s s'"
        using tcp_conn_delete_gone [OF Cons.prems c] by blast
      have "server_ok i [] rs {} s'"
        using False by (intro ok_delete [OF Cons.prems Some c _ _ s'(2)]) (auto simp: list_ex_iff)
      with Cons.IH False Some c s'(1) show ?thesis by simp
    qed
  qed
qed simp

section \<open>A turn of a loop\<close>

text \<open>The invariant between turns, when no batch is being run.\<close>

definition server_wf :: "tcp_server \<Rightarrow> bool" where
  "server_wf s = server_ok 0 [] [] {} s"

lemma server_wf_ok: "server_wf s = server_ok i [] [] {} s"
proof -
  have "waiting 0 [] s = waiting i [] s" by (intro ext) (simp add: waiting_def)
  then have w: "waiting 0 [] s = waiting i [] s" "awaits 0 [] s = awaits i [] s" by (auto simp: awaits_def fun_eq_iff)
  have "conn_life 0 [] [] s = conn_life i [] [] s" by (intro ext) (simp add: conn_life_def w)
  then show ?thesis by (simp only: server_wf_def server_ok_def queues_inv_def w)
qed

lemma ok_batch:
  assumes "env_ok k a" "server_ok i fs held {} s" "set fs \<subseteq> set held" "el_thread_id (n_loops s i) = cur"
  shows "ensures (fold_res (run_functor k a cur) s fs) (server_ok i [] held {})"
  using assms(2-)
proof (induction fs arbitrary: s)
  case (Cons f fs)
  have "ensures (run_functor k a cur s f) (\<lambda>s'. server_ok i fs held {} s' \<and>
     (\<forall>j. el_thread_id (n_loops s' j) = el_thread_id (n_loops s j)))"
    using Cons.prems by (intro ok_functor [OF assms(1)]) auto
  then show ?case using Cons.IH Cons.prems(2,3) by (auto intro: ensures_bindI)
qed simp

abbreviation put_loop :: "loop_ptr \<Rightarrow> loop_functor eloop \<Rightarrow> tcp_server \<Rightarrow> tcp_server" where
  "put_loop i l s \<equiv> s\<lparr>n_loops := (n_loops s)(i := l)\<rparr>"

lemma ok_poll:
  assumes "server_ok i fs held X s" "loop_wf l" "el_pending_functors l = el_pending_functors (n_loops s j)"
    and "el_thread_id l = el_thread_id (n_loops s j)"
    and "\<And>q. rel_option (\<lambda>ch ch'. \<exists>ev. ch' = ch\<lparr>ch_revents := ev\<rparr>) (el_chans (n_loops s j) q) (el_chans l q)"
  shows "server_ok i fs held X (put_loop j l s)" "steady s (put_loop j l s)"
proof -
  have kept: "ch' = ch\<lparr>ch_revents := ev\<rparr> \<Longrightarrow> chan_kept ch ch' \<and> chan_stays ch ch'" for ch ch' :: chan and ev
    by (simp add: chan_kept_def chan_stays_def same_chan_def is_writing_def is_reading_def)
  have rel: "rel_option chan_kept (el_chans (n_loops s j) q) (el_chans l q)"
    "rel_option chan_stays (el_chans (n_loops s j) q) (el_chans l q)" for q
    using assms(5) [of q] kept by (auto elim!: option.rel_mono_strong)
  show "server_ok i fs held X (put_loop j l s)" using assms(1,2) rel(1) assms(3) by (rule server_ok_loop)
  show "steady s (put_loop j l s)" using rel(2) assms(4) by (simp add: steady_def option.rel_refl server_loops_def)
qed

lemma ok_swap:
  assumes "server_ok i [] [] {} s"
  defines "fs \<equiv> el_pending_functors (n_loops s i)"
  shows "server_ok i fs fs {} (put_loop i ((n_loops s i)\<lparr>el_pending_functors := [], el_calling_pending_functors := b\<rparr>) s)"
    (is "server_ok i fs fs {} ?s")
proof -
  have w: "waiting i fs ?s = waiting i [] s" by (intro ext) (simp add: waiting_def fs_def)
  note aw = awaits_cong [where s = s]
  have aw: "awaits i fs ?s = awaits i [] s" by (intro ext) (simp add: awaits_def w)
  have eqs: "functor_ok ?s = functor_ok s" "plain_at ?s = plain_at s" "server_loops ?s = server_loops s"
    by (rule functor_ok_cong plain_at_cong, simp_all add: server_loops_def)+
  have chans: "el_chans (n_loops ?s j) = el_chans (n_loops s j)" for j by simp
  have wf: "loop_wf (n_loops ?s j) = loop_wf (n_loops s j)" for j by (simp add: loop_wf_def)
  have s: "queues_inv i [] s" "chans_inv s" "conns_inv s" "map_inv s" using assms(1) by (simp_all add: server_ok_def)
  have "chans_inv ?s" "conns_inv ?s" "map_inv ?s"
    using s(2-4) unfolding chans_inv_def conns_inv_def map_inv_def chans wf eqs by simp_all
  moreover have "queues_inv i fs ?s" using s(1) unfolding queues_inv_def w eqs by simp
  moreover have "conn_life i fs fs ?s ptr c" if "conn_life i [] [] s ptr c" for ptr c
    using that unfolding conn_life_def aw chans w by simp
  moreover have "n_conns s ptr \<noteq> None" if f: "f \<in> set fs" "functor_conn f = Some ptr" for f ptr
  proof -
    have "functor_ok s i f" using s(1) f(1) by (simp add: queues_inv_def waiting_def fs_def)
    with f(2) show ?thesis by (cases f) (auto simp: functor_ok_def)
  qed
  ultimately show ?thesis using assms(1) by (simp add: server_ok_def)
qed

lemma ok_pending:
  assumes "env_ok k a" "server_ok i [] [] {} s" "el_thread_id (n_loops s i) = cur"
  shows "ensures (do_pending_functors (\<lambda>s. n_loops s i) (put_loop i) (run_functor k a cur) release_functors s) server_wf"
proof -
  let ?fs = "el_pending_functors (n_loops s i)"
  let ?l = "(n_loops s i)\<lparr>el_pending_functors := [], el_calling_pending_functors := True\<rparr>"
  let ?s = "put_loop i ?l s"
  have "server_ok i ?fs ?fs {} ?s" using ok_swap [OF assms(2)] .
  then have batch: "ensures (fold_res (run_functor k a cur) ?s ?fs) (server_ok i [] ?fs {})"
    using assms(3) by (intro ok_batch [OF assms(1)]) simp_all
  have "ensures (release_functors ?fs (put_loop i (eloop_end_calling (n_loops s1 i)) s1)) server_wf"
    if s1: "server_ok i [] ?fs {} s1" for s1
  proof -
    have "server_ok i [] ?fs {} (put_loop i (eloop_end_calling (n_loops s1 i)) s1)"
      using s1 server_ok_wf [OF s1] by (intro server_ok_loop) (simp_all add: eloop_end_calling_def option.rel_refl loop_wf_def)
    from ok_release [OF this] show ?thesis by (rule ensures_mono) (simp add: server_wf_ok [of _ i])
  qed
  with batch have "ensures (bind_res (fold_res (run_functor k a cur) ?s ?fs)
      (\<lambda>s1. release_functors ?fs (put_loop i (eloop_end_calling (n_loops s1 i)) s1))) server_wf" by (rule ensures_bindI)
  moreover have "eloop_swap_pending (eloop_begin_calling (n_loops s i)) = (?fs, ?l)"
    by (simp add: eloop_swap_pending_def eloop_begin_calling_def)
  ultimately show ?thesis by (simp add: do_pending_functors_def)
qed

lemma ok_turn:
  assumes "env_ok k a" "server_wf s" "poll_possible outcome (n_loops s i)" "accept_fresh k s"
  shows "ensures (server_turn k a i outcome s) server_wf"
proof -
  let ?cur = "el_thread_id (n_loops s i)"
  have s: "server_ok i [] [] {} s" using assms(2) by (simp add: server_wf_ok [of _ i])
  obtain l where l: "eloop_poll outcome (n_loops s i) = Inr l" "loop_wf l"
    "\<forall>q. rel_option (\<lambda>ch ch'. \<exists>ev. ch' = ch\<lparr>ch_revents := ev\<rparr>) (el_chans (n_loops s i) q) (el_chans l q)"
    "el_pending_functors l = el_pending_functors (n_loops s i)" "el_thread_id l = ?cur"
    "\<forall>q \<in> set (el_active_chs l). \<exists>ch. el_chans l q = Some ch \<and> ch_index ch = ADDED" "distinct (el_active_chs l)"
    by (rule eloop_poll_wf [OF server_ok_wf [OF s] assms(3)])
  let ?s1 = "put_loop i l s"
  have s1: "server_ok i [] [] {} ?s1" "steady s ?s1" using l(3) by (auto intro: ok_poll [OF s l(2,4,5)])
  have "ensures (fold_res (server_dispatch k a i ?cur) ?s1 (el_active_chs l))
      (\<lambda>s'. server_ok i [] [] {} s' \<and> grows ?s1 s')"
    using l(5-7) accept_fresh_steady [OF assms(4) s1(2)] by (intro ok_dispatch_all [OF assms(1) s1(1)]) simp_all
  moreover have "ensures (do_pending_functors (\<lambda>s. n_loops s i) (put_loop i) (run_functor k a ?cur) release_functors s2) server_wf"
    if "server_ok i [] [] {} s2 \<and> grows ?s1 s2" for s2
    using that l(5) by (intro ok_pending [OF assms(1)]) (simp_all add: grows_def)
  ultimately show ?thesis
    using l(1) by (simp add: server_turn_def loop_turn_def Let_def ensures_bindI)
qed

end
