(* ===== verification/ServerReach.thy ===== *)
theory ServerReach
  imports ServerTurn
begin

text \<open>
  The states a server can get into: it is constructed over loops that were just created, configured
  and started, and then its loops take turns in any order, each with any outcome of \<^verbatim>\<open>epoll_wait\<close> that
  the kernel may report.  The invariant of \<^verbatim>\<open>ServerLife\<close> holds in all of them.
\<close>

section \<open>Reachable states\<close>

text \<open>
  The system before the server is constructed: the loops exist, with their wake-up channels at most,
  no connection and no functor.  Addresses from \<open>next_ptr\<close> on are free, and \<open>sockfd\<close> is a new descriptor.
\<close>

definition fresh_loop :: "nat \<Rightarrow> fd \<Rightarrow> loop_functor eloop \<Rightarrow> bool" where
  "fresh_loop next_ptr sockfd l \<longleftrightarrow> loop_wf l \<and> el_pending_functors l = [] \<and>
     (\<forall>q ch. el_chans l q = Some ch \<longrightarrow> q < next_ptr \<and> ch_fd ch \<noteq> sockfd \<and>
        ch_read_callback ch = Some Eloop_handle_read \<and> plain_chan ch)"

definition fresh_net :: "nat \<Rightarrow> fd \<Rightarrow> net \<Rightarrow> bool" where
  "fresh_net next_ptr sockfd w \<longleftrightarrow> n_conns w = Map.empty \<and> (\<forall>i. fresh_loop next_ptr sockfd (n_loops w i))"

text \<open>
  The strings of the application come and go, except those that a \<^verbatim>\<open>send\<close> of another thread left in a queue:
  the functor holds a \<^verbatim>\<open>std::string_view\<close> only, so this is what the caller has to promise.
\<close>

definition strings_in_use_kept :: "tcp_server \<Rightarrow> (nat \<rightharpoonup> string) \<Rightarrow> bool" where
  "strings_in_use_kept s strs \<longleftrightarrow> (\<forall>i ptr addr len.
     F_send_in_loop ptr addr len \<in> set (el_pending_functors (n_loops s i)) \<longrightarrow> strs addr = n_strings s addr)"

text \<open>
  Beside the turns of the loops, any thread \<open>cur\<close> may call \<^verbatim>\<open>send\<close> and \<^verbatim>\<open>shutdown\<close> on a connection it knows.
\<close>

inductive server_reach :: "os \<Rightarrow> app \<Rightarrow> tcp_server \<Rightarrow> bool" for k a where
  construct: "fresh_net next_ptr sockfd w \<Longrightarrow>
     tcp_server_new k loop addr name reuse sockfd next_ptr w = Inr s \<Longrightarrow> server_reach k a s"
| set_thread_num: "server_reach k a s \<Longrightarrow> server_reach k a (tcp_server_set_thread_num s num)"
| set_thread_init_callback: "server_reach k a s \<Longrightarrow> server_reach k a (tcp_server_set_thread_init_callback s cb)"
| set_conn_callback: "server_reach k a s \<Longrightarrow> server_reach k a (tcp_server_set_conn_callback s cb)"
| set_msg_callback: "server_reach k a s \<Longrightarrow> server_reach k a (tcp_server_set_msg_callback s cb)"
| set_write_complete_callback: "server_reach k a s \<Longrightarrow> server_reach k a (tcp_server_set_write_complete_callback s cb)"
| start: "server_reach k a s \<Longrightarrow> tcp_server_start k cur new_loop s = Inr s' \<Longrightarrow> server_reach k a s'"
| turn: "server_reach k a s \<Longrightarrow> poll_possible outcome (n_loops s i) \<Longrightarrow> accept_fresh k s \<Longrightarrow>
     server_turn k a i outcome s = Inr s' \<Longrightarrow> server_reach k a s'"
| remote_send: "server_reach k a s \<Longrightarrow> n_strings s addr = Some data \<Longrightarrow> length data \<le> vector_max_size \<Longrightarrow>
     tcp_conn_send k cur ptr addr data s = Inr s' \<Longrightarrow> server_reach k a s'"
| remote_shutdown: "server_reach k a s \<Longrightarrow> tcp_conn_shutdown k cur ptr s = Inr s' \<Longrightarrow> server_reach k a s'"
| strings: "server_reach k a s \<Longrightarrow> strings_in_use_kept s strs \<Longrightarrow> server_reach k a (s\<lparr>n_strings := strs\<rparr>)"

section \<open>Construction and start\<close>

text \<open>A loop that \<^verbatim>\<open>eloop::eloop\<close> has just constructed is of this kind.\<close>

lemma eloop_new_fresh:
  assumes "epoll_documented K" "eloop_new K cur has_loop use_poll epollfd evtfd this wptr = Inr l"
    and "wptr < next_ptr" "evtfd \<noteq> sockfd"
  shows "fresh_loop next_ptr sockfd l"
proof -
  let ?ch = "(chan_new evtfd)\<lparr>ch_read_callback := Some Eloop_handle_read\<rparr>"
  obtain l0 :: "loop_functor eloop" and p where l0: "chan_set_mask K Enable_Reading wptr l0 = Inr l"
    "el_pending_functors l0 = []" "el_chans l0 = [wptr \<mapsto> ?ch]" "el_poller l0 = p" "\<forall>p'. p = Some p' \<longrightarrow> ep_calls p' = []"
  proof -
    obtain p where p: "new_default_poller use_poll epollfd = Inr p" "\<forall>p'. p = Some p' \<longrightarrow> ep_calls p' = []"
      using assms(2) by (auto simp: eloop_new_def new_default_poller_def epoll_poller_new_def split: if_splits)
    with assms(2) show thesis
      by (auto simp: eloop_new_def create_eventfd_def Let_def split: if_splits intro: that)
  qed
  then obtain p' where p': "p = Some p'" "ep_calls p' = []"
    by (cases p) (auto simp: chan_set_mask_def eloop_update_chan_def eloop_poller_call_def)
  have "chans_wf p' (Map.empty(wptr \<mapsto> ?ch))"
    by (rule chans_wf_add) (simp_all add: p' chans_wf_def interest_def chan_new_def NEW_def)
  with l0(3,4) p'(1) have "loop_wf l0" by (simp add: loop_wf_def)
  from chan_set_mask_wf [OF assms(1) this, of wptr ?ch Enable_Reading] l0 obtain p2 where
    "l = l0\<lparr>el_poller := Some p2, el_chans := (el_chans l0)(wptr \<mapsto> chan_set_index (chan_mask Enable_Reading ?ch) ADDED)\<rparr>"
    "loop_wf l" by auto
  with l0(2,3) assms(3,4) show ?thesis
    by (simp add: fresh_loop_def plain_chan_def chan_set_index_def chan_mask_def chan_new_def)
qed

lemma tcp_server_new_wf:
  assumes "fresh_net next_ptr sockfd w" "tcp_server_new k loop addr name reuse sockfd next_ptr w = Inr s"
  shows "server_wf s"
proof -
  obtain i where i: "loop = Some i" "0 \<le> sockfd" "k_bind k sockfd = 0"
    using assms(2) by (auto simp: tcp_server_new_def check_main_loop_not_null_def acceptor_new_def create_nonblocking_def
        socket_bind_address_def bind_res_eq_Inr Let_def split: option.splits if_splits)
  let ?ch = "(chan_new sockfd)\<lparr>ch_read_callback := Some Acceptor_handle_read\<rparr>"
  note s = assms(2) [unfolded tcp_server_new_def i(1) check_main_loop_not_null_def acceptor_new_ok [OF i(2,3)]]
  have sv: "n_conns s = Map.empty" "sv_conns s = Map.empty" "sv_loop s = i" "sv_next_ptr s = next_ptr + 1"
    "sv_thread_pool s = eloop_tpool_new i name" "ac_loop (sv_acceptor s) = i" "ac_ch (sv_acceptor s) = next_ptr"
    "n_loops s = (n_loops w)(i := (n_loops w i)\<lparr>el_chans := (el_chans (n_loops w i))(next_ptr \<mapsto> ?ch)\<rparr>)"
    using s assms(1) by (auto simp: net.extend_def fresh_net_def)
  have fresh: "fresh_loop next_ptr sockfd (n_loops w j)" for j using assms(1) by (simp add: fresh_net_def)
  have "loop_wf (n_loops s j)" for j
  proof (cases "j = i")
    case True
    obtain p where p: "el_poller (n_loops w i) = Some p" "chans_wf p (el_chans (n_loops w i))"
      using fresh [of i] by (auto simp: fresh_loop_def loop_wf_def)
    have "el_chans (n_loops w i) next_ptr = None"
      using fresh [of i] by (cases "el_chans (n_loops w i) next_ptr") (auto simp: fresh_loop_def)
    then have "chans_wf p ((el_chans (n_loops w i))(next_ptr \<mapsto> ?ch))"
      using fresh [of i] by (intro chans_wf_add [OF p(2)]) (auto simp: fresh_loop_def chan_new_def NEW_def)
    with True p(1) show ?thesis by (simp add: sv loop_wf_def)
  qed (use fresh [of j] in \<open>simp add: sv fresh_loop_def\<close>)
  moreover have "q < next_ptr + 1 \<and> plain_at s j q ch" if "el_chans (n_loops s j) q = Some ch" for j q ch
    using fresh [of j] that unfolding sv(8) fresh_loop_def
    by (auto simp: plain_at_def listener_def sv less_Suc_eq plain_chan_def chan_new_def split: if_splits)
  moreover have "plain_chan ?ch" by (simp add: plain_chan_def chan_new_def)
  ultimately have "chans_inv s" by (auto simp: chans_inv_def sv)
  moreover have pend: "el_pending_functors (n_loops s j) = []" for j
    using fresh [of j] fresh [of i] by (simp add: sv(8) fresh_loop_def)
  have "waiting 0 [] s j = []" for j using pend by (simp add: waiting_def)
  ultimately show ?thesis
    using pend by (simp add: server_wf_def server_ok_def conns_inv_def map_inv_def queues_inv_def sv(1-7)
        pool_valid_def eloop_tpool_new_def)
qed

lemma server_ok_pool:
  assumes "server_ok i fs held X s" "pool_valid p" "lp_base_loop p = sv_loop s"
    and "set (lp_loops (sv_thread_pool s)) \<subseteq> set (lp_loops p)"
  shows "server_ok i fs held X (s\<lparr>sv_thread_pool := p\<rparr>)"
proof -
  let ?s = "s\<lparr>sv_thread_pool := p\<rparr>"
  have loops: "set (server_loops s) \<subseteq> set (server_loops ?s)" using assms(4) by (auto simp: server_loops_def)
  have w: "waiting i fs ?s = waiting i fs s" by (rule waiting_cong) simp
  have eqs: "functor_ok ?s = functor_ok s" "plain_at ?s = plain_at s" "waiting i fs ?s = waiting i fs s"
    "awaits i fs ?s = awaits i fs s"
    by (rule functor_ok_cong plain_at_cong w awaits_cong [OF w], simp?, simp?)+
  have "conn_life i fs held ?s = conn_life i fs held s" by (intro ext) (simp add: conn_life_def eqs)
  then show ?thesis
    using assms loops unfolding server_ok_def chans_inv_def conns_inv_def map_inv_def queues_inv_def eqs by auto
qed

lemma ok_start:
  assumes "env_ok k a" "server_wf s"
  shows "ensures (tcp_server_start k cur new_loop s) server_wf"
proof (cases "sv_started s = 0")
  case True
  let ?s1 = "s\<lparr>sv_started := sv_started s + 1\<rparr>"
  obtain p where p: "eloop_tpool_start (sv_thread_init_callback s) new_loop (sv_thread_pool s) = Inr p"
    "lp_base_loop p = lp_base_loop (sv_thread_pool s)" "lp_next_idx p = lp_next_idx (sv_thread_pool s)"
    "lp_loops p = lp_loops (sv_thread_pool s) @ map new_loop [0..<nat (lp_num_threads (sv_thread_pool s))]"
    by (rule eloop_tpool_start_adds)
  have s1: "server_ok 0 [] [] {} ?s1" using assms(2) unfolding server_wf_def by (subst server_ok_cong [of _ s]) simp_all
  then have "pool_valid (sv_thread_pool s)" "lp_base_loop (sv_thread_pool s) = sv_loop s"
    by (simp_all add: server_ok_def queues_inv_def)
  with p have s2: "server_ok 0 [] [] {} (?s1\<lparr>sv_thread_pool := p\<rparr>)" (is "server_ok _ _ _ _ ?s2")
    by (intro server_ok_pool [OF s1]) (auto simp: pool_valid_def)
  have "ensures (server_listen k ?s2) server_wf"
    using ok_listen [OF assms(1) s2] by (rule ensures_mono) (simp add: server_wf_def)
  moreover have "server_wf (net_queue k cur (sv_loop ?s2) F_acceptor_listen ?s2)"
    unfolding server_wf_def by (rule server_ok_queue [OF s2]) (simp_all add: functor_ok_def server_loops_def)
  ultimately show ?thesis using True p(1) by (simp add: tcp_server_start_def Let_def)
next
  case False
  with assms(2) show ?thesis
    unfolding server_wf_def by (simp add: tcp_server_start_def Let_def, subst server_ok_cong [of _ s]) simp_all
qed

text \<open>\<^verbatim>\<open>send\<close> and \<^verbatim>\<open>shutdown\<close> from any thread: at home they act at once, elsewhere they queue a functor.\<close>

lemma ok_remote_send:
  assumes "env_ok k a" "server_wf s" "n_conns s ptr = Some c" "n_strings s addr = Some data" "length data \<le> vector_max_size"
  shows "ensures (tcp_conn_send k cur ptr addr data s) server_wf"
proof -
  have ok: "server_ok 0 [] [] {} s" using assms(2) by (simp add: server_wf_def)
  obtain ch where ch: "conn_at s ptr c ch" "tc_loop c \<in> set (server_loops s)" using ok assms(3) by (rule server_ok_conn)
  show ?thesis
  proof (cases "eloop_is_in_loop_thread cur (n_loops s (tc_loop c))")
    case True
    then have home: "at_home cur ptr s"
      using server_ok_home [OF ok assms(3)] by (simp add: eloop_is_in_loop_thread_def)
    have "ensures (tcp_conn_send k cur ptr addr data s) (\<lambda>s'. conn_ok (tc_loop c, tc_ch c) s' ptr)"
      using assms(5) by (intro conn_ok_send [OF env_okD(1) [OF assms(1)] _ server_ok_conn_ok [OF ok assms(3)]])
    with ok have "ensures (tcp_conn_send k cur ptr addr data s) (\<lambda>s'. server_ok 0 [] [] {} s' \<and> steady s s')"
      by (rule ok_moves) (rule moves_send [OF env_okD(2) [OF assms(1)] home])
    then show ?thesis by (rule ensures_mono) (simp add: server_wf_def)
  next
    case False
    have "server_wf (net_queue k cur (tc_loop c) (F_send_in_loop ptr addr (length data)) s)" if "tc_state c = CONNECTED"
      unfolding server_wf_def
      by (rule server_ok_queue [OF ok _ ch(2)]) (use that assms(3-5) in \<open>simp_all add: functor_ok_def\<close>)
    with False assms(2) ch(1) show ?thesis by (simp add: tcp_conn_send_def)
  qed
qed

lemma ok_disconnenting:
  assumes "server_ok i fs held X s" "n_conns s ptr = Some c" "tc_state c = CONNECTED"
  shows "server_ok i fs held X (put_conn ptr (c\<lparr>tc_state := DISCONNENTING\<rparr>) s)"
proof -
  let ?c = "c\<lparr>tc_state := DISCONNENTING\<rparr>"
  obtain ch where ch: "el_chans (n_loops s (tc_loop c)) (tc_ch c) = Some ch" "conn_inv c (is_writing ch)" "chan_fits c ch"
    using assms(1,2) by (rule server_ok_conn)
  have "conn_change ptr c ch ?c ch s (put_conn ptr ?c s)"
    using ch(1) server_ok_wf [OF assms(1)]
    by (intro change_loop [OF assms(1,2) ch(1), where l' = "n_loops s (tc_loop c)"])
      (simp_all add: put_conn_def fun_upd_idem same_conn_def)
  with assms(1) show ?thesis
    by (rule server_ok_change) (use ch(2,3) assms(3) in \<open>simp_all add: conn_inv_def chan_fits_def live_state_def\<close>)
qed

lemma ok_remote_shutdown:
  assumes "server_wf s" "n_conns s ptr = Some c"
  shows "\<exists>s'. tcp_conn_shutdown k cur ptr s = Inr s' \<and> server_wf s'"
proof -
  have ok: "server_ok 0 [] [] {} s" using assms(1) by (simp add: server_wf_def)
  obtain ch where ch: "conn_at s ptr c ch" "tc_loop c \<in> set (server_loops s)" using ok assms(2) by (rule server_ok_conn)
  let ?s = "put_conn ptr (c\<lparr>tc_state := DISCONNENTING\<rparr>) s"
  have loops: "server_loops ?s = server_loops s" by (simp add: put_conn_def server_loops_def)
  show ?thesis
  proof (cases "tc_state c = CONNECTED")
    case True
    have s: "server_ok 0 [] [] {} ?s" using ok assms(2) True by (rule ok_disconnenting)
    have c: "n_conns ?s ptr = Some (c\<lparr>tc_state := DISCONNENTING\<rparr>)" by (simp add: put_conn_def)
    have "server_wf (net_queue k cur (tc_loop c) (F_shutdown_in_loop ptr) ?s)"
      unfolding server_wf_def by (rule server_ok_queue [OF s]) (use c ch(2) loops in \<open>simp_all add: functor_ok_def\<close>)
    moreover have "server_wf (?s\<lparr>n_socks := t\<rparr>)" for t
      using s unfolding server_wf_def by (subst server_ok_cong [of _ ?s]) simp_all
    moreover obtain ch' where "conn_at ?s ptr (c\<lparr>tc_state := DISCONNENTING\<rparr>) ch'" using s c by (rule server_ok_conn)
    moreover have "server_wf ?s" using s by (simp add: server_wf_def)
    ultimately show ?thesis using True ch(1) by (simp add: tcp_conn_shutdown_def shutdown_in_loop_def Let_def)
  qed (use assms(1) ch(1) in \<open>simp add: tcp_conn_shutdown_def\<close>)
qed

lemma server_wf_strings:
  assumes "server_wf s" "strings_in_use_kept s strs"
  shows "server_wf (s\<lparr>n_strings := strs\<rparr>)"
proof -
  let ?s = "s\<lparr>n_strings := strs\<rparr>"
  have eqs: "waiting 0 [] ?s = waiting 0 [] s" "awaits 0 [] ?s = awaits 0 [] s" "plain_at ?s = plain_at s"
    "server_loops ?s = server_loops s"
    by (rule waiting_cong awaits_cong [OF waiting_cong] plain_at_cong, simp, simp?)+ (simp add: server_loops_def)
  have "functor_ok ?s j f" if "f \<in> set (waiting 0 [] s j)" "functor_ok s j f" for j f
  proof (cases f)
    case (F_send_in_loop ptr addr len)
    then have "strs addr = n_strings s addr"
      using assms(2) that(1) unfolding strings_in_use_kept_def waiting_def by simp blast
    with F_send_in_loop that(2) show ?thesis by (simp add: functor_ok_def)
  qed (use that(2) in \<open>simp_all add: functor_ok_def\<close>)
  moreover have "conn_life 0 [] [] ?s = conn_life 0 [] [] s" by (intro ext) (simp add: conn_life_def eqs)
  ultimately show ?thesis
    using assms(1) unfolding server_wf_def server_ok_def chans_inv_def conns_inv_def map_inv_def queues_inv_def eqs by auto
qed

lemma server_wf_set:
  assumes "server_wf s"
  shows "server_wf (tcp_server_set_thread_num s num)" "server_wf (tcp_server_set_thread_init_callback s cb)"
    "server_wf (tcp_server_set_conn_callback s cb)" "server_wf (tcp_server_set_msg_callback s cb)"
    "server_wf (tcp_server_set_write_complete_callback s cb)"
proof -
  let ?p = "eloop_tpool_set_thread_num (sv_thread_pool s) num"
  have s: "server_ok 0 [] [] {} s" using assms by (simp add: server_wf_def)
  then have "pool_valid ?p" "lp_base_loop ?p = sv_loop s"
    by (simp_all add: server_ok_def queues_inv_def eloop_tpool_set_thread_num_def pool_valid_def)
  then show "server_wf (tcp_server_set_thread_num s num)"
    unfolding server_wf_def tcp_server_set_thread_num_def
    by (intro server_ok_pool [OF s]) (simp_all add: eloop_tpool_set_thread_num_def)
qed (use assms in \<open>unfold server_wf_def tcp_server_set_thread_init_callback_def tcp_server_set_conn_callback_def
    tcp_server_set_msg_callback_def tcp_server_set_write_complete_callback_def;
    subst server_ok_cong [of _ s]; simp\<close>)+

lemma server_reach_wf:
  assumes "env_ok k a" "server_reach k a s"
  shows "server_wf s"
  using assms(2)
proof induction
  case (construct next_ptr sockfd w loop addr name reuse s)
  then show ?case by (rule tcp_server_new_wf)
next
  case (start s cur new_loop s')
  from ok_start [OF assms(1) start.IH, of cur new_loop] start.hyps(2) show ?case by simp
next
  case (turn s outcome i s')
  from ok_turn [OF assms(1) turn.IH turn.hyps(2,3)] turn.hyps(4) show ?case by simp
next
  case (remote_send s addr data cur ptr s')
  then obtain c where "n_conns s ptr = Some c"
    by (cases "n_conns s ptr") (simp_all add: tcp_conn_send_def with_conn_def)
  from ok_remote_send [OF assms(1) remote_send.IH this remote_send.hyps(2,3), of cur] remote_send.hyps(4)
  show ?case by simp
next
  case (remote_shutdown s cur ptr s')
  then obtain c where "n_conns s ptr = Some c"
    by (cases "n_conns s ptr") (simp_all add: tcp_conn_shutdown_def with_conn_def)
  from ok_remote_shutdown [OF remote_shutdown.IH this, of k cur] remote_shutdown.hyps(2) show ?case by auto
qed (simp_all add: server_wf_set server_wf_strings)

section \<open>A run\<close>

text \<open>A kernel that hands out one connection, and a server that listens in the only loop.\<close>

definition os_accepting :: os where
  "os_accepting = os_example\<lparr>k_accept := (\<lambda>n. if n = 0 then Inr (6, sockaddr_zero) else Inl 11)\<rparr>"

text \<open>A listening server with its acceptor's channel at address 99, in one loop.\<close>

definition listening_loop :: "loop_functor eloop" where
  "listening_loop = loop_example\<lparr>
     el_poller := Some \<lparr>ep_chs = [5 \<mapsto> 99], ep_nevents = 16,
       ep_calls = [\<lparr>ctl_operation = EPOLL_CTL_ADD, ctl_fd = 5, ctl_events = READ_EVENT, ctl_ptr = 99\<rparr>], ep_log = []\<rparr>,
     el_chans := [99 \<mapsto> (chan_new 5)\<lparr>ch_read_callback := Some Acceptor_handle_read, ch_events := READ_EVENT,
                                    ch_index := ADDED\<rparr>]\<rparr>"

definition listening_server :: tcp_server where
  "listening_server = net.extend
     (net_example\<lparr>n_loops := (\<lambda>_. loop_example)(0 := listening_loop),
        n_socks := \<lparr>st_calls = [Setsockopt 5 SOL_SOCKET SO_REUSEADDR 1, Setsockopt 5 SOL_SOCKET SO_REUSEPORT 1,
           Bind 5 sockaddr_zero, Listen 5 1024], st_log = []\<rparr>\<rparr>)
     \<lparr>sv_loop = 0, sv_ip_port = address_to_ip_port (k_ntop os_accepting) sockaddr_zero, sv_name = ''srv'',
      sv_acceptor = \<lparr>ac_loop = 0, ac_sockfd = 5, ac_ch = 99, ac_new_conn_callback = True, ac_listening = True\<rparr>,
      sv_thread_pool = (eloop_tpool_new 0 ''srv'')\<lparr>lp_started := True\<rparr>, sv_conn_callback = False, sv_msg_callback = False,
      sv_write_complete_callback = False, sv_thread_init_callback = False, sv_started = 1, sv_next_conn_id = 1,
      sv_conns = Map.empty, sv_next_ptr = 100, sv_accepts = 0\<rparr>"

lemmas listening_defs = os_accepting_def os_example_def eloop_tpool_new_def net_example_def loop_example_def net.extend_def
  poller_example_def chan_new_def listening_server_def listening_loop_def

lemmas chan_update_defs = on_loop_def chan_set_mask_def eloop_update_chan_def eloop_poller_call_def epoll_update_chan_def
  epoll_update_def chan_mask_def chan_set_index_def NEW_def ADDED_def DELETED_def ctl_manual_def ctl_valid_def interest_def

lemmas turn_run_defs = server_turn_def loop_turn_def eloop_poll_def epoll_poll_def dispatch_chan_def chan_set_revents_def
  handle_event_def handle_event_with_guard_def event_defs run_chan_callback_def acceptor_handle_read_def
  socket_accept_def new_conn_def get_next_loop_def local_address_def tcp_conn_new_def check_loop_not_null_def
  register_conn_def set_conn_callbacks_def put_conn_def establish_conn_def eloop_is_in_loop_thread_def net_log_def
  conn_mask_def chan_tie_def with_conn_def run_conn_callback_def run_callback_def do_pending_functors_def
  eloop_begin_calling_def eloop_swap_pending_def eloop_end_calling_def Let_def

lemma listening_start:
  obtains s where "tcp_server_new os_accepting (Some 0) sockaddr_zero ''srv'' True 5 99 net_example = Inr s"
    "tcp_server_start os_accepting 7 (\<lambda>_. 0) s = Inr listening_server"
  by (simp add: listening_defs chan_update_defs tcp_server_new_def check_main_loop_not_null_def acceptor_new_ok
      tcp_server_start_def eloop_tpool_start_def eloop_is_in_loop_thread_def server_listen_def acceptor_listen_def
      socket_listen_def socket_set_reuse_port_def socket_set_reuse_addr_def sys_call_def Let_def)

text \<open>The first connection is accepted and established in one turn.\<close>

lemma accepting_turn:
  "\<exists>s c. server_turn os_accepting quiet_app 0 (Inr [(READ_EVENT, 99)]) listening_server = Inr s \<and>
     n_conns s 100 = Some c \<and> tc_state c = CONNECTED \<and> (\<forall>i. el_pending_functors (n_loops s i) = []) \<and>
     sv_conns s = [1 \<mapsto> 100] \<and> lp_loops (sv_thread_pool s) = [] \<and> el_thread_id (n_loops s (sv_loop s)) = 7 \<and>
     ac_sockfd (sv_acceptor s) = 5"
proof -
  have "CHEAP_PREPEND + INITIAL_SIZE \<le> vector_max_size"
    by (simp add: CHEAP_PREPEND_def INITIAL_SIZE_def vector_max_size_def)
  then obtain b where b: "buffer_new INITIAL_SIZE = Inr b" by (rule buffer_new_ok)
  show ?thesis
    by (simp add: b listening_defs chan_update_defs turn_run_defs)
qed

lemma net_example_fresh: "fresh_net 99 5 net_example"
proof -
  have "chans_wf poller_example Map.empty" by (simp add: chans_wf_def poller_example_def interest_def)
  then show ?thesis by (simp add: fresh_net_def fresh_loop_def net_example_def loop_example_def loop_wf_def)
qed

lemma listening_reach [simp]: "server_reach os_accepting quiet_app listening_server"
proof -
  obtain s where s: "tcp_server_new os_accepting (Some 0) sockaddr_zero ''srv'' True 5 99 net_example = Inr s"
    "tcp_server_start os_accepting 7 (\<lambda>_. 0) s = Inr listening_server" by (rule listening_start)
  from server_reach.start [OF server_reach.construct [OF net_example_fresh s(1)] s(2)] show ?thesis .
qed

lemma os_accepting_env [simp]: "env_ok os_accepting quiet_app"
  by (simp add: env_ok_def os_accepting_def io_documented_def os_example_def)

lemma listening_poll [simp]: "poll_possible (Inr [(READ_EVENT, 99)]) (n_loops listening_server 0)"
  by (auto simp: poll_possible_def listening_defs interest_def intro!: exI [of _ 5])

lemma listening_accept [simp]: "accept_fresh os_accepting listening_server"
  by (simp add: accept_fresh_def fresh_for_def listening_defs)

lemma accepted_reach:
  obtains s c where "server_reach os_accepting quiet_app s" "n_conns s 100 = Some c" "tc_state c = CONNECTED"
    "\<forall>i. el_pending_functors (n_loops s i) = []" "sv_conns s = [1 \<mapsto> 100]" "lp_loops (sv_thread_pool s) = []"
    "el_thread_id (n_loops s (sv_loop s)) = 7" "ac_sockfd (sv_acceptor s) = 5"
  using accepting_turn server_reach.turn [OF listening_reach listening_poll listening_accept] by blast


section \<open>Properties\<close>





text \<open>
  C3.  Every connection of a running server, in every state the server can get into: the bytes
  the kernel took followed by the bytes still buffered are exactly what was accepted from the
  application, in order, and the input buffer holds the latest bytes the kernel delivered.  While it is open the kernel watches its descriptor, with exactly the
  events of its channel: for reading always, and for writing just while something is buffered.
  Before it is established the kernel does not watch it, and once it is closed it never waits to write.
\<close>

theorem server_conns_intact:
  assumes "env_ok k a" and "server_reach k a s" and "n_conns s ptr = Some c"
  shows "\<exists>ch p. el_chans (n_loops s (tc_loop c)) (tc_ch c) = Some ch \<and> el_poller (n_loops s (tc_loop c)) = Some p \<and>
     tc_wire c @ contents (tc_output_buf c) = tc_accepted c \<and> suffix (contents (tc_input_buf c)) (tc_received c) \<and>
     (case tc_state c of
        CONNENTING \<Rightarrow> interest (ep_calls p) (tc_sockfd c) = None
      | DISCONNECTED \<Rightarrow> \<not> is_writing ch
      | _ \<Rightarrow> interest (ep_calls p) (tc_sockfd c) = Some (ch_events ch, tc_ch c) \<and> is_reading ch \<and>
             is_writing ch = (contents (tc_output_buf c) \<noteq> []))"
proof -
  have ok: "server_ok 0 [] [] {} s" using server_reach_wf [OF assms(1,2)] by (simp add: server_wf_def)
  then obtain ch where ch: "el_chans (n_loops s (tc_loop c)) (tc_ch c) = Some ch" "ch_fd ch = tc_sockfd c"
    "conn_inv c (is_writing ch)" "chan_fits c ch" using assms(3) by (rule server_ok_conn)
  obtain p where p: "el_poller (n_loops s (tc_loop c)) = Some p" "chans_wf p (el_chans (n_loops s (tc_loop c)))"
    using server_ok_wf [OF ok] by (auto simp: loop_wf_def)
  have "chan_synced p (tc_ch c) ch" using p(2) ch(1) by (rule chans_wf_synced)
  with ch p(1) show ?thesis
    by (auto simp: chan_synced_def chan_fits_def live_state_def conn_inv_def split: conn_state.splits)
qed

theorem server_conns_intact_witness:
  "\<exists>s c ch p. server_reach os_accepting quiet_app s \<and> n_conns s 100 = Some c \<and> tc_state c = CONNECTED \<and>
     el_poller (n_loops s (tc_loop c)) = Some p \<and>
     interest (ep_calls p) (tc_sockfd c) = Some (ch_events ch, tc_ch c) \<and> is_reading ch"
proof -
  obtain s c where s: "server_reach os_accepting quiet_app s" "n_conns s 100 = Some c" "tc_state c = CONNECTED"
    by (rule accepted_reach)
  from server_conns_intact [OF os_accepting_env s(1,2)] s show ?thesis by auto
qed



text \<open>
  C9.  No leak: when no functor waits in any loop of a running server, the connections that exist
  are exactly those in the map, each under its id, and none of them is closed.
\<close>

theorem server_quiescent_no_leak:
  assumes "env_ok k a" and "server_reach k a s" and "\<forall>i. el_pending_functors (n_loops s i) = []"
  shows "dom (n_conns s) = ran (sv_conns s) \<and>
     (\<forall>ptr c. n_conns s ptr = Some c \<longrightarrow> sv_conns s (tc_id c) = Some ptr \<and> tc_state c \<noteq> DISCONNECTED)"
proof -
  have ok: "server_ok 0 [] [] {} s" using server_reach_wf [OF assms(1,2)] by (simp add: server_wf_def)
  have none: "\<not> awaits 0 [] s f" for f using assms(3) by (simp add: awaits_def waiting_def)
  have c: "sv_conns s (tc_id c) = Some ptr \<and> tc_state c \<noteq> DISCONNECTED" if "n_conns s ptr = Some c" for ptr c
    using ok that none by (auto simp: server_ok_def conn_life_def)
  moreover have "\<exists>c. n_conns s ptr = Some c" if "sv_conns s cid = Some ptr" for cid ptr
    using ok that unfolding server_ok_def map_inv_def by blast
  ultimately show ?thesis by (fastforce simp: dom_def ran_def)
qed

theorem server_quiescent_no_leak_witness:
  "\<exists>s. server_reach os_accepting quiet_app s \<and> n_conns s 100 \<noteq> None \<and> dom (n_conns s) = ran (sv_conns s)"
proof -
  obtain s c where s: "server_reach os_accepting quiet_app s" "n_conns s 100 = Some c"
    "\<forall>i. el_pending_functors (n_loops s i) = []" by (rule accepted_reach)
  from server_quiescent_no_leak [OF os_accepting_env s(1,3)] s show ?thesis by auto
qed

end
