(* ===== verification/ConnEnd.thy ===== *)
theory ConnEnd
  imports ServerReach
begin

text \<open>
  The end of a connection, from the turn of its loop that reads the end of the peer's stream to the deletion of
  the \<^verbatim>\<open>tcp_conn\<close> and of its socket, through the main loop when that runs in another thread.
\<close>

section \<open>Turns\<close>

abbreviation server_pending :: "os \<Rightarrow> app \<Rightarrow> loop_ptr \<Rightarrow> tid \<Rightarrow> tcp_server \<Rightarrow> tcp_server result" where
  "server_pending k a i cur \<equiv>
     do_pending_functors (\<lambda>s. n_loops s i) (put_loop i) (run_functor k a cur) release_functors"

lemma thread_frame [simp]:
  "el_thread_id (n_loops (net_queue k cur i f s) j) = el_thread_id (n_loops s j)"
  "el_thread_id (eloop_end_calling l) = el_thread_id l"
  by (simp_all add: net_queue_def eloop_end_calling_def)

lemma chans_wf_calls: "ep_calls p' = ep_calls p \<Longrightarrow> chans_wf p' chans = chans_wf p chans"
  by (simp add: chans_wf_def chan_synced_def)

lemma poll_one:
  assumes "loop_wf l" "el_chans l q = Some ch"
  obtains l' where "eloop_poll (Inr [(ev, q)]) l = Inr l'" "el_active_chs l' = [q]"
    "el_chans l' = (el_chans l)(q \<mapsto> chan_set_revents ch ev)" "loop_wf l'"
    "el_pending_functors l' = el_pending_functors l" "el_thread_id l' = el_thread_id l"
proof -
  obtain p where p: "el_poller l = Some p" "chans_wf p (el_chans l)" using assms(1) by (auto simp: loop_wf_def)
  define p' where "p' = (if 1 = ep_nevents p then p\<lparr>ep_nevents := ep_nevents p * 2\<rparr> else p)"
  have "ep_calls p' = ep_calls p" by (simp add: p'_def)
  moreover have "chans_wf p ((el_chans l)(q \<mapsto> chan_set_revents ch ev))"
    using p(2) assms(2) by (rule chans_wf_same) (simp_all add: chan_set_revents_def)
  ultimately have wf: "chans_wf p' ((el_chans l)(q \<mapsto> chan_set_revents ch ev))" using chans_wf_calls by blast
  have "eloop_poll (Inr [(ev, q)]) l =
      Inr (l\<lparr>el_active_chs := [q], el_poller := Some p', el_chans := (el_chans l)(q \<mapsto> chan_set_revents ch ev)\<rparr>)"
    using p(1) assms(2) by (simp add: eloop_poll_def epoll_poll_def p'_def)
  then show thesis by (rule that) (use wf in \<open>simp_all add: loop_wf_def\<close>)
qed

text \<open>A turn in which \<^verbatim>\<open>epoll_wait\<close> reports nothing only runs the functors.\<close>

lemma idle_turn:
  assumes "loop_wf (n_loops s i)"
  shows "server_turn k a i (Inr []) s =
     server_pending k a i (el_thread_id (n_loops s i)) (put_loop i ((n_loops s i)\<lparr>el_active_chs := []\<rparr>) s)"
proof -
  obtain p where p: "el_poller (n_loops s i) = Some p" using assms by (auto simp: loop_wf_def)
  then have "eloop_poll (Inr []) (n_loops s i) = Inr ((n_loops s i)\<lparr>el_active_chs := []\<rparr>)"
    by (simp add: eloop_poll_def epoll_poll_def)
  then show ?thesis by (simp add: server_turn_def loop_turn_def Let_def)
qed

section \<open>A connection on its way out\<close>

text \<open>\<^verbatim>\<open>destroy_conn\<close> on any connection; the application is told when it was open, and can do no more than read.\<close>

lemma destroy_conn_effect:
  assumes "epoll_documented (k_ctl k)" "loop_wf (n_loops s (tc_loop c))" "conn_at s ptr c ch"
  obtains c' l' ch' t where
    "destroy_conn k a cur ptr s =
       Inr (s\<lparr>n_conns := (n_conns s)(ptr \<mapsto> c'), n_loops := (n_loops s)(tc_loop c := l'), n_calls := t\<rparr>)"
    "same_conn c c'" "loop_wf l'" "el_chans l' = (el_chans (n_loops s (tc_loop c)))(tc_ch c \<mapsto> ch')" "ch_index ch' = DELETED"
    "el_pending_functors l' = el_pending_functors (n_loops s (tc_loop c))" "el_thread_id l' = el_thread_id (n_loops s (tc_loop c))"
    "el_quit l' = el_quit (n_loops s (tc_loop c))"
proof -
  let ?l = "n_loops s (tc_loop c)"
  have conn: "n_conns s ptr = Some c" "el_chans ?l (tc_ch c) = Some ch" using assms(3) by (simp_all add: conn_at_def)
  show thesis
  proof (cases "tc_state c = CONNECTED")
    case True
    let ?c = "c\<lparr>tc_state := DISCONNECTED\<rparr>" and ?ch = "chan_set_index (chan_mask Disable_All ch) ADDED"
    obtain p1 l1 where l1: "l1 = ?l\<lparr>el_poller := Some p1, el_chans := (el_chans ?l)(tc_ch c \<mapsto> ?ch)\<rparr>"
      "chan_set_mask (k_ctl k) Disable_All (tc_ch c) ?l = Inr l1" "loop_wf l1"
      using assms(1,2) conn(2) by (rule chan_set_mask_wf)
    let ?s1 = "(put_conn ptr ?c s)\<lparr>n_loops := (n_loops s)(tc_loop c := l1)\<rparr>"
    have mask: "conn_mask k Disable_All c (put_conn ptr ?c s) = Inr ?s1" using l1(2) by (simp add: conn_mask_def on_loop_def)
    have "conn_at ?s1 ptr ?c ?ch" using l1(1) by (simp add: conn_at_def put_conn_def)
    then obtain b t where cb: "run_conn_callback k a cur ptr ?s1 =
        Inr (put_conn ptr (?c\<lparr>tc_input_buf := b\<rparr>) (?s1\<lparr>n_calls := t\<rparr>))"
      using closed_conn_callback [of ?s1 ptr ?c ?ch k a cur] by auto
    have "el_chans l1 (tc_ch c) = Some ?ch" using l1(1) by simp
    with assms(1) l1(3) obtain p2 l2 where l2: "l2 = l1\<lparr>el_poller := Some p2, el_chans := (el_chans l1)(tc_ch c \<mapsto> chan_set_index ?ch DELETED)\<rparr>"
      "chan_remove (k_ctl k) (tc_ch c) l1 = Inr l2" "loop_wf l2"
      by (rule chan_remove_wf)
    have "destroy_conn k a cur ptr s = Inr (s\<lparr>n_conns := (n_conns s)(ptr \<mapsto> ?c\<lparr>tc_input_buf := b\<rparr>),
        n_loops := (n_loops s)(tc_loop c := l2), n_calls := t\<rparr>)"
      using True assms(3) mask cb l2(2) by (simp add: destroy_conn_def on_loop_def put_conn_def)
    moreover have "same_conn c (?c\<lparr>tc_input_buf := b\<rparr>)" by (simp add: same_conn_def)
    moreover have "ch_index (chan_set_index ?ch DELETED) = DELETED" by (simp add: chan_set_index_def)
    moreover have "el_chans l2 = (el_chans ?l)(tc_ch c \<mapsto> chan_set_index ?ch DELETED)"
      "el_pending_functors l2 = el_pending_functors ?l" "el_thread_id l2 = el_thread_id ?l" "el_quit l2 = el_quit ?l"
      by (simp_all add: l1(1) l2(1))
    ultimately show thesis using l2(3) by (blast intro: that)
  next
    case False
    obtain p1 l1 where l1: "l1 = ?l\<lparr>el_poller := Some p1, el_chans := (el_chans ?l)(tc_ch c \<mapsto> chan_set_index ch DELETED)\<rparr>"
      "chan_remove (k_ctl k) (tc_ch c) ?l = Inr l1" "loop_wf l1"
      using assms(1,2) conn(2) by (rule chan_remove_wf)
    have "destroy_conn k a cur ptr s = Inr (s\<lparr>n_conns := (n_conns s)(ptr \<mapsto> c),
        n_loops := (n_loops s)(tc_loop c := l1), n_calls := n_calls s\<rparr>)"
      using False assms(3) conn(1) l1(2) by (simp add: destroy_conn_def on_loop_def fun_upd_idem)
    moreover have "same_conn c c" by (simp add: same_conn_def)
    moreover have "ch_index (chan_set_index ch DELETED) = DELETED" by (simp add: chan_set_index_def)
    moreover have "el_chans l1 = (el_chans ?l)(tc_ch c \<mapsto> chan_set_index ch DELETED)"
      "el_pending_functors l1 = el_pending_functors ?l" "el_thread_id l1 = el_thread_id ?l" "el_quit l1 = el_quit ?l"
      by (simp_all add: l1(1))
    ultimately show thesis using l1(3) by (blast intro: that)
  qed
qed

text \<open>
  The connection \<open>c\<close> at \<open>ptr\<close> was closed in a server \<open>s0\<close> with nothing queued: now \<open>f\<close> waits in loop \<open>j\<close> and
  nothing else does, and the map is \<open>m\<close>.
\<close>

definition closing ::
    "conn_ptr \<Rightarrow> tcp_conn \<Rightarrow> tcp_server \<Rightarrow> loop_ptr \<Rightarrow> loop_functor \<Rightarrow> (32 word \<rightharpoonup> conn_ptr) \<Rightarrow> tcp_server \<Rightarrow> bool" where
  "closing ptr c s0 j f m s \<longleftrightarrow>
     (\<exists>c' ch'. conn_at s ptr c' ch' \<and> same_conn c c' \<and> tc_state c' = DISCONNECTED) \<and>
     (\<forall>i. loop_wf (n_loops s i) \<and> el_thread_id (n_loops s i) = el_thread_id (n_loops s0 i)) \<and>
     (\<forall>i. el_pending_functors (n_loops s i) = (if i = j then [f] else [])) \<and>
     server_loops s = server_loops s0 \<and> sv_loop s = sv_loop s0 \<and> sv_conns s = m"

definition closed_down :: "conn_ptr \<Rightarrow> tcp_conn \<Rightarrow> tcp_server \<Rightarrow> tcp_server \<Rightarrow> bool" where
  "closed_down ptr c s0 s \<longleftrightarrow> n_conns s ptr = None \<and> sv_conns s = (sv_conns s0)(tc_id c := None) \<and>
     last (st_calls (n_socks s)) = Close (tc_sockfd c) \<and> (\<forall>i. el_pending_functors (n_loops s i) = [])"

lemma tcp_conn_delete_effect:
  assumes "conn_at s ptr c ch"
  shows "\<exists>s'. tcp_conn_delete ptr s = Inr s' \<and> n_conns s' = (n_conns s)(ptr := None) \<and> net.more s' = net.more s \<and>
     st_calls (n_socks s') = st_calls (n_socks s) @ [Close (tc_sockfd c)] \<and>
     (\<forall>j. el_pending_functors (n_loops s' j) = el_pending_functors (n_loops s j)) \<and>
     n_loops s' = (n_loops s)(tc_loop c :=
       (n_loops s (tc_loop c))\<lparr>el_chans := (el_chans (n_loops s (tc_loop c)))(tc_ch c := None)\<rparr>)"
  using assms by (simp add: tcp_conn_delete_def net_log_def socket_destroy_def Let_def)

text \<open>The batch that destroys it: the last reference goes with the functor.\<close>

lemma closing_destroyed:
  assumes "epoll_documented (k_ctl k)" and cl: "closing ptr c s0 (tc_loop c) (F_destroy_conn ptr) ((sv_conns s0)(tc_id c := None)) s"
  shows "\<exists>s'. server_pending k a (tc_loop c) cur s = Inr s' \<and> closed_down ptr c s0 s'"
proof -
  let ?i = "tc_loop c"
  obtain c1 ch1 where c1: "conn_at s ptr c1 ch1" "same_conn c c1" using cl by (auto simp: closing_def)
  have id: "tc_loop c1 = ?i" "tc_id c1 = tc_id c" "tc_sockfd c1 = tc_sockfd c" using c1(2) by (simp_all add: same_conn_def)
  let ?l = "(n_loops s ?i)\<lparr>el_calling_pending_functors := True, el_pending_functors := []\<rparr>"
  let ?s1 = "put_loop ?i ?l s"
  have at1: "conn_at ?s1 ptr c1 ch1" using c1(1) id by (auto simp: conn_at_def)
  have wf: "loop_wf (n_loops s j)" for j using cl by (simp add: closing_def)
  then have wf1: "loop_wf (n_loops ?s1 (tc_loop c1))" by (simp add: id loop_wf_def)
  obtain c2 l2 ch2 t where d: "destroy_conn k a cur ptr ?s1 =
       Inr (?s1\<lparr>n_conns := (n_conns ?s1)(ptr \<mapsto> c2), n_loops := (n_loops ?s1)(tc_loop c1 := l2), n_calls := t\<rparr>)"
    "same_conn c1 c2" "loop_wf l2" "el_chans l2 = (el_chans (n_loops ?s1 (tc_loop c1)))(tc_ch c1 \<mapsto> ch2)"
    "el_pending_functors l2 = el_pending_functors (n_loops ?s1 (tc_loop c1))"
    using assms(1) wf1 at1 by (rule destroy_conn_effect)
  note d = d [unfolded id(1)]
  let ?s2 = "?s1\<lparr>n_conns := (n_conns ?s1)(ptr \<mapsto> c2), n_loops := (n_loops ?s1)(?i := l2), n_calls := t\<rparr>"
  let ?s3 = "put_loop ?i (eloop_end_calling (n_loops ?s2 ?i)) ?s2"
  have pend: "el_pending_functors (n_loops ?s3 j) = []" for j
    using cl d(5) id by (auto simp: closing_def eloop_end_calling_def)
  have c2: "tc_loop c2 = ?i" "tc_id c2 = tc_id c" "tc_sockfd c2 = tc_sockfd c" "tc_ch c2 = tc_ch c1"
    using d(2) id by (simp_all add: same_conn_def)
  have unref: "\<not> conn_referenced ?s3 ptr c2"
    unfolding conn_referenced_def pend using cl c2(2) by (simp add: closing_def list_ex_iff)
  have "conn_at ?s3 ptr c2 ch2"
    using d(3,4) c2 id by (auto simp: conn_at_def loop_wf_def eloop_end_calling_def)
  then obtain s' where s': "tcp_conn_delete ptr ?s3 = Inr s'" "n_conns s' = (n_conns ?s3)(ptr := None)" "net.more s' = net.more ?s3"
    "st_calls (n_socks s') = st_calls (n_socks ?s3) @ [Close (tc_sockfd c)]"
    "\<forall>j. el_pending_functors (n_loops s' j) = []"
    using tcp_conn_delete_effect [of ?s3 ptr c2 ch2] pend c2(3) by auto
  have "n_conns ?s3 ptr = Some c2" by simp
  with unref s'(1) have "release_functors [F_destroy_conn ptr] ?s3 = Inr s'" by simp
  moreover have "server_pending k a ?i cur s = release_functors [F_destroy_conn ptr] ?s3"
    using cl d(1) by (simp add: do_pending_functors_def eloop_begin_calling_def eloop_swap_pending_def closing_def
        run_functor_def del: release_functors.simps)
  moreover have "sv_conns s' = sv_conns s" using more_sv(1) [OF s'(3)] by simp
  then have "closed_down ptr c s0 s'" using s' cl by (simp add: closed_down_def closing_def)
  ultimately show ?thesis by auto
qed

text \<open>The batch of the main loop that takes it out of the map and hands it to its own loop.\<close>

lemma closing_removed:
  assumes cl: "closing ptr c s0 (sv_loop s0) (F_remove_conn_in_loop ptr) m s"
    and loop: "tc_loop c \<in> set (server_loops s0)" "tc_loop c \<noteq> sv_loop s0"
  shows "\<exists>s'. server_pending k a (sv_loop s0) cur s = Inr s' \<and>
     closing ptr c s0 (tc_loop c) (F_destroy_conn ptr) (m(tc_id c := None)) s'"
proof -
  let ?b = "sv_loop s0"
  obtain c1 ch1 where c1: "conn_at s ptr c1 ch1" "same_conn c c1" "tc_state c1 = DISCONNECTED" using cl by (auto simp: closing_def)
  have id: "tc_loop c1 = tc_loop c" "tc_id c1 = tc_id c" using c1(2) by (simp_all add: same_conn_def)
  let ?l = "(n_loops s ?b)\<lparr>el_calling_pending_functors := True, el_pending_functors := []\<rparr>"
  let ?s1 = "put_loop ?b ?l s"
  have at1: "conn_at ?s1 ptr c1 ch1" using c1(1) by (auto simp: conn_at_def)
  let ?s2 = "net_queue k cur (tc_loop c) (F_destroy_conn ptr)
     ((net_log INFO (''removing connection '' @ c_str (tc_name c1)) ?s1)\<lparr>sv_conns := (sv_conns s)(tc_id c := None)\<rparr>)"
  have run: "run_functor k a cur ?s1 (F_remove_conn_in_loop ptr) = Inr ?s2"
    using at1 id by (simp add: run_functor_def remove_conn_in_loop_def net_log_def)
  let ?s3 = "put_loop ?b (eloop_end_calling (n_loops ?s2 ?b)) ?s2"
  have pend: "el_pending_functors (n_loops ?s3 j) = (if j = tc_loop c then [F_destroy_conn ptr] else [])" for j
    using cl loop(2) by (simp add: closing_def queue_pending eloop_end_calling_def)
  have sv: "server_loops ?s3 = server_loops s0" "sv_loop ?s3 = sv_loop s0" "sv_conns ?s3 = m(tc_id c := None)"
    using cl more_sv [OF queue_sv [of k cur "tc_loop c" "F_destroy_conn ptr"]] by (simp_all add: closing_def server_loops_def net_log_def)
  have "conn_at ?s2 ptr c1 ch1" using at1 unfolding conn_at_queue by (simp add: conn_at_def net_log_def)
  then have at3: "conn_at ?s3 ptr c1 ch1" using id(1) loop(2) by (auto simp: conn_at_def)
  have "conn_referenced ?s3 ptr c1" unfolding conn_referenced_def pend sv using loop(1) by (auto simp: list_ex_iff)
  then have "release_functors [F_remove_conn_in_loop ptr] ?s3 = Inr ?s3" using at3 by (simp add: conn_at_def)
  then have "server_pending k a ?b cur s = Inr ?s3"
    using cl run by (simp add: do_pending_functors_def eloop_begin_calling_def eloop_swap_pending_def closing_def
        del: release_functors.simps)
  moreover have "loop_wf (n_loops ?s3 j) \<and> el_thread_id (n_loops ?s3 j) = el_thread_id (n_loops s0 j)" for j
  proof -
    have "loop_wf ?l" using cl by (simp add: closing_def loop_wf_def)
    with cl show ?thesis by (simp add: closing_def)
  qed
  ultimately show ?thesis using at3 c1(2,3) pend sv unfolding closing_def by blast
qed

section \<open>Closing\<close>

text \<open>\<^verbatim>\<open>handle_close\<close> in a server with nothing queued, in the thread of the main loop or not.\<close>

definition close_queued :: "tid \<Rightarrow> conn_ptr \<Rightarrow> tcp_conn \<Rightarrow> tcp_server \<Rightarrow> tcp_server \<Rightarrow> bool" where
  "close_queued cur ptr c s s' \<longleftrightarrow>
     (if el_thread_id (n_loops s (sv_loop s)) = cur
      then closing ptr c s (tc_loop c) (F_destroy_conn ptr) ((sv_conns s)(tc_id c := None)) s'
      else closing ptr c s (sv_loop s) (F_remove_conn_in_loop ptr) (sv_conns s) s')"

lemma handle_close_queues:
  assumes "epoll_documented (k_ctl k)" "\<And>j. loop_wf (n_loops s j)" "conn_at s ptr c ch" "tc_close_callback c"
    and "\<forall>j. el_pending_functors (n_loops s j) = []"
  shows "\<exists>s'. handle_close k a (remove_conn k) cur ptr s = Inr s' \<and> close_queued cur ptr c s s'"
proof -
  let ?c = "c\<lparr>tc_state := DISCONNECTED\<rparr>" and ?ch = "chan_set_index (chan_mask Disable_All ch) ADDED" and ?l = "n_loops s (tc_loop c)"
  let ?s0 = "put_conn ptr ?c (net_log INFO (''closing conn ['' @ c_str (tc_name c) @ ''] fd='' @ dec_int (ch_fd ch)) s)"
  have "el_chans ?l (tc_ch c) = Some ch" using assms(3) by (simp add: conn_at_def)
  with assms(1,2) obtain p1 l1 where l1: "l1 = ?l\<lparr>el_poller := Some p1, el_chans := (el_chans ?l)(tc_ch c \<mapsto> ?ch)\<rparr>"
    "chan_set_mask (k_ctl k) Disable_All (tc_ch c) ?l = Inr l1" "loop_wf l1"
    by (rule chan_set_mask_wf)
  let ?s1 = "?s0\<lparr>n_loops := (n_loops s)(tc_loop c := l1)\<rparr>"
  have mask: "conn_mask k Disable_All c ?s0 = Inr ?s1" using l1(2) by (simp add: conn_mask_def on_loop_def)
  have at1: "conn_at ?s1 ptr ?c ?ch" using l1(1) by (simp add: conn_at_def put_conn_def)
  then obtain b t where cb: "run_conn_callback k a cur ptr ?s1 =
      Inr (put_conn ptr (?c\<lparr>tc_input_buf := b\<rparr>) (?s1\<lparr>n_calls := t\<rparr>))"
    using closed_conn_callback [of ?s1 ptr ?c ?ch k a cur] by auto
  let ?c2 = "?c\<lparr>tc_input_buf := b\<rparr>"
  define s2 where "s2 = put_conn ptr ?c2 (?s1\<lparr>n_calls := t\<rparr>)"
  have eq: "handle_close k a (remove_conn k) cur ptr s = remove_conn k cur ptr s2"
    using assms(3,4) mask cb by (simp add: handle_close_def s2_def)
  have at2: "conn_at s2 ptr ?c2 ?ch" unfolding s2_def by (rule conn_at_put [of _ _ ?c]) (use at1 in simp_all)
  have s2: "loop_wf (n_loops s2 j)" "el_thread_id (n_loops s2 j) = el_thread_id (n_loops s j)"
    "el_pending_functors (n_loops s2 j) = []" "server_loops s2 = server_loops s" "sv_loop s2 = sv_loop s" "sv_conns s2 = sv_conns s" for j
    using assms(2,5) l1(1,3) by (simp_all add: s2_def put_conn_def net_log_def server_loops_def)
  have c2: "same_conn c ?c2" "tc_state ?c2 = DISCONNECTED" by (simp_all add: same_conn_def)
  let ?s3 = "net_queue k cur (tc_loop c) (F_destroy_conn ptr)
     ((net_log INFO (''removing connection '' @ c_str (tc_name c)) s2)\<lparr>sv_conns := (sv_conns s2)(tc_id c := None)\<rparr>)"
  let ?s4 = "net_queue k cur (sv_loop s) (F_remove_conn_in_loop ptr) s2"
  note sv = more_sv [OF queue_sv]
  have "conn_at ?s3 ptr ?c2 ?ch" "conn_at ?s4 ptr ?c2 ?ch" using at2 unfolding conn_at_queue by (simp_all add: conn_at_def net_log_def)
  then have "closing ptr c s (tc_loop c) (F_destroy_conn ptr) ((sv_conns s)(tc_id c := None)) ?s3"
    "closing ptr c s (sv_loop s) (F_remove_conn_in_loop ptr) (sv_conns s) ?s4"
    unfolding closing_def using c2 s2 by (auto simp: sv queue_pending server_loops_def net_log_def)
  moreover have "remove_conn k cur ptr s2 = Inr (if el_thread_id (n_loops s (sv_loop s)) = cur then ?s3 else ?s4)"
    using at2 s2(2,5) by (simp add: remove_conn_def remove_conn_in_loop_def eloop_is_in_loop_thread_def net_log_def)
  ultimately show ?thesis using eq by (simp add: close_queued_def)
qed

lemma close_queued_from:
  assumes "close_queued cur ptr c2 s2 s'" "same_conn c c2" "\<And>i. el_thread_id (n_loops s2 i) = el_thread_id (n_loops s i)"
    and "server_loops s2 = server_loops s" "sv_loop s2 = sv_loop s" "sv_conns s2 = sv_conns s"
  shows "close_queued cur ptr c s s'"
proof -
  have "same_conn c2 c' \<Longrightarrow> same_conn c c'" for c' using assms(2) by (rule same_conn_trans)
  moreover have "tc_loop c2 = tc_loop c" "tc_id c2 = tc_id c" using assms(2) by (simp_all add: same_conn_def)
  ultimately show ?thesis using assms(1,3-) unfolding close_queued_def closing_def by (auto split: if_splits)
qed

text \<open>The events of a descriptor whose peer closed: readable, no error and not writable.\<close>

definition eof_events :: "32 word \<Rightarrow> bool" where
  "eof_events ev \<longleftrightarrow> ev AND EPOLLIN \<noteq> 0 \<and> ev AND EPOLLERR = 0 \<and> ev AND EPOLLOUT = 0"

lemma eof_handled:
  assumes "chan_of ptr ch" "tie_ok ptr ch" "alive ptr" "eof_events (ch_revents ch)"
  obtains msg where "handle_event alive ch = ([(INFO, msg)], [Conn_handle_read ptr])"
proof -
  have "handle_event_with_guard ch = ([(INFO, ''chan handle_event revents: '' @ dec_int (sint (ch_events ch)) @ [CHR 0x0A])],
      [Conn_handle_read ptr])"
    using assms(1,4) by (simp add: handle_event_with_guard_def eof_events_def chan_of_def)
  with assms(2,3) show thesis by (intro that) (auto simp: handle_event_def tie_ok_def split: option.splits)
qed

lemma eof_dispatch:
  assumes "epoll_documented (k_ctl k)" "\<And>j. loop_wf (n_loops s j)" "conn_at s ptr c ch" "tc_close_callback c"
    and "\<forall>j. el_pending_functors (n_loops s j) = []" "chan_of ptr ch" "tie_ok ptr ch" "eof_events (ch_revents ch)"
    and "buf_inv (tc_input_buf c)" "k_read k ptr (tc_reads c) (readv_capacity (tc_input_buf c)) = Inr []"
  shows "\<exists>s'. server_dispatch k a (tc_loop c) cur s (tc_ch c) = Inr s' \<and> close_queued cur ptr c s s'"
proof -
  obtain msg where ev: "handle_event (\<lambda>p. n_conns s p \<noteq> None) ch = ([(INFO, msg)], [Conn_handle_read ptr])"
  proof -
    have "n_conns s ptr \<noteq> None" using assms(3) by (simp add: conn_at_def)
    from eof_handled [where alive = "\<lambda>p. n_conns s p \<noteq> None", OF assms(6,7) this assms(8)] that show thesis by blast
  qed
  obtain b where b: "read_fd (tc_input_buf c) (Inr []) = Inr (0, None, b)"
    using read_fd_fits [OF assms(9), of "[]"] by force
  let ?c = "c\<lparr>tc_reads := tc_reads c + 1, tc_input_buf := b, tc_received := tc_received c\<rparr>"
  define s1 where "s1 = put_conn ptr ?c (net_log INFO msg s)"
  have at: "conn_at s1 ptr ?c ch" unfolding s1_def by (rule conn_at_put [of _ _ c]) (use assms(3) in simp_all)
  have s1: "loop_wf (n_loops s1 j)" "el_pending_functors (n_loops s1 j) = []" "el_thread_id (n_loops s1 j) = el_thread_id (n_loops s j)"
    "server_loops s1 = server_loops s" "sv_loop s1 = sv_loop s" "sv_conns s1 = sv_conns s" for j
    using assms(2,5) by (simp_all add: s1_def put_conn_def net_log_def server_loops_def)
  obtain s' where s': "handle_close k a (remove_conn k) cur ptr s1 = Inr s'" "close_queued cur ptr ?c s1 s'"
    using handle_close_queues [OF assms(1) s1(1) at, of a cur] assms(4) s1(2) by auto
  have "el_chans (n_loops s (tc_loop c)) (tc_ch c) = Some ch" using assms(3) by (simp add: conn_at_def)
  then have "server_dispatch k a (tc_loop c) cur s (tc_ch c) = handle_read k a (remove_conn k) cur ptr (net_log INFO msg s)"
    using ev by (simp add: dispatch_chan_def run_chan_callback_def)
  also have "\<dots> = handle_close k a (remove_conn k) cur ptr s1"
    using assms(3,10) b by (simp add: handle_read_def Let_def s1_def)
  finally have "server_dispatch k a (tc_loop c) cur s (tc_ch c) = Inr s'" using s'(1) by simp
  moreover have "same_conn c ?c" by (simp add: same_conn_def)
  then have "close_queued cur ptr c s s'" using s1(3-6) by (intro close_queued_from [OF s'(2)]) simp_all
  ultimately show ?thesis by blast
qed

section \<open>From the event to the deletion\<close>

text \<open>Replacing a loop by one with the same channels, thread and queue.\<close>

lemma closing_put:
  assumes "closing ptr c s0 j f m s" "loop_wf l" "el_chans l = el_chans (n_loops s i)"
    and "el_pending_functors l = el_pending_functors (n_loops s i)" "el_thread_id l = el_thread_id (n_loops s i)"
  shows "closing ptr c s0 j f m (put_loop i l s)"
proof -
  have "conn_at (put_loop i l s) ptr c' ch' = conn_at s ptr c' ch'" for c' ch'
    using assms(1-3) by (auto simp: conn_at_def closing_def loop_wf_def)
  moreover have "server_loops (put_loop i l s) = server_loops s" by (simp add: server_loops_def)
  ultimately show ?thesis using assms by (simp add: closing_def)
qed

lemma nothing_pending:
  assumes "el_pending_functors (n_loops s i) = []"
  shows "server_pending k a i cur s =
     Inr (put_loop i ((n_loops s i)\<lparr>el_pending_functors := [], el_calling_pending_functors := False\<rparr>) s)"
  using assms by (simp add: do_pending_functors_def eloop_begin_calling_def eloop_swap_pending_def eloop_end_calling_def)

lemma closing_idle:
  assumes "closing ptr c s0 j f m s" "i \<noteq> j"
  shows "\<exists>s'. server_pending k a i cur s = Inr s' \<and> closing ptr c s0 j f m s'"
proof -
  let ?l = "(n_loops s i)\<lparr>el_pending_functors := [], el_calling_pending_functors := False\<rparr>"
  have "el_pending_functors (n_loops s i) = []" "loop_wf (n_loops s i)" using assms by (simp_all add: closing_def)
  then have "server_pending k a i cur s = Inr (put_loop i ?l s)" "closing ptr c s0 j f m (put_loop i ?l s)"
    by (simp_all add: nothing_pending closing_put [OF assms(1)] loop_wf_def)
  then show ?thesis by blast
qed

lemma closing_turn:
  assumes "closing ptr c s0 j f m s"
  shows "\<exists>s1. server_turn k a i (Inr []) s = server_pending k a i (el_thread_id (n_loops s i)) s1 \<and> closing ptr c s0 j f m s1"
proof -
  have wf: "loop_wf (n_loops s i)" using assms by (simp add: closing_def)
  then have "closing ptr c s0 j f m (put_loop i ((n_loops s i)\<lparr>el_active_chs := []\<rparr>) s)"
    by (intro closing_put [OF assms]) simp_all
  with idle_turn [OF wf] show ?thesis by blast
qed

text \<open>The turn of the event, up to the functors.\<close>

lemma eof_turn:
  assumes "env_ok k a" "server_wf s" "\<forall>j. el_pending_functors (n_loops s j) = []" "n_conns s ptr = Some c"
    and "eof_events ev" "k_read k ptr (tc_reads c) (readv_capacity (tc_input_buf c)) = Inr []"
  defines "i \<equiv> tc_loop c"
  shows "\<exists>s1. server_turn k a i (Inr [(ev, tc_ch c)]) s = server_pending k a i (el_thread_id (n_loops s i)) s1 \<and>
     close_queued (el_thread_id (n_loops s i)) ptr c s s1"
proof -
  let ?cur = "el_thread_id (n_loops s i)"
  have ok: "server_ok 0 [] [] {} s" using assms(2) by (simp add: server_wf_def)
  obtain ch where ch: "el_chans (n_loops s i) (tc_ch c) = Some ch" "chan_of ptr ch" "tie_ok ptr ch" "conn_inv c (is_writing ch)"
    "tc_close_callback c" using ok assms(4) unfolding i_def by (rule server_ok_conn)
  let ?ch = "chan_set_revents ch ev"
  obtain l where l: "eloop_poll (Inr [(ev, tc_ch c)]) (n_loops s i) = Inr l" "el_active_chs l = [tc_ch c]"
    "el_chans l = (el_chans (n_loops s i))(tc_ch c \<mapsto> ?ch)" "loop_wf l"
    "el_pending_functors l = el_pending_functors (n_loops s i)" "el_thread_id l = ?cur"
    by (rule poll_one [OF server_ok_wf [OF ok] ch(1)])
  let ?s = "put_loop i l s"
  have at: "conn_at ?s ptr c ?ch" using assms(4) l(3,4) by (auto simp: conn_at_def loop_wf_def i_def)
  have wf: "loop_wf (n_loops ?s j)" for j using l(4) server_ok_wf [OF ok] by simp
  have fine: "chan_of ptr ?ch" "tie_ok ptr ?ch" "eof_events (ch_revents ?ch)" "buf_inv (tc_input_buf c)"
    using ch(2-4) assms(5) by (simp_all add: chan_of_def tie_ok_def chan_set_revents_def conn_inv_def)
  have queue: "\<forall>j. el_pending_functors (n_loops ?s j) = []" using assms(3) l(5) by simp
  obtain s1 where s1: "server_dispatch k a i ?cur ?s (tc_ch c) = Inr s1" "close_queued ?cur ptr c ?s s1"
    using eof_dispatch [OF env_okD(2) [OF assms(1)] wf at ch(5) queue fine assms(6), of a ?cur] unfolding i_def by blast
  have "close_queued ?cur ptr c s s1"
    using l(6) by (intro close_queued_from [OF s1(2)]) (simp_all add: server_loops_def same_conn_def)
  moreover have "server_turn k a i (Inr [(ev, tc_ch c)]) s = server_pending k a i ?cur s1"
    using l(1,2) s1(1) by (simp add: server_turn_def loop_turn_def Let_def)
  ultimately show ?thesis by blast
qed

section \<open>Property\<close>

text \<open>
  C10.  A connection whose peer closed goes away completely.  In a server with nothing queued, the turn of
  its loop that reads the end of the stream deletes it, when the main loop runs in the same thread;
  otherwise it takes one more turn of the main loop and one of its own.  Then the connection is no
  longer in the map nor in memory, its socket was closed by the last system call on sockets, and
  nothing waits in any loop.
\<close>

theorem eof_deletes_conn:
  assumes "env_ok k a" and "server_reach k a s" and "\<forall>j. el_pending_functors (n_loops s j) = []"
    and "n_conns s ptr = Some c" and "eof_events ev"
    and "k_read k ptr (tc_reads c) (readv_capacity (tc_input_buf c)) = Inr []"
  shows "if el_thread_id (n_loops s (tc_loop c)) = el_thread_id (n_loops s (sv_loop s))
     then \<exists>s'. server_turn k a (tc_loop c) (Inr [(ev, tc_ch c)]) s = Inr s' \<and> closed_down ptr c s s'
     else \<exists>s1 s2 s'. server_turn k a (tc_loop c) (Inr [(ev, tc_ch c)]) s = Inr s1 \<and>
       server_turn k a (sv_loop s) (Inr []) s1 = Inr s2 \<and> server_turn k a (tc_loop c) (Inr []) s2 = Inr s' \<and>
       closed_down ptr c s s'"
proof -
  have wf: "server_wf s" using assms(1,2) by (rule server_reach_wf)
  let ?i = "tc_loop c" and ?b = "sv_loop s"
  let ?cur = "el_thread_id (n_loops s ?i)"
  obtain t1 where t1: "server_turn k a ?i (Inr [(ev, tc_ch c)]) s = server_pending k a ?i ?cur t1"
    "close_queued ?cur ptr c s t1" using eof_turn [OF assms(1) wf assms(3-6)] by blast
  note destroyed = closing_destroyed [OF env_okD(2) [OF assms(1)]]
  show ?thesis
  proof (cases "?cur = el_thread_id (n_loops s ?b)")
    case True
    then have "closing ptr c s ?i (F_destroy_conn ptr) ((sv_conns s)(tc_id c := None)) t1"
      using t1(2) by (simp add: close_queued_def)
    with True t1(1) destroyed show ?thesis by simp
  next
    case False
    then have loops: "?i \<noteq> ?b" by auto
    from False t1(2) have "closing ptr c s ?b (F_remove_conn_in_loop ptr) (sv_conns s) t1"
      by (simp add: close_queued_def)
    from closing_idle [OF this loops] obtain s1 where
      s1: "server_pending k a ?i ?cur t1 = Inr s1" "closing ptr c s ?b (F_remove_conn_in_loop ptr) (sv_conns s) s1" by blast
    from closing_turn [OF s1(2)] obtain t2 where
      t2: "server_turn k a ?b (Inr []) s1 = server_pending k a ?b (el_thread_id (n_loops s1 ?b)) t2"
      "closing ptr c s ?b (F_remove_conn_in_loop ptr) (sv_conns s) t2" by blast
    have "?i \<in> set (server_loops s)"
      using wf assms(4) unfolding server_wf_def by (auto elim: server_ok_conn)
    from closing_removed [OF t2(2) this loops] obtain s2 where
      s2: "server_pending k a ?b (el_thread_id (n_loops s1 ?b)) t2 = Inr s2"
      "closing ptr c s ?i (F_destroy_conn ptr) ((sv_conns s)(tc_id c := None)) s2" by blast
    from closing_turn [OF s2(2)] obtain t3 where
      t3: "server_turn k a ?i (Inr []) s2 = server_pending k a ?i (el_thread_id (n_loops s2 ?i)) t3"
      "closing ptr c s ?i (F_destroy_conn ptr) ((sv_conns s)(tc_id c := None)) t3" by blast
    from destroyed [OF t3(2)] False t1(1) s1(1) t2(1) s2(1) t3(1) show ?thesis by simp
  qed
qed

theorem eof_deletes_conn_witness:
  "\<exists>s c s'. server_reach os_accepting quiet_app s \<and> n_conns s 100 = Some c \<and>
     server_turn os_accepting quiet_app (tc_loop c) (Inr [(EPOLLIN OR EPOLLHUP, tc_ch c)]) s = Inr s' \<and>
     n_conns s' 100 = None \<and> sv_conns s' = Map.empty \<and> last (st_calls (n_socks s')) = Close (tc_sockfd c)"
proof -
  obtain s c where s: "server_reach os_accepting quiet_app s" "n_conns s 100 = Some c"
    "\<forall>i. el_pending_functors (n_loops s i) = []" "sv_conns s = [1 \<mapsto> 100]" "lp_loops (sv_thread_pool s) = []"
    by (rule accepted_reach)
  have ok: "server_ok 0 [] [] {} s" using server_reach_wf [OF os_accepting_env s(1)] by (simp add: server_wf_def)
  have "tc_loop c \<in> set (server_loops s)" using ok s(2) by (rule server_ok_conn)
  then have home: "tc_loop c = sv_loop s" using s(5) by (simp add: server_loops_def)
  have "sv_conns s 1 = Some 100" using s(4) by simp
  moreover have "map_inv s" using ok by (simp add: server_ok_def)
  ultimately have "\<exists>e. n_conns s 100 = Some e \<and> tc_id e = 1" unfolding map_inv_def by blast
  then have id: "tc_id c = 1" using s(2) by simp
  have ev: "eof_events (EPOLLIN OR EPOLLHUP)" by (simp add: eof_events_def event_defs)
  have read: "k_read os_accepting 100 (tc_reads c) (readv_capacity (tc_input_buf c)) = Inr []"
    by (simp add: os_accepting_def os_example_def)
  from eof_deletes_conn [OF os_accepting_env s(1,3,2) ev read] home s id show ?thesis
    by (auto simp: closed_down_def)
qed

end
