(* ===== verification/ServerEnd.thy ===== *)
theory ServerEnd
  imports ConnEnd
begin

text \<open>
  The end of a server: \<^verbatim>\<open>tcp_server::~tcp_server\<close> on a server between turns.  The connections of the
  loops that run in the destructing thread are destroyed, closed and deleted on the spot; those of other loops
  are handed to their threads.
\<close>

section \<open>One connection\<close>

text \<open>What is left of a connection that was destroyed and deleted.\<close>

definition conn_dropped :: "conn_ptr \<Rightarrow> tcp_conn \<Rightarrow> tcp_server \<Rightarrow> tcp_server \<Rightarrow> bool" where
  "conn_dropped ptr c s s' \<longleftrightarrow> n_conns s' = (n_conns s)(ptr := None) \<and> net.more s' = net.more s \<and>
     (\<forall>j. el_chans (n_loops s' j) = (if j = tc_loop c then (el_chans (n_loops s j))(tc_ch c := None) else el_chans (n_loops s j))) \<and>
     (\<forall>j. loop_wf (n_loops s j) \<longrightarrow> loop_wf (n_loops s' j)) \<and>
     (\<forall>j. el_pending_functors (n_loops s' j) = el_pending_functors (n_loops s j)) \<and>
     (\<forall>j. el_thread_id (n_loops s' j) = el_thread_id (n_loops s j)) \<and>
     st_calls (n_socks s') = st_calls (n_socks s) @ [Close (tc_sockfd c)]"

lemma destroy_and_delete:
  assumes "epoll_documented (k_ctl k)" "loop_wf (n_loops s (tc_loop c))" "conn_at s ptr c ch"
    and "\<And>c'. same_conn c c' \<Longrightarrow> \<not> conn_referenced s ptr c'"
  shows "\<exists>s'. bind_res (destroy_conn k a cur ptr s) (release_functors [F_destroy_conn ptr]) = Inr s' \<and> conn_dropped ptr c s s'"
proof -
  obtain c' l' ch' t where d: "destroy_conn k a cur ptr s =
       Inr (s\<lparr>n_conns := (n_conns s)(ptr \<mapsto> c'), n_loops := (n_loops s)(tc_loop c := l'), n_calls := t\<rparr>)" (is "_ = Inr ?s1")
    "same_conn c c'" "loop_wf l'" "el_chans l' = (el_chans (n_loops s (tc_loop c)))(tc_ch c \<mapsto> ch')" "ch_index ch' = DELETED"
    "el_pending_functors l' = el_pending_functors (n_loops s (tc_loop c))" "el_thread_id l' = el_thread_id (n_loops s (tc_loop c))"
    using assms(1-3) by (rule destroy_conn_effect)
  have pend: "el_pending_functors (n_loops ?s1 j) = el_pending_functors (n_loops s j)" for j using d(6) by simp
  have "\<not> conn_referenced ?s1 ptr c'"
    using assms(4) [OF d(2)] unfolding conn_referenced_def server_loops_def pend by simp
  moreover have "conn_at ?s1 ptr c' ch'"
    using d(2-4) by (auto simp: conn_at_def same_conn_def loop_wf_def)
  moreover obtain p where "el_poller l' = Some p" "chans_wf p (el_chans l')" using d(3) by (auto simp: loop_wf_def)
  then have "loop_wf (l'\<lparr>el_chans := (el_chans l')(tc_ch c := None)\<rparr>)"
    using chans_wf_del [of p "el_chans l'" "tc_ch c" ch'] d(4,5) by (simp add: loop_wf_def DELETED_def ADDED_def)
  ultimately show ?thesis
    using d by (simp add: tcp_conn_delete_def conn_dropped_def net_log_def socket_destroy_def same_conn_def Let_def)
qed

section \<open>The traversal of the map\<close>

text \<open>
  The state of the destructor that began in \<open>s0\<close>, in thread \<open>cur\<close>, with the entries \<open>rest\<close> of the map to go.
\<close>

definition at_hand :: "tid \<Rightarrow> tcp_server \<Rightarrow> tcp_conn \<Rightarrow> bool" where
  "at_hand cur s c \<longleftrightarrow> el_thread_id (n_loops s (tc_loop c)) = cur"

text \<open>What waits in loop \<open>j\<close>: the connections of that loop that were handed over.\<close>

definition handed :: "tid \<Rightarrow> tcp_server \<Rightarrow> (32 word \<times> conn_ptr) list \<Rightarrow> loop_ptr \<Rightarrow> loop_functor \<Rightarrow> bool" where
  "handed cur s0 rest j f \<longleftrightarrow> (\<exists>p c. f = F_destroy_conn p \<and> p \<notin> snd ` set rest \<and> n_conns s0 p = Some c \<and>
     tc_loop c = j \<and> \<not> at_hand cur s0 c)"

lemma handed_tail: "handed cur s0 (item # rest) j f \<Longrightarrow> handed cur s0 rest j f"
  by (auto simp: handed_def)

definition dropping :: "tid \<Rightarrow> tcp_server \<Rightarrow> (32 word \<times> conn_ptr) list \<Rightarrow> tcp_server \<Rightarrow> bool" where
  "dropping cur s0 rest s \<longleftrightarrow>
     sv_conns s = map_of rest \<and> sv_acceptor s = sv_acceptor s0 \<and> sv_loop s = sv_loop s0 \<and>
     sv_thread_pool s = sv_thread_pool s0 \<and>
     (\<forall>j. loop_wf (n_loops s j) \<and> el_thread_id (n_loops s j) = el_thread_id (n_loops s0 j)) \<and>
     (\<forall>p. n_conns s0 p = None \<longrightarrow> n_conns s p = None) \<and>
     (\<forall>p c. n_conns s0 p = Some c \<longrightarrow> n_conns s p = (if at_hand cur s0 c \<and> p \<notin> snd ` set rest then None else Some c) \<and>
        (p \<notin> snd ` set rest \<longrightarrow>
           (if at_hand cur s0 c then Close (tc_sockfd c) \<in> set (st_calls (n_socks s))
            else F_destroy_conn p \<in> set (el_pending_functors (n_loops s (tc_loop c)))))) \<and>
     (\<forall>p c. n_conns s p = Some c \<longrightarrow>
        el_chans (n_loops s (tc_loop c)) (tc_ch c) = el_chans (n_loops s0 (tc_loop c)) (tc_ch c)) \<and>
     (\<forall>j q ch. el_chans (n_loops s0 j) q = Some ch \<longrightarrow> plain_chan ch \<longrightarrow> el_chans (n_loops s j) q = Some ch) \<and>
     (\<forall>j. distinct (el_pending_functors (n_loops s j)) \<and> (\<forall>f \<in> set (el_pending_functors (n_loops s j)). handed cur s0 rest j f))"

lemma dropping_unreferenced:
  assumes "dropping cur s0 ((cid, ptr) # rest) s" "tc_id c = cid"
  shows "\<not> conn_referenced (s\<lparr>sv_conns := (sv_conns s)(cid := None)\<rparr>) ptr c"
proof -
  have "functor_conn f \<noteq> Some ptr" if "f \<in> set (el_pending_functors (n_loops s j))" for f j
    using assms(1) that unfolding dropping_def handed_def by fastforce
  with assms(2) show ?thesis by (auto simp: conn_referenced_def list_ex_iff)
qed

lemma conn_not_plain:
  assumes "server_wf s" "n_conns s ptr = Some c" "el_chans (n_loops s j) q = Some d" "plain_chan d"
  shows "\<not> (j = tc_loop c \<and> q = tc_ch c)"
proof
  assume eq: "j = tc_loop c \<and> q = tc_ch c"
  have "server_ok 0 [] [] {} s" using assms(1) by (simp add: server_wf_def)
  then obtain ch where "el_chans (n_loops s (tc_loop c)) (tc_ch c) = Some ch" "chan_of ptr ch"
    using assms(2) by (rule server_ok_conn)
  then show False using eq assms(3,4) chan_of_not_plain by auto
qed

lemma acceptor_chan:
  assumes "server_wf s"
  obtains ch where "el_chans (n_loops s (ac_loop (sv_acceptor s))) (ac_ch (sv_acceptor s)) = Some ch" "plain_chan ch"
  using assms by (auto simp: server_wf_def server_ok_def chans_inv_def)

lemma map_of_tail: "cid \<notin> fst ` set rest \<Longrightarrow> (map_of ((cid, ptr) # rest))(cid := None) = map_of rest"
  by (simp add: map_of_eq_None_iff [symmetric] fun_upd_idem)

lemma conn_dropped_sv:
  assumes "conn_dropped ptr c s s'"
  shows "sv_conns s' = sv_conns s" "sv_acceptor s' = sv_acceptor s" "sv_loop s' = sv_loop s"
    "sv_thread_pool s' = sv_thread_pool s"
  using assms more_sv unfolding conn_dropped_def by blast+

text \<open>An entry whose connection lives in a loop of this thread.\<close>

lemma dropping_home:
  assumes wf: "server_wf s0" and inv: "dropping cur s0 ((cid, ptr) # rest) s" and c: "n_conns s0 ptr = Some c"
    and fresh: "ptr \<notin> snd ` set rest" "cid \<notin> fst ` set rest" and home: "at_hand cur s0 c"
    and drop: "conn_dropped ptr c (s\<lparr>sv_conns := (sv_conns s)(cid := None)\<rparr>) s'"
  shows "dropping cur s0 rest s'"
proof -
  note i = inv [unfolded dropping_def] and d = drop [unfolded conn_dropped_def] and sv = conn_dropped_sv [OF drop]
  have "sv_conns s = map_of ((cid, ptr) # rest)" using i by blast
  then have map: "sv_conns s' = map_of rest" using sv(1) map_of_tail [OF fresh(2)] by simp
  have conns: "n_conns s' = (n_conns s)(ptr := None)" using d by simp
  have calls: "st_calls (n_socks s') = st_calls (n_socks s) @ [Close (tc_sockfd c)]" using d by simp
  have pend: "el_pending_functors (n_loops s' j) = el_pending_functors (n_loops s j)" for j using d by simp
  have old: "n_conns s0 p = Some e" if "n_conns s p = Some e" for p e
    using i that by (cases "n_conns s0 p") (auto split: if_splits)
  have gone: "n_conns s' p = (if at_hand cur s0 e \<and> p \<notin> snd ` set rest then None else Some e) \<and>
        (p \<notin> snd ` set rest \<longrightarrow>
           (if at_hand cur s0 e then Close (tc_sockfd e) \<in> set (st_calls (n_socks s'))
            else F_destroy_conn p \<in> set (el_pending_functors (n_loops s' (tc_loop e)))))"
    if e: "n_conns s0 p = Some e" for p e
  proof (cases "p = ptr")
    case True
    with e c home fresh(1) conns calls show ?thesis by simp
  next
    case False
    with i e conns calls pend show ?thesis by simp
  qed
  have chans: "el_chans (n_loops s' j) q = el_chans (n_loops s j) q" if "\<not> (j = tc_loop c \<and> q = tc_ch c)" for j q
    using d that by auto
  have "el_chans (n_loops s' (tc_loop e)) (tc_ch e) = el_chans (n_loops s0 (tc_loop e)) (tc_ch e)"
    if e: "n_conns s' p = Some e" for p e
  proof -
    have p: "p \<noteq> ptr" "n_conns s p = Some e" using e conns by (auto split: if_splits)
    have "server_ok 0 [] [] {} s0" using wf by (simp add: server_wf_def)
    then have "\<not> (tc_loop e = tc_loop c \<and> tc_ch e = tc_ch c)" using server_ok_place [OF _ old [OF p(2)] c] p(1) by blast
    then show ?thesis using chans i p(2) by simp
  qed
  moreover have "el_chans (n_loops s' j) q = Some ch" if l: "el_chans (n_loops s0 j) q = Some ch" "plain_chan ch" for j q ch
    using chans [OF conn_not_plain [OF wf c l]] i l by simp
  moreover have "distinct (el_pending_functors (n_loops s' j))" for j using i unfolding pend by blast
  moreover have "handed cur s0 rest j f" if "f \<in> set (el_pending_functors (n_loops s' j))" for j f
    using i that unfolding pend by (blast intro: handed_tail)
  moreover have "n_conns s' p = None" if "n_conns s0 p = None" for p using i that conns by simp
  moreover have "loop_wf (n_loops s' j) \<and> el_thread_id (n_loops s' j) = el_thread_id (n_loops s0 j)" for j using i d by simp
  ultimately show ?thesis using i map sv(2-4) gone unfolding dropping_def by simp
qed

text \<open>An entry whose connection lives in the loop of another thread.\<close>

lemma dropping_away:
  assumes inv: "dropping cur s0 ((cid, ptr) # rest) s" and c: "n_conns s0 ptr = Some c"
    and fresh: "ptr \<notin> snd ` set rest" "cid \<notin> fst ` set rest" and away: "\<not> at_hand cur s0 c"
  shows "dropping cur s0 rest (net_queue k cur (tc_loop c) (F_destroy_conn ptr) (s\<lparr>sv_conns := (sv_conns s)(cid := None)\<rparr>))"
proof -
  define s' where "s' = net_queue k cur (tc_loop c) (F_destroy_conn ptr) (s\<lparr>sv_conns := (sv_conns s)(cid := None)\<rparr>)"
  note i = inv [unfolded dropping_def]
  have "sv_conns s = map_of ((cid, ptr) # rest)" using i by blast
  then have sv: "sv_conns s' = map_of rest" "sv_acceptor s' = sv_acceptor s" "sv_loop s' = sv_loop s"
    "sv_thread_pool s' = sv_thread_pool s"
    using map_of_tail [OF fresh(2)] by (simp_all add: s'_def more_sv [OF queue_sv])
  have same: "n_conns s' = n_conns s" "n_socks s' = n_socks s" "el_chans (n_loops s' j) = el_chans (n_loops s j)"
    "loop_wf (n_loops s' j) = loop_wf (n_loops s j)" "el_thread_id (n_loops s' j) = el_thread_id (n_loops s j)"
    "el_pending_functors (n_loops s' j) = el_pending_functors (n_loops s j) @ (if tc_loop c = j then [F_destroy_conn ptr] else [])"
    for j
    unfolding s'_def by (simp, simp add: net_queue_def, simp, simp, simp add: net_queue_def, simp add: queue_pending)
  have "n_conns s' p = (if at_hand cur s0 e \<and> p \<notin> snd ` set rest then None else Some e) \<and>
        (p \<notin> snd ` set rest \<longrightarrow>
           (if at_hand cur s0 e then Close (tc_sockfd e) \<in> set (st_calls (n_socks s'))
            else F_destroy_conn p \<in> set (el_pending_functors (n_loops s' (tc_loop e)))))"
    if e: "n_conns s0 p = Some e" for p e
    using i e c away fresh(1) by (cases "p = ptr") (simp_all add: same)
  moreover have "F_destroy_conn ptr \<notin> set (el_pending_functors (n_loops s j))" for j
    using inv unfolding dropping_def handed_def by fastforce
  then have "distinct (el_pending_functors (n_loops s' j))" for j using i by (simp add: same)
  moreover have "handed cur s0 rest j f" if "f \<in> set (el_pending_functors (n_loops s' j))" for j f
  proof (cases "f \<in> set (el_pending_functors (n_loops s j))")
    case True
    with inv show ?thesis unfolding dropping_def by (blast intro: handed_tail)
  next
    case False
    then have "f = F_destroy_conn ptr" "tc_loop c = j" using that by (simp_all add: same split: if_splits)
    with fresh(1) c away show ?thesis by (auto simp: handed_def)
  qed
  ultimately have "dropping cur s0 rest s'" using i sv same(1,3-5) unfolding dropping_def by simp
  then show ?thesis by (simp only: s'_def)
qed

lemma dropping_step:
  assumes "epoll_documented (k_ctl k)" "server_wf s0" "dropping cur s0 ((cid, ptr) # rest) s" "n_conns s0 ptr = Some c"
    and "tc_id c = cid" "ptr \<notin> snd ` set rest" "cid \<notin> fst ` set rest"
  shows "\<exists>s'. server_drop_conn k a cur s (cid, ptr) = Inr s' \<and> dropping cur s0 rest s'"
proof -
  note i = assms(3) [unfolded dropping_def]
  let ?s1 = "s\<lparr>sv_conns := (sv_conns s)(cid := None)\<rparr>"
  have c: "n_conns s ptr = Some c" using i assms(4) by simp
  have ok: "server_ok 0 [] [] {} s0" using assms(2) by (simp add: server_wf_def)
  obtain ch where "el_chans (n_loops s0 (tc_loop c)) (tc_ch c) = Some ch" using ok assms(4) by (rule server_ok_conn)
  moreover have wf: "loop_wf (n_loops s (tc_loop c))" using i by simp
  ultimately have at: "conn_at ?s1 ptr c ch" using i c by (auto simp: conn_at_def loop_wf_def)
  have here: "eloop_is_in_loop_thread cur (n_loops ?s1 (tc_loop c)) = at_hand cur s0 c"
    using i by (simp add: eloop_is_in_loop_thread_def at_hand_def)
  show ?thesis
  proof (cases "at_hand cur s0 c")
    case True
    have unref: "\<not> conn_referenced ?s1 ptr c'" if "same_conn c c'" for c'
      using dropping_unreferenced [OF assms(3), of c'] that assms(5) by (simp add: same_conn_def)
    obtain s' where s': "bind_res (destroy_conn k a cur ptr ?s1) (release_functors [F_destroy_conn ptr]) = Inr s'"
      "conn_dropped ptr c ?s1 s'" using destroy_and_delete [OF assms(1) _ at unref] wf by auto
    have "dropping cur s0 rest s'" using dropping_home [OF assms(2-4,6,7) True s'(2)] .
    moreover have "server_drop_conn k a cur s (cid, ptr) = Inr s'"
      using c here True s'(1) by (simp add: server_drop_conn_def Let_def del: release_functors.simps)
    ultimately show ?thesis by blast
  next
    case False
    then show ?thesis
      using dropping_away [OF assms(3,4,6,7) False, of k] c here by (simp add: server_drop_conn_def Let_def)
  qed
qed

lemma dropping_all:
  assumes "epoll_documented (k_ctl k)" "server_wf s0" "dropping cur s0 items s"
    and "\<forall>(cid, ptr) \<in> set items. \<exists>c. n_conns s0 ptr = Some c \<and> tc_id c = cid"
    and "distinct (map fst items)" "distinct (map snd items)"
  shows "\<exists>s'. fold_res (server_drop_conn k a cur) s items = Inr s' \<and> dropping cur s0 [] s'"
  using assms(3-)
proof (induction items arbitrary: s)
  case (Cons item items)
  obtain cid ptr c where item: "item = (cid, ptr)" "n_conns s0 ptr = Some c" "tc_id c = cid"
    using Cons.prems(2) by (cases item) auto
  obtain s1 where s1: "server_drop_conn k a cur s (cid, ptr) = Inr s1" "dropping cur s0 items s1"
    using dropping_step [OF assms(1,2) _ item(2,3), of cur items s a] Cons.prems(1,3,4) item(1) by auto
  then show ?case using Cons.IH [OF s1(2)] Cons.prems(2-4) item(1) by simp
qed simp

text \<open>In a server with nothing queued the map has every connection, once.\<close>

lemma quiescent_conn:
  assumes "server_wf s" "\<forall>i. el_pending_functors (n_loops s i) = []" "n_conns s ptr = Some c"
  shows "sv_conns s (tc_id c) = Some ptr" "tc_state c \<noteq> DISCONNECTED"
  using assms by (auto simp: server_wf_def server_ok_def conn_life_def awaits_def waiting_def)

lemma map_items:
  assumes "server_wf s" "distinct (map fst items)" "map_of items = sv_conns s"
  shows "\<forall>(cid, ptr) \<in> set items. \<exists>c. n_conns s ptr = Some c \<and> tc_id c = cid" "distinct (map snd items)"
proof -
  have inv: "map_inv s" using assms(1) by (simp add: server_wf_def server_ok_def)
  have entry: "\<exists>c. n_conns s ptr = Some c \<and> tc_id c = cid" if "(cid, ptr) \<in> set items" for cid ptr
  proof -
    have "sv_conns s cid = Some ptr" using that assms(2,3) by (metis map_of_is_SomeI)
    with inv show ?thesis by (simp add: map_inv_def)
  qed
  then show "\<forall>(cid, ptr) \<in> set items. \<exists>c. n_conns s ptr = Some c \<and> tc_id c = cid" by blast
  have "inj_on snd (set items)"
  proof (rule inj_onI)
    fix x y assume xy: "x \<in> set items" "y \<in> set items" "snd x = snd y"
    obtain i j ptr where eq: "x = (i, ptr)" "y = (j, ptr)" using xy(3) by (metis prod.collapse)
    obtain c d where "n_conns s ptr = Some c" "tc_id c = i" "n_conns s ptr = Some d" "tc_id d = j"
      using entry xy(1,2) unfolding eq by blast
    with eq show "x = y" by simp
  qed
  moreover have "distinct items" using assms(2) by (simp add: distinct_map)
  ultimately show "distinct (map snd items)" by (simp add: distinct_map)
qed

lemma dropping_start:
  assumes "server_wf s" "\<forall>i. el_pending_functors (n_loops s i) = []" "map_of items = sv_conns s"
  shows "dropping cur s items s"
proof -
  have "p \<in> snd ` set items" if p: "n_conns s p = Some c" for p c
  proof -
    have "map_of items (tc_id c) = Some p" using quiescent_conn(1) [OF assms(1,2) p] assms(3) by simp
    then have "(tc_id c, p) \<in> set items" by (rule map_of_SomeD)
    then show ?thesis by force
  qed
  moreover have "loop_wf (n_loops s j)" for j using assms(1) unfolding server_wf_def by (rule server_ok_wf)
  ultimately show ?thesis using assms(2,3) by (auto simp: dropping_def)
qed

lemma acceptor_destroyed:
  assumes "epoll_documented (k_ctl k)" "loop_wf (n_loops w (ac_loop ac))" "el_chans (n_loops w (ac_loop ac)) (ac_ch ac) = Some ch"
  shows "\<exists>l t. acceptor_destroy k ac w = Inr (w\<lparr>n_loops := (n_loops w)(ac_loop ac := l), n_socks := t\<rparr>) \<and> loop_wf l \<and>
     el_chans l = (el_chans (n_loops w (ac_loop ac)))(ac_ch ac := None) \<and>
     st_calls t = st_calls (n_socks w) @ [Close (ac_sockfd ac)] \<and> el_quit l = el_quit (n_loops w (ac_loop ac)) \<and>
     el_pending_functors l = el_pending_functors (n_loops w (ac_loop ac))"
proof -
  let ?l = "n_loops w (ac_loop ac)" and ?ch = "chan_set_index (chan_mask Disable_All ch) ADDED"
  obtain p1 l1 where l1: "l1 = ?l\<lparr>el_poller := Some p1, el_chans := (el_chans ?l)(ac_ch ac \<mapsto> ?ch)\<rparr>"
    "chan_set_mask (k_ctl k) Disable_All (ac_ch ac) ?l = Inr l1" "loop_wf l1"
    using assms by (rule chan_set_mask_wf)
  have "el_chans l1 (ac_ch ac) = Some ?ch" using l1(1) by simp
  with assms(1) l1(3) obtain p2 l2 where l2:
    "l2 = l1\<lparr>el_poller := Some p2, el_chans := (el_chans l1)(ac_ch ac \<mapsto> chan_set_index ?ch DELETED)\<rparr>"
    "chan_remove (k_ctl k) (ac_ch ac) l1 = Inr l2" "loop_wf l2" by (rule chan_remove_wf)
  let ?l3 = "l2\<lparr>el_chans := (el_chans l2)(ac_ch ac := None)\<rparr>"
  obtain p where "el_poller l2 = Some p" "chans_wf p (el_chans l2)" using l2(3) by (auto simp: loop_wf_def)
  then have wf: "loop_wf ?l3"
    using chans_wf_del [of p "el_chans l2" "ac_ch ac" "chan_set_index ?ch DELETED"] l2(1)
    by (simp add: loop_wf_def chan_set_index_def DELETED_def ADDED_def)
  have chans: "el_chans ?l3 = (el_chans ?l)(ac_ch ac := None)" "el_quit ?l3 = el_quit ?l"
    "el_pending_functors ?l3 = el_pending_functors ?l" using l1(1) l2(1) by simp_all
  have "acceptor_destroy k ac w =
      Inr (w\<lparr>n_loops := (n_loops w)(ac_loop ac := ?l3), n_socks := socket_destroy (ac_sockfd ac) (n_socks w)\<rparr>)"
    using l1(2) l2(2) by (simp add: acceptor_destroy_def on_loop_def on_socks_def Let_def)
  moreover have "st_calls (socket_destroy (ac_sockfd ac) (n_socks w)) = st_calls (n_socks w) @ [Close (ac_sockfd ac)]"
    by (simp add: socket_destroy_def sys_call_def)
  ultimately show ?thesis using wf chans by blast
qed

text \<open>With one loop, in this thread, nothing is handed over, and the acceptor goes last.\<close>

lemma loop_wf_no_dangling:
  assumes "loop_wf l" "el_poller l = Some p" "interest (ep_calls p) f = Some (e, q)"
  shows "el_chans l q \<noteq> None"
  using assms unfolding loop_wf_def by (metis chans_wf_interest option.distinct(1) option.inject)

lemma destroy_single_loop:
  assumes "epoll_documented (k_ctl k)" "server_wf s"
    and drop: "fold_res (server_drop_conn k a cur) s items = Inr s'" "dropping cur s [] s'"
    and one: "lp_loops (sv_thread_pool s) = []" "el_thread_id (n_loops s (sv_loop s)) = cur"
  shows "\<exists>s''. tcp_server_destroy k a cur run_out items s = Inr s'' \<and> n_conns s'' = Map.empty \<and>
     (\<forall>ptr c. n_conns s ptr = Some c \<longrightarrow> Close (tc_sockfd c) \<in> set (st_calls (n_socks s''))) \<and>
     last (st_calls (n_socks s'')) = Close (ac_sockfd (sv_acceptor s)) \<and>
     (\<forall>i p f e q. el_poller (n_loops s'' i) = Some p \<longrightarrow> interest (ep_calls p) f = Some (e, q) \<longrightarrow>
        el_chans (n_loops s'' i) q \<noteq> None)"
proof -
  note d = drop(2) [unfolded dropping_def]
  have ok: "server_ok 0 [] [] {} s" using assms(2) by (simp add: server_wf_def)
  let ?ac = "sv_acceptor s"
  obtain ch where "el_chans (n_loops s (ac_loop ?ac)) (ac_ch ?ac) = Some ch" "plain_chan ch"
    using assms(2) by (rule acceptor_chan)
  then have "el_chans (n_loops s' (ac_loop ?ac)) (ac_ch ?ac) = Some ch" using d by blast
  then obtain l t where ac: "acceptor_destroy k ?ac s' = Inr (s'\<lparr>n_loops := (n_loops s')(ac_loop ?ac := l), n_socks := t\<rparr>)"
    "loop_wf l" "st_calls t = st_calls (n_socks s') @ [Close (ac_sockfd ?ac)]"
    using acceptor_destroyed [OF assms(1), of s' ?ac ch] d by auto
  let ?s = "s'\<lparr>n_loops := (n_loops s')(ac_loop ?ac := l), n_socks := t\<rparr>"
  have "tcp_server_destroy k a cur run_out items s = Inr ?s"
    using drop(1) d one(1) ac(1) by (simp add: tcp_server_destroy_def)
  moreover have home: "at_hand cur s c" if "n_conns s ptr = Some c" for ptr c
    using ok that one by (auto simp: at_hand_def server_loops_def elim: server_ok_conn)
  then have "n_conns s' ptr = None" for ptr using d by (cases "n_conns s ptr") auto
  then have "n_conns ?s = Map.empty" by auto
  moreover have "Close (tc_sockfd c) \<in> set (st_calls (n_socks ?s))" if "n_conns s ptr = Some c" for ptr c
    using d that home [OF that] ac(3) by simp
  moreover have "loop_wf (n_loops ?s i)" for i using d ac(2) by simp
  note no_dangling = loop_wf_no_dangling [OF this]
  moreover have "last (st_calls (n_socks ?s)) = Close (ac_sockfd ?ac)" using ac(3) by simp
  ultimately show ?thesis using no_dangling by blast
qed

section \<open>The destructor\<close>

text \<open>
  The destructor of a server whose loops have nothing queued.  Its body empties the map; each
  connection of a loop in this thread is deleted and its socket closed, each other one is left to
  the functor that destroys it, which waits in its own loop.  If the server has no pool threads and
  its loop runs in this thread, the destructor ends with no connection left, every socket closed, the listening
  one last, and in the kernel's interest list no pointer to a channel that is gone.
\<close>

theorem server_destroy_releases_all:
  assumes "env_ok k a" and "server_reach k a s" and "\<forall>i. el_pending_functors (n_loops s i) = []"
    and "distinct (map fst items)" and "map_of items = sv_conns s"
  shows "\<exists>s'. fold_res (server_drop_conn k a cur) s items = Inr s' \<and> sv_conns s' = Map.empty \<and>
     (\<forall>ptr c. n_conns s ptr = Some c \<longrightarrow>
        (if el_thread_id (n_loops s (tc_loop c)) = cur
         then n_conns s' ptr = None \<and> Close (tc_sockfd c) \<in> set (st_calls (n_socks s'))
         else n_conns s' ptr = Some c \<and> F_destroy_conn ptr \<in> set (el_pending_functors (n_loops s' (tc_loop c))))) \<and>
     (lp_loops (sv_thread_pool s) = [] \<longrightarrow> el_thread_id (n_loops s (sv_loop s)) = cur \<longrightarrow>
        (\<exists>s''. tcp_server_destroy k a cur run_out items s = Inr s'' \<and> n_conns s'' = Map.empty \<and>
           (\<forall>ptr c. n_conns s ptr = Some c \<longrightarrow> Close (tc_sockfd c) \<in> set (st_calls (n_socks s''))) \<and>
           last (st_calls (n_socks s'')) = Close (ac_sockfd (sv_acceptor s)) \<and>
           (\<forall>i p f e q. el_poller (n_loops s'' i) = Some p \<longrightarrow> interest (ep_calls p) f = Some (e, q) \<longrightarrow>
              el_chans (n_loops s'' i) q \<noteq> None)))"
proof -
  have K: "epoll_documented (k_ctl k)" using assms(1) by (rule env_okD)
  have wf: "server_wf s" using assms(1,2) by (rule server_reach_wf)
  then have ok: "server_ok 0 [] [] {} s" by (simp add: server_wf_def)
  obtain s' where s': "fold_res (server_drop_conn k a cur) s items = Inr s'" "dropping cur s [] s'"
    using dropping_all [OF K wf dropping_start [OF wf assms(3,5)] map_items(1) [OF wf assms(4,5)] assms(4)
      map_items(2) [OF wf assms(4,5)]] by blast
  note d = s'(2) [unfolded dropping_def]
  have body: "if el_thread_id (n_loops s (tc_loop c)) = cur
         then n_conns s' ptr = None \<and> Close (tc_sockfd c) \<in> set (st_calls (n_socks s'))
         else n_conns s' ptr = Some c \<and> F_destroy_conn ptr \<in> set (el_pending_functors (n_loops s' (tc_loop c)))"
    if "n_conns s ptr = Some c" for ptr c
    using d that by (simp add: at_hand_def)
  have "\<exists>s''. tcp_server_destroy k a cur run_out items s = Inr s'' \<and> n_conns s'' = Map.empty \<and>
           (\<forall>ptr c. n_conns s ptr = Some c \<longrightarrow> Close (tc_sockfd c) \<in> set (st_calls (n_socks s''))) \<and>
           last (st_calls (n_socks s'')) = Close (ac_sockfd (sv_acceptor s)) \<and>
           (\<forall>i p f e q. el_poller (n_loops s'' i) = Some p \<longrightarrow> interest (ep_calls p) f = Some (e, q) \<longrightarrow>
              el_chans (n_loops s'' i) q \<noteq> None)"
    if "lp_loops (sv_thread_pool s) = []" "el_thread_id (n_loops s (sv_loop s)) = cur"
    using K wf s' that by (rule destroy_single_loop)
  moreover have "sv_conns s' = Map.empty" using d by simp
  ultimately show ?thesis using s'(1) body by blast
qed

theorem server_destroy_releases_all_witness:
  "\<exists>s s' c. server_reach os_accepting quiet_app s \<and> n_conns s 100 = Some c \<and>
     tcp_server_destroy os_accepting quiet_app 7 (\<lambda>_. Inr) [(1, 100)] s = Inr s' \<and> n_conns s' = Map.empty \<and>
     Close (tc_sockfd c) \<in> set (st_calls (n_socks s')) \<and> last (st_calls (n_socks s')) = Close 5"
proof -
  obtain s c where s: "server_reach os_accepting quiet_app s" "n_conns s 100 = Some c"
    "\<forall>i. el_pending_functors (n_loops s i) = []" "sv_conns s = [1 \<mapsto> 100]" "lp_loops (sv_thread_pool s) = []"
    "el_thread_id (n_loops s (sv_loop s)) = 7" "ac_sockfd (sv_acceptor s) = 5" by (rule accepted_reach)
  have "distinct (map fst [(1 :: 32 word, 100 :: nat)])" "map_of [(1, 100)] = sv_conns s" using s(4) by simp_all
  from server_destroy_releases_all [OF os_accepting_env s(1,3) this, of 7 "\<lambda>_. Inr"] s show ?thesis by auto
qed

end
