(* ===== verification/PoolEnd.thy ===== *)
theory PoolEnd
  imports ServerEnd
begin

text \<open>
  The end of a server with pool threads: \<^verbatim>\<open>~tcp_server\<close> hands the connections of the pool's loops to these loops
  and then joins their threads, which are waiting in \<^verbatim>\<open>epoll_wait\<close>.
\<close>

section \<open>The last turn of a loop\<close>

text \<open>
  A loop that waits when \<^verbatim>\<open>quit()\<close> is called is woken up by its eventfd, or \<^verbatim>\<open>epoll_wait\<close> fails or reports nothing.
  It ends its turn, and the \<^verbatim>\<open>while\<close> test finds \<^verbatim>\<open>quit_\<close> set.  What the thread does after that, the destruction
  of its own \<^verbatim>\<open>eloop\<close>, is in \<open>ELoopThread\<close>.
\<close>

definition wakes_only :: "'f eloop \<Rightarrow> errno + (32 word \<times> chan_ptr) list \<Rightarrow> bool" where
  "wakes_only l outcome \<longleftrightarrow> (\<forall>ready. outcome = Inr ready \<longrightarrow> ready = [] \<or>
     (\<exists>ev q ch. ready = [(ev, q)] \<and> el_chans l q = Some ch \<and> plain_chan ch \<and> ch_read_callback ch = Some Eloop_handle_read))"

definition finish_loop ::
    "os \<Rightarrow> app \<Rightarrow> (loop_ptr \<Rightarrow> errno + (32 word \<times> chan_ptr) list) \<Rightarrow> loop_ptr \<Rightarrow> tcp_server \<Rightarrow> tcp_server result" where
  "finish_loop k a outcome i s = server_turn k a i (outcome i) s"

text \<open>Nothing changes before the functors are run, but what \<^verbatim>\<open>poll\<close> and the eventfd do to the loop, and messages.\<close>

definition quietly :: "tcp_server \<Rightarrow> tcp_server \<Rightarrow> bool" where
  "quietly s s' \<longleftrightarrow> n_conns s' = n_conns s \<and> net.more s' = net.more s \<and> st_calls (n_socks s') = st_calls (n_socks s) \<and>
     (\<forall>j. el_pending_functors (n_loops s' j) = el_pending_functors (n_loops s j) \<and> el_quit (n_loops s' j) = el_quit (n_loops s j) \<and>
        (loop_wf (n_loops s j) \<longrightarrow> loop_wf (n_loops s' j)) \<and>
        (\<forall>q. rel_option (\<lambda>ch ch'. \<exists>ev. ch' = ch\<lparr>ch_revents := ev\<rparr>) (el_chans (n_loops s j) q) (el_chans (n_loops s' j) q)))"

lemma quietly_refl [simp]: "quietly s s"
  by (simp add: quietly_def)

lemma repolled_trans:
  assumes "rel_option (\<lambda>ch ch'. \<exists>ev. ch' = ch\<lparr>ch_revents := ev\<rparr>) x y" "rel_option (\<lambda>ch ch'. \<exists>ev. ch' = ch\<lparr>ch_revents := ev\<rparr>) y z"
  shows "rel_option (\<lambda>ch ch' :: chan. \<exists>ev. ch' = ch\<lparr>ch_revents := ev\<rparr>) x z"
  using assms by (cases x; cases y; cases z) auto

lemma quietly_trans:
  assumes "quietly s s'" "quietly s' s''"
  shows "quietly s s''"
proof -
  have "rel_option (\<lambda>ch ch'. \<exists>ev. ch' = ch\<lparr>ch_revents := ev\<rparr>) (el_chans (n_loops s j) q) (el_chans (n_loops s'' j) q)" for j q
    using assms unfolding quietly_def by (blast intro: repolled_trans)
  with assms show ?thesis by (simp add: quietly_def)
qed

lemma quietly_log [simp]: "quietly s (fold (\<lambda>m s. net_log (fst m) (snd m) s) msgs s)"
proof (induction msgs arbitrary: s)
  case (Cons m msgs)
  have "quietly s (net_log (fst m) (snd m) s)" by (simp add: quietly_def net_log_def)
  then show ?case using Cons.IH quietly_trans by simp
qed simp

lemma quietly_loop:
  assumes "el_pending_functors l = el_pending_functors (n_loops s i)" "el_quit l = el_quit (n_loops s i)"
    and "loop_wf (n_loops s i) \<longrightarrow> loop_wf l"
    and "\<And>q. rel_option (\<lambda>ch ch'. \<exists>ev. ch' = ch\<lparr>ch_revents := ev\<rparr>) (el_chans (n_loops s i) q) (el_chans l q)"
  shows "quietly s (put_loop i l s)"
  using assms by (simp add: quietly_def)

lemma wake_event:
  assumes "plain_chan ch" "ch_read_callback ch = Some Eloop_handle_read"
  shows "snd (handle_event alive ch) \<in> {[], [Eloop_handle_read]}"
proof -
  have "snd (handle_event_with_guard ch) \<in> {[], [Eloop_handle_read]}"
    using assms by (simp add: handle_event_with_guard_def plain_chan_def)
  then show ?thesis using handle_event_cases [of alive ch] by auto
qed

lemma wake_dispatch:
  assumes "el_chans (n_loops s i) q = Some ch" "plain_chan ch" "ch_read_callback ch = Some Eloop_handle_read"
  shows "\<exists>s'. server_dispatch k a i cur s q = Inr s' \<and> quietly s s'"
proof -
  obtain msgs cbs where ev: "handle_event (\<lambda>ptr. n_conns s ptr \<noteq> None) ch = (msgs, cbs)" by fastforce
  let ?s = "fold (\<lambda>m s. net_log (fst m) (snd m) s) msgs s"
  have cbs: "cbs = [] \<or> cbs = [Eloop_handle_read]" using wake_event [OF assms(2,3), of "\<lambda>ptr. n_conns s ptr \<noteq> None"] ev by auto
  have "quietly ?s (put_loop i (eloop_handle_read (k_eventfd k) (n_loops ?s i)) ?s)"
    by (rule quietly_loop)
      (auto simp: eloop_handle_read_def Let_def loop_wf_def split: prod.splits)
  then have "quietly s (put_loop i (eloop_handle_read (k_eventfd k) (n_loops ?s i)) ?s)" by (rule quietly_trans [OF quietly_log])
  then show ?thesis using assms(1) ev cbs by (auto simp: dispatch_chan_def run_chan_callback_def on_loop_def)
qed

lemma wake_turn:
  assumes "loop_wf (n_loops s i)" "wakes_only (n_loops s i) outcome"
  obtains s1 where "server_turn k a i outcome s = server_pending k a i (el_thread_id (n_loops s i)) s1" "quietly s s1"
proof (cases "\<exists>ev q. outcome = Inr [(ev, q)]")
  case True
  then obtain ev q ch where q: "outcome = Inr [(ev, q)]" "el_chans (n_loops s i) q = Some ch" "plain_chan ch"
    "ch_read_callback ch = Some Eloop_handle_read" using assms(2) by (auto simp: wakes_only_def)
  obtain l where l: "eloop_poll (Inr [(ev, q)]) (n_loops s i) = Inr l" "el_active_chs l = [q]"
    "el_chans l = (el_chans (n_loops s i))(q \<mapsto> chan_set_revents ch ev)" "loop_wf l"
    "el_pending_functors l = el_pending_functors (n_loops s i)" "el_thread_id l = el_thread_id (n_loops s i)"
    using assms(1) q(2) by (rule poll_one)
  have quit: "el_quit l = el_quit (n_loops s i)"
    using l(1) by (auto simp: eloop_poll_def bind_res_eq_Inr split: option.splits)
  have q1: "quietly s (put_loop i l s)"
    using l q(2) quit by (intro quietly_loop) (auto simp: chan_set_revents_def)
  obtain s1 where s1: "server_dispatch k a i (el_thread_id (n_loops s i)) (put_loop i l s) q = Inr s1" "quietly (put_loop i l s) s1"
    using wake_dispatch [of "put_loop i l s" i q "chan_set_revents ch ev" k a "el_thread_id (n_loops s i)"] l(3) q(3,4)
    by (auto simp: chan_set_revents_def plain_chan_def)
  have "server_turn k a i outcome s = server_pending k a i (el_thread_id (n_loops s i)) s1"
    using l(1,2) s1(1) q(1) by (simp add: server_turn_def loop_turn_def Let_def)
  then show thesis using quietly_trans [OF q1 s1(2)] by (rule that)
next
  case False
  then have none: "outcome = Inr [] \<or> (\<exists>e. outcome = Inl e)"
    using assms(2) by (cases outcome) (auto simp: wakes_only_def)
  obtain p where p: "el_poller (n_loops s i) = Some p" using assms(1) by (auto simp: loop_wf_def)
  let ?l = "(n_loops s i)\<lparr>el_active_chs := []\<rparr>"
  have poll: "eloop_poll outcome (n_loops s i) = Inr ?l"
    using none p by (elim disjE exE) (simp_all add: eloop_poll_def epoll_poll_def)
  have "quietly s (put_loop i ?l s)" by (intro quietly_loop) (simp_all add: loop_wf_def)
  moreover have "server_turn k a i outcome s = server_pending k a i (el_thread_id (n_loops s i)) (put_loop i ?l s)"
    using poll by (simp add: server_turn_def loop_turn_def Let_def)
  ultimately show thesis using that by blast
qed

section \<open>The connections that wait for their loop\<close>

text \<open>
  A connection of the server \<open>s0\<close> that still exists: the functor that destroys it waits, or is in the batch of
  functors \<open>gs\<close> that its loop has swapped out, of which \<open>fs\<close> have not been run.
\<close>

definition doomed :: "tid \<Rightarrow> tcp_server \<Rightarrow> conn_ptr list \<Rightarrow> conn_ptr list \<Rightarrow> tcp_server \<Rightarrow> conn_ptr \<Rightarrow> tcp_conn \<Rightarrow> bool" where
  "doomed cur s0 fs gs s p c \<longleftrightarrow>
     (\<exists>c0 ch. n_conns s0 p = Some c0 \<and> same_conn c0 c \<and> \<not> at_hand cur s0 c0 \<and> el_chans (n_loops s (tc_loop c)) (tc_ch c) = Some ch \<and>
        (p \<in> set gs \<longrightarrow> p \<notin> set fs \<longrightarrow> ch_index ch = DELETED)) \<and>
     (p \<in> set gs \<or> F_destroy_conn p \<in> set (el_pending_functors (n_loops s (tc_loop c))))"

text \<open>The batch is that of loop \<open>j\<close>; the loops in \<open>J\<close> are done.\<close>

definition draining ::
    "tid \<Rightarrow> tcp_server \<Rightarrow> loop_ptr set \<Rightarrow> loop_ptr \<Rightarrow> conn_ptr list \<Rightarrow> conn_ptr list \<Rightarrow> tcp_server \<Rightarrow> bool" where
  "draining cur s0 J j fs gs s \<longleftrightarrow>
     sv_conns s = Map.empty \<and> sv_acceptor s = sv_acceptor s0 \<and> sv_thread_pool s = sv_thread_pool s0 \<and>
     (\<forall>i. loop_wf (n_loops s i)) \<and>
     (\<forall>i \<in> J. el_quit (n_loops s i) \<and> el_pending_functors (n_loops s i) = []) \<and>
     (\<forall>i. distinct (el_pending_functors (n_loops s i)) \<and> (\<forall>f \<in> set (el_pending_functors (n_loops s i)).
        \<exists>p c. f = F_destroy_conn p \<and> n_conns s p = Some c \<and> tc_loop c = i \<and> p \<notin> set gs)) \<and>
     distinct fs \<and> distinct gs \<and> set fs \<subseteq> set gs \<and> (\<forall>p \<in> set gs. \<exists>c. n_conns s p = Some c \<and> tc_loop c = j) \<and>
     (\<forall>p c. n_conns s p = Some c \<longrightarrow> doomed cur s0 fs gs s p c) \<and>
     (\<forall>p c. n_conns s0 p = Some c \<longrightarrow> n_conns s p = None \<longrightarrow> Close (tc_sockfd c) \<in> set (st_calls (n_socks s))) \<and>
     (\<forall>i q ch. el_chans (n_loops s0 i) q = Some ch \<longrightarrow> plain_chan ch \<longrightarrow>
        (\<exists>ev. el_chans (n_loops s i) q = Some (ch\<lparr>ch_revents := ev\<rparr>)))"

lemma doomed_place:
  assumes "server_wf s0" "doomed cur s0 fs gs s p c" "doomed cur s0 fs gs s q e" "tc_loop c = tc_loop e" "tc_ch c = tc_ch e"
  shows "p = q"
proof -
  have "server_ok 0 [] [] {} s0" using assms(1) by (simp add: server_wf_def)
  moreover obtain c0 e0 where "n_conns s0 p = Some c0" "same_conn c0 c" "n_conns s0 q = Some e0" "same_conn e0 e"
    using assms(2,3) by (auto simp: doomed_def)
  ultimately show ?thesis using assms(4,5) server_ok_place by (simp add: same_conn_def)
qed

lemma doomed_not_plain:
  assumes "server_wf s0" "doomed cur s0 fs gs s p c" "el_chans (n_loops s0 i) q = Some ch" "plain_chan ch"
  shows "\<not> (i = tc_loop c \<and> q = tc_ch c)"
proof -
  obtain c0 where "n_conns s0 p = Some c0" "same_conn c0 c" using assms(2) by (auto simp: doomed_def)
  then show ?thesis using conn_not_plain [OF assms(1) _ assms(3,4)] by (simp add: same_conn_def)
qed

text \<open>Running one functor of the batch.\<close>

lemma draining_destroy:
  assumes "epoll_documented (k_ctl k)" "server_wf s0" "draining cur s0 J j (p # fs) gs s"
  shows "\<exists>s'. run_functor k a th s (F_destroy_conn p) = Inr s' \<and> draining cur s0 J j fs gs s'"
proof -
  note d = assms(3) [unfolded draining_def]
  obtain c where c: "n_conns s p = Some c" "tc_loop c = j" using d by auto
  have dc: "doomed cur s0 (p # fs) gs s p c" using d c(1) by blast
  then obtain ch where ch: "el_chans (n_loops s j) (tc_ch c) = Some ch" using c(2) by (auto simp: doomed_def)
  have wf: "loop_wf (n_loops s i)" for i using d by blast
  then have "conn_at s p c ch" using c ch by (auto simp: conn_at_def loop_wf_def)
  with assms(1) wf obtain c' l' ch' t where e:
    "destroy_conn k a th p s = Inr (s\<lparr>n_conns := (n_conns s)(p \<mapsto> c'), n_loops := (n_loops s)(tc_loop c := l'), n_calls := t\<rparr>)"
    "same_conn c c'" "loop_wf l'" "el_chans l' = (el_chans (n_loops s (tc_loop c)))(tc_ch c \<mapsto> ch')" "ch_index ch' = DELETED"
    "el_pending_functors l' = el_pending_functors (n_loops s (tc_loop c))" "el_quit l' = el_quit (n_loops s (tc_loop c))"
    by (rule destroy_conn_effect)
  let ?s = "s\<lparr>n_conns := (n_conns s)(p \<mapsto> c'), n_loops := (n_loops s)(tc_loop c := l'), n_calls := t\<rparr>"
  have c': "tc_loop c' = j" "tc_ch c' = tc_ch c" using e(2) c(2) by (simp_all add: same_conn_def)
  have pend: "el_pending_functors (n_loops ?s i) = el_pending_functors (n_loops s i)" for i using e(6) by simp
  have chans: "el_chans (n_loops ?s i) q = (if i = j \<and> q = tc_ch c then Some ch' else el_chans (n_loops s i) q)" for i q
    using e(4) c(2) by simp
  have "doomed cur s0 fs gs ?s q b" if q: "n_conns ?s q = Some b" for q b
  proof (cases "q = p")
    case True
    with q have "b = c'" by simp
    with dc True e(2,5) c' c(2) show ?thesis unfolding doomed_def pend chans by (auto simp: same_conn_def)
  next
    case False
    then have b: "n_conns s q = Some b" "doomed cur s0 (p # fs) gs s q b" using q d by auto
    then have "\<not> (tc_loop b = j \<and> tc_ch b = tc_ch c)" using doomed_place [OF assms(2) dc b(2)] False c(2) by auto
    with b(2) False show ?thesis unfolding doomed_def pend chans by auto
  qed
  moreover have "\<exists>ev. el_chans (n_loops ?s i) q = Some (x\<lparr>ch_revents := ev\<rparr>)"
    if x: "el_chans (n_loops s0 i) q = Some x" "plain_chan x" for i q x
    using doomed_not_plain [OF assms(2) dc x] d x c(2) unfolding chans by auto
  moreover have "\<exists>q b. f = F_destroy_conn q \<and> n_conns ?s q = Some b \<and> tc_loop b = i \<and> q \<notin> set gs"
    if f: "f \<in> set (el_pending_functors (n_loops s i))" for f i
  proof -
    obtain q b where "f = F_destroy_conn q" "n_conns s q = Some b" "tc_loop b = i" "q \<notin> set gs" using d f by blast
    moreover have "p \<in> set gs" using d by simp
    ultimately show ?thesis by auto
  qed
  moreover have "loop_wf (n_loops ?s i)" "el_quit (n_loops ?s i) = el_quit (n_loops s i)" for i
    using wf e(3,7) by simp_all
  moreover have "\<forall>q \<in> set gs. \<exists>b. n_conns ?s q = Some b \<and> tc_loop b = j" using d c' by auto
  ultimately have "draining cur s0 J j fs gs ?s" using d unfolding draining_def pend by simp
  with e(1) show ?thesis by (simp add: run_functor_def)
qed

lemma draining_batch:
  assumes "epoll_documented (k_ctl k)" "server_wf s0" "draining cur s0 J j fs gs s"
  shows "\<exists>s'. fold_res (run_functor k a th) s (map F_destroy_conn fs) = Inr s' \<and> draining cur s0 J j [] gs s'"
  using assms(3)
proof (induction fs arbitrary: s)
  case (Cons p fs)
  obtain s1 where "run_functor k a th s (F_destroy_conn p) = Inr s1" "draining cur s0 J j fs gs s1"
    using draining_destroy [OF assms(1,2) Cons.prems, of a th] by blast
  then show ?case using Cons.IH by simp
qed auto

text \<open>Releasing one functor of the batch: it held the last reference.\<close>

lemma draining_delete:
  assumes "server_wf s0" "draining cur s0 J j [] (p # gs) s" "n_conns s p = Some c"
  shows "\<exists>s'. tcp_conn_delete p s = Inr s' \<and> draining cur s0 J j [] gs s'"
proof -
  note d = assms(2) [unfolded draining_def]
  have dc: "doomed cur s0 [] (p # gs) s p c" using d assms(3) by blast
  then obtain c0 ch where ch: "n_conns s0 p = Some c0" "same_conn c0 c"
    "el_chans (n_loops s (tc_loop c)) (tc_ch c) = Some ch" "ch_index ch = DELETED" by (auto simp: doomed_def)
  have wf: "loop_wf (n_loops s i)" for i using d by blast
  then have at: "conn_at s p c ch" using assms(3) ch(3) by (auto simp: conn_at_def loop_wf_def)
  let ?l = "(n_loops s (tc_loop c))\<lparr>el_chans := (el_chans (n_loops s (tc_loop c)))(tc_ch c := None)\<rparr>"
  obtain s' where s': "tcp_conn_delete p s = Inr s'" "n_conns s' = (n_conns s)(p := None)" "net.more s' = net.more s"
    "n_loops s' = (n_loops s)(tc_loop c := ?l)" "st_calls (n_socks s') = st_calls (n_socks s) @ [Close (tc_sockfd c)]"
    using tcp_conn_delete_effect [OF at] by blast
  obtain q where "el_poller (n_loops s (tc_loop c)) = Some q" "chans_wf q (el_chans (n_loops s (tc_loop c)))"
    using wf by (auto simp: loop_wf_def)
  then have "loop_wf ?l"
    using chans_wf_del [of q "el_chans (n_loops s (tc_loop c))" "tc_ch c" ch] ch(3,4) by (simp add: loop_wf_def DELETED_def ADDED_def)
  then have wf': "loop_wf (n_loops s' i)" for i using wf s'(4) by simp
  have pend: "el_pending_functors (n_loops s' i) = el_pending_functors (n_loops s i)" "el_quit (n_loops s' i) = el_quit (n_loops s i)"
    for i using s'(4) by simp_all
  have chans: "el_chans (n_loops s' i) r = el_chans (n_loops s i) r" if "\<not> (i = tc_loop c \<and> r = tc_ch c)" for i r
    using that s'(4) by auto
  have "doomed cur s0 [] gs s' q b" if q: "n_conns s' q = Some b" for q b
  proof -
    have b: "q \<noteq> p" "n_conns s q = Some b" using q s'(2) by (auto split: if_splits)
    then have db: "doomed cur s0 [] (p # gs) s q b" using d by blast
    then have "\<not> (tc_loop b = tc_loop c \<and> tc_ch b = tc_ch c)" using doomed_place [OF assms(1) dc db] b(1) by auto
    with db b(1) show ?thesis unfolding doomed_def pend by (auto simp: chans)
  qed
  moreover have "\<exists>ev. el_chans (n_loops s' i) r = Some (x\<lparr>ch_revents := ev\<rparr>)"
    if x: "el_chans (n_loops s0 i) r = Some x" "plain_chan x" for i r x
    using chans [OF doomed_not_plain [OF assms(1) dc x]] d x by simp
  moreover have "\<exists>q b. f = F_destroy_conn q \<and> n_conns s' q = Some b \<and> tc_loop b = i \<and> q \<notin> set gs"
    if f: "f \<in> set (el_pending_functors (n_loops s i))" for f i
  proof -
    obtain q b where "f = F_destroy_conn q" "n_conns s q = Some b" "tc_loop b = i" "q \<notin> set (p # gs)" using d f by blast
    then show ?thesis using s'(2) by auto
  qed
  moreover have "Close (tc_sockfd b) \<in> set (st_calls (n_socks s'))" if "n_conns s0 q = Some b" "n_conns s' q = None" for q b
    using that d s'(2,5) ch(1,2) by (cases "q = p") (auto simp: same_conn_def)
  moreover have "\<forall>q \<in> set gs. \<exists>b. n_conns s' q = Some b \<and> tc_loop b = j" using d s'(2) by auto
  ultimately have "draining cur s0 J j [] gs s'" using d wf' more_sv [OF s'(3)] unfolding draining_def pend by simp
  with s'(1) show ?thesis by blast
qed

lemma draining_release:
  assumes "server_wf s0" "draining cur s0 J j [] gs s"
  shows "\<exists>s'. release_functors (map F_destroy_conn gs) s = Inr s' \<and> draining cur s0 J j [] [] s'"
  using assms(2)
proof (induction gs arbitrary: s)
  case (Cons p gs)
  note d = Cons.prems [unfolded draining_def]
  obtain c where c: "n_conns s p = Some c" using d by auto
  obtain s1 where s1: "tcp_conn_delete p s = Inr s1" "draining cur s0 J j [] gs s1"
    using draining_delete [OF assms(1) Cons.prems c] by blast
  have "functor_conn f \<noteq> Some p" if "f \<in> set (el_pending_functors (n_loops s i))" for f i
    using d that by fastforce
  then have "\<not> conn_referenced s p c" using d by (auto simp: conn_referenced_def list_ex_iff)
  moreover have "\<not> list_ex (\<lambda>g. functor_conn g = Some p) (map F_destroy_conn gs)" using d by (auto simp: list_ex_iff)
  ultimately show ?case using Cons.IH [OF s1(2)] c s1(1) by simp
qed auto

section \<open>The loops, one after the other\<close>

text \<open>A thread is woken and finishes: the functors of its loop have been run and released.\<close>

lemma draining_quietly:
  assumes "draining cur s0 J j [] [] s" "quietly s s'"
  shows "draining cur s0 J i [] [] s'"
proof -
  note d = assms(1) [unfolded draining_def] and q = assms(2) [unfolded quietly_def]
  have pend: "el_pending_functors (n_loops s' i) = el_pending_functors (n_loops s i)" "el_quit (n_loops s' i) = el_quit (n_loops s i)"
    "n_conns s' = n_conns s" "st_calls (n_socks s') = st_calls (n_socks s)" for i
    using q by simp_all
  have rel: "\<exists>ev. el_chans (n_loops s' i) r = Some (ch\<lparr>ch_revents := ev\<rparr>)" if "el_chans (n_loops s i) r = Some ch" for i r ch
  proof -
    have "rel_option (\<lambda>ch ch'. \<exists>ev. ch' = ch\<lparr>ch_revents := ev\<rparr>) (el_chans (n_loops s i) r) (el_chans (n_loops s' i) r)"
      using q by blast
    with that show ?thesis by (auto simp: option_rel_Some1)
  qed
  have "doomed cur s0 [] [] s' p c" if "n_conns s p = Some c" for p c
  proof -
    have "doomed cur s0 [] [] s p c" using d that by blast
    then show ?thesis unfolding doomed_def pend using rel by fastforce
  qed
  moreover have "\<exists>ev. el_chans (n_loops s' i) r = Some (ch\<lparr>ch_revents := ev\<rparr>)"
    if ch: "el_chans (n_loops s0 i) r = Some ch" "plain_chan ch" for i r ch
  proof -
    obtain ev where "el_chans (n_loops s i) r = Some (ch\<lparr>ch_revents := ev\<rparr>)" using d ch by blast
    from rel [OF this] show ?thesis by auto
  qed
  moreover have "loop_wf (n_loops s' i)" for i using d q by blast
  ultimately show ?thesis using d q more_sv [of s' s] unfolding draining_def pend by simp
qed

lemma draining_swap:
  assumes "draining cur s0 J j [] [] s" "el_quit (n_loops s j)"
  obtains ps where "el_pending_functors (n_loops s j) = map F_destroy_conn ps"
    "draining cur s0 (insert j J) j ps ps
       (put_loop j ((n_loops s j)\<lparr>el_pending_functors := [], el_calling_pending_functors := True\<rparr>) s)"
proof -
  note d = assms(1) [unfolded draining_def]
  let ?fs = "el_pending_functors (n_loops s j)"
  let ?s = "put_loop j ((n_loops s j)\<lparr>el_pending_functors := [], el_calling_pending_functors := True\<rparr>) s"
  have "\<forall>f \<in> set ?fs. \<exists>p. f = F_destroy_conn p" using d by blast
  then have "\<exists>ps. ?fs = map F_destroy_conn ps" by (simp add: ex_map_conv)
  then obtain ps where ps: "?fs = map F_destroy_conn ps" by blast
  have dist: "distinct ps" using d ps by (metis distinct_map)
  have own: "\<exists>c. n_conns s p = Some c \<and> tc_loop c = j" if "p \<in> set ps" for p
  proof -
    have "F_destroy_conn p \<in> set ?fs" using ps that by simp
    then show ?thesis using d by fastforce
  qed
  have pend: "el_pending_functors (n_loops ?s i) = (if i = j then [] else el_pending_functors (n_loops s i))"
    "el_quit (n_loops ?s i) = el_quit (n_loops s i)" "el_chans (n_loops ?s i) = el_chans (n_loops s i)"
    "loop_wf (n_loops ?s i) = loop_wf (n_loops s i)" for i
    by (simp_all add: loop_wf_def)
  have "doomed cur s0 ps ps ?s p c" if "n_conns s p = Some c" for p c
  proof -
    have "doomed cur s0 [] [] s p c" using d that by blast
    then show ?thesis using ps unfolding doomed_def pend by auto
  qed
  moreover have "\<exists>p c. f = F_destroy_conn p \<and> n_conns s p = Some c \<and> tc_loop c = i \<and> p \<notin> set ps"
    if f: "f \<in> set (el_pending_functors (n_loops s i))" "i \<noteq> j" for f i
  proof -
    obtain p c where p: "f = F_destroy_conn p" "n_conns s p = Some c" "tc_loop c = i" using d f by blast
    then show ?thesis using own [of p] f(2) by auto
  qed
  ultimately have "draining cur s0 (insert j J) j ps ps ?s" using d assms(2) dist own unfolding draining_def pend by simp
  with ps that show thesis by blast
qed

lemma draining_turn:
  assumes "epoll_documented (k_ctl k)" "server_wf s0" "draining cur s0 J i [] [] s" "el_quit (n_loops s j)"
    and "wakes_only (n_loops s j) outcome"
  shows "\<exists>s'. server_turn k a j outcome s = Inr s' \<and> draining cur s0 (insert j J) j [] [] s'"
proof -
  let ?cur = "el_thread_id (n_loops s j)"
  have "loop_wf (n_loops s j)" using assms(3) by (simp add: draining_def)
  then obtain s1 where s1: "server_turn k a j outcome s = server_pending k a j ?cur s1" "quietly s s1"
    using assms(5) by (rule wake_turn)
  have "draining cur s0 J j [] [] s1" using assms(3) s1(2) by (rule draining_quietly)
  moreover have "el_quit (n_loops s1 j)" using assms(4) s1(2) by (simp add: quietly_def)
  ultimately obtain ps where ps: "el_pending_functors (n_loops s1 j) = map F_destroy_conn ps"
    "draining cur s0 (insert j J) j ps ps
       (put_loop j ((n_loops s1 j)\<lparr>el_pending_functors := [], el_calling_pending_functors := True\<rparr>) s1)"
    (is "draining _ _ _ _ _ _ ?s1") by (rule draining_swap)
  obtain s2 where s2: "fold_res (run_functor k a ?cur) ?s1 (map F_destroy_conn ps) = Inr s2"
    "draining cur s0 (insert j J) j [] ps s2" using draining_batch [OF assms(1,2) ps(2)] by blast
  let ?s2 = "put_loop j (eloop_end_calling (n_loops s2 j)) s2"
  have same: "el_pending_functors (n_loops ?s2 i) = el_pending_functors (n_loops s2 i)" "el_quit (n_loops ?s2 i) = el_quit (n_loops s2 i)"
    "el_chans (n_loops ?s2 i) = el_chans (n_loops s2 i)" "loop_wf (n_loops ?s2 i) = loop_wf (n_loops s2 i)" for i
    by (simp_all add: eloop_end_calling_def loop_wf_def)
  have "draining cur s0 (insert j J) j [] ps ?s2" using s2(2) unfolding draining_def doomed_def same by simp
  then obtain s3 where s3: "release_functors (map F_destroy_conn ps) ?s2 = Inr s3" "draining cur s0 (insert j J) j [] [] s3"
    using draining_release [OF assms(2)] by blast
  have "eloop_swap_pending (eloop_begin_calling (n_loops s1 j)) =
      (map F_destroy_conn ps, (n_loops s1 j)\<lparr>el_pending_functors := [], el_calling_pending_functors := True\<rparr>)"
    using ps(1) by (simp add: eloop_swap_pending_def eloop_begin_calling_def)
  then have "server_pending k a j ?cur s1 = Inr s3" using s2(1) s3(1) by (simp add: do_pending_functors_def)
  with s1(1) s3(2) show ?thesis by auto
qed

text \<open>\<^verbatim>\<open>~eloop_thread\<close>: the loop is asked to quit and its thread joined.\<close>

lemma draining_quit:
  assumes "draining cur s0 J i [] [] s"
  shows "draining cur s0 J i [] [] (put_loop j (eloop_quit E cur (n_loops s j)) s)"
proof -
  let ?s = "put_loop j (eloop_quit E cur (n_loops s j)) s"
  have same: "el_pending_functors (n_loops ?s i) = el_pending_functors (n_loops s i)"
    "el_chans (n_loops ?s i) = el_chans (n_loops s i)" "loop_wf (n_loops ?s i) = loop_wf (n_loops s i)" for i
    by (simp_all add: eloop_quit_def eloop_set_quit_def loop_wf_def Let_def)
  have "el_quit (n_loops s i) \<Longrightarrow> el_quit (n_loops ?s i)" for i by (simp add: eloop_quit_def eloop_set_quit_def Let_def)
  with assms show ?thesis unfolding draining_def doomed_def same by simp
qed

lemma quits [simp]: "el_quit (eloop_quit E cur l)" "el_chans (eloop_quit E cur l) = el_chans l"
  by (simp_all add: eloop_quit_def eloop_set_quit_def Let_def)

lemma wakes_only_kept:
  assumes "draining cur s0 J i [] [] s" "wakes_only (n_loops s0 j) outcome" "el_chans l = el_chans (n_loops s j)"
  shows "wakes_only l outcome"
proof -
  have "\<exists>d. el_chans l q = Some d \<and> plain_chan d \<and> ch_read_callback d = Some Eloop_handle_read"
    if ch: "el_chans (n_loops s0 j) q = Some ch" "plain_chan ch" "ch_read_callback ch = Some Eloop_handle_read" for q ch
  proof -
    obtain ev where "el_chans (n_loops s j) q = Some (ch\<lparr>ch_revents := ev\<rparr>)"
      using assms(1) ch(1,2) unfolding draining_def by blast
    with ch(2,3) assms(3) show ?thesis by (simp add: plain_chan_def)
  qed
  note kept = this
  show ?thesis unfolding wakes_only_def
  proof (intro allI impI)
    fix ready assume "outcome = Inr ready"
    with assms(2) have "ready = [] \<or> (\<exists>ev q ch. ready = [(ev, q)] \<and> el_chans (n_loops s0 j) q = Some ch \<and> plain_chan ch \<and>
        ch_read_callback ch = Some Eloop_handle_read)" unfolding wakes_only_def by blast
    then show "ready = [] \<or> (\<exists>ev q ch. ready = [(ev, q)] \<and> el_chans l q = Some ch \<and> plain_chan ch \<and>
        ch_read_callback ch = Some Eloop_handle_read)"
      by (elim disjE exE conjE) (simp, use kept in blast)
  qed
qed

lemma draining_join:
  assumes "epoll_documented (k_ctl k)" "server_wf s0" "draining cur s0 J i [] [] s" "et_loop (fst item)"
    and "wakes_only (n_loops s0 (snd item)) (outcome (snd item))"
  shows "\<exists>s'. server_quit_loop k cur (finish_loop k a outcome) s item = Inr s' \<and>
    draining cur s0 (insert (snd item) J) (snd item) [] [] s'"
proof -
  let ?j = "snd item"
  let ?s = "put_loop ?j (eloop_quit (k_eventfd k) cur (n_loops s ?j)) s"
  have "draining cur s0 J i [] [] ?s" using assms(3) by (rule draining_quit)
  moreover have "wakes_only (n_loops ?s ?j) (outcome ?j)" using assms(3,5) by (rule wakes_only_kept) simp
  ultimately obtain s' where "server_turn k a ?j (outcome ?j) ?s = Inr s'" "draining cur s0 (insert ?j J) ?j [] [] s'"
    using draining_turn [OF assms(1,2), of cur J i ?s ?j "outcome ?j" a] by auto
  then show ?thesis using assms(4) by (auto simp: server_quit_loop_def finish_loop_def)
qed

lemma draining_join_all:
  assumes "epoll_documented (k_ctl k)" "server_wf s0" "draining cur s0 J i [] [] s"
    and "\<forall>item \<in> set items. et_loop (fst item) \<and> wakes_only (n_loops s0 (snd item)) (outcome (snd item))"
  shows "\<exists>s' i'. fold_res (server_quit_loop k cur (finish_loop k a outcome)) s items = Inr s' \<and>
    draining cur s0 (J \<union> snd ` set items) i' [] [] s'"
  using assms(3,4)
proof (induction items arbitrary: s J i)
  case (Cons item items)
  obtain s1 where s1: "server_quit_loop k cur (finish_loop k a outcome) s item = Inr s1"
    "draining cur s0 (insert (snd item) J) (snd item) [] [] s1"
    using draining_join [OF assms(1,2) Cons.prems(1), of item outcome a] Cons.prems(2) by auto
  from Cons.IH [OF s1(2)] Cons.prems(2) obtain s2 i' where "fold_res (server_quit_loop k cur (finish_loop k a outcome)) s1 items = Inr s2"
    "draining cur s0 (insert (snd item) J \<union> snd ` set items) i' [] [] s2" by auto
  with s1(1) show ?case by auto
qed auto

text \<open>What the body of the destructor leaves.\<close>

lemma dropping_draining:
  assumes "server_wf s0" "dropping cur s0 [] s"
  shows "draining cur s0 {} i [] [] s"
proof -
  note d = assms(2) [unfolded dropping_def]
  have ok: "server_ok 0 [] [] {} s0" using assms(1) by (simp add: server_wf_def)
  have old: "n_conns s0 p = Some c \<and> \<not> at_hand cur s0 c" if "n_conns s p = Some c" for p c
    using d that by (cases "n_conns s0 p") (auto split: if_splits)
  have "doomed cur s0 [] [] s p c" if p: "n_conns s p = Some c" for p c
  proof -
    obtain ch where "el_chans (n_loops s0 (tc_loop c)) (tc_ch c) = Some ch"
      using ok old [OF p] by (blast elim: server_ok_conn)
    moreover have "el_chans (n_loops s (tc_loop c)) (tc_ch c) = el_chans (n_loops s0 (tc_loop c)) (tc_ch c)"
      using d p by blast
    ultimately show ?thesis using d old [OF p] by (simp add: doomed_def same_conn_def)
  qed
  moreover have "\<exists>p c. f = F_destroy_conn p \<and> n_conns s p = Some c \<and> tc_loop c = j"
    if f: "f \<in> set (el_pending_functors (n_loops s j))" for f j
  proof -
    have "handed cur s0 [] j f" using d f by blast
    then obtain p c where "f = F_destroy_conn p" "n_conns s0 p = Some c" "tc_loop c = j" "\<not> at_hand cur s0 c"
      by (auto simp: handed_def)
    then show ?thesis using d by simp
  qed
  moreover have "Close (tc_sockfd c) \<in> set (st_calls (n_socks s))" if "n_conns s0 p = Some c" "n_conns s p = None" for p c
    using d that by (auto split: if_splits)
  moreover have "\<exists>ev. el_chans (n_loops s j) q = Some (ch\<lparr>ch_revents := ev\<rparr>)"
    if "el_chans (n_loops s0 j) q = Some ch" "plain_chan ch" for j q ch
    using d that by (intro exI [of _ "ch_revents ch"]) simp
  ultimately show ?thesis using d unfolding draining_def by simp
qed

section \<open>A run\<close>

text \<open>A loop with its wake-up channel registered, as \<^verbatim>\<open>eloop\<close>'s constructor leaves it; every loop in a thread of its own.\<close>

definition woken_loop :: "tid \<Rightarrow> loop_functor eloop" where
  "woken_loop th = loop_example\<lparr>el_thread_id := th,
     el_poller := Some \<lparr>ep_chs = [4 \<mapsto> 0], ep_nevents = 16,
       ep_calls = [\<lparr>ctl_operation = EPOLL_CTL_ADD, ctl_fd = 4, ctl_events = READ_EVENT, ctl_ptr = 0\<rparr>], ep_log = []\<rparr>,
     el_chans := [0 \<mapsto> (chan_new 4)\<lparr>ch_read_callback := Some Eloop_handle_read, ch_events := READ_EVENT, ch_index := ADDED\<rparr>]\<rparr>"

definition threaded_net :: net where
  "threaded_net = net_example\<lparr>n_loops := (\<lambda>i. woken_loop (7 + int i))\<rparr>"

lemma threaded_fresh: "fresh_net 99 5 threaded_net"
proof -
  have "chans_wf \<lparr>ep_chs = [4 \<mapsto> 0], ep_nevents = 16,
       ep_calls = [\<lparr>ctl_operation = EPOLL_CTL_ADD, ctl_fd = 4, ctl_events = READ_EVENT, ctl_ptr = 0\<rparr>], ep_log = []\<rparr>
     [0 \<mapsto> (chan_new 4)\<lparr>ch_read_callback := Some Eloop_handle_read, ch_events := READ_EVENT, ch_index := ADDED\<rparr>]"
    by (auto simp: chans_wf_def chan_synced_def interest_def chan_new_def NEW_def ADDED_def DELETED_def split: if_splits)
  then have "loop_wf (woken_loop th)" for th by (simp add: loop_wf_def woken_loop_def)
  then show ?thesis
    by (simp add: fresh_net_def fresh_loop_def threaded_net_def net_example_def plain_chan_def)
      (simp add: woken_loop_def loop_example_def chan_new_def)
qed

lemma pool_of_one:
  obtains p where "eloop_tpool_start False (\<lambda>i. i + 1) (eloop_tpool_set_thread_num (eloop_tpool_new 0 ''srv'') 1) = Inr p"
    "lp_loops p = [1]" "lp_next_idx p = 0" "length (lp_threads p) = 1" "\<forall>et \<in> set (lp_threads p). et_loop et"
proof -
  let ?p = "(eloop_tpool_set_thread_num (eloop_tpool_new 0 ''srv'') 1)\<lparr>lp_started := True\<rparr>"
  have "NUL \<notin> set (lp_name ?p)" "(1 :: nat) \<le> 10 ^ 10" "lp_threads ?p = []" "lp_loops ?p = []"
    by (auto simp: eloop_tpool_new_def eloop_tpool_set_thread_num_def NUL_def)
  then obtain ets where ets: "fold_res (eloop_tpool_spawn False (\<lambda>i. i + 1)) ?p [0..<1] =
      Inr (?p\<lparr>lp_threads := ets, lp_loops := map (\<lambda>i. i + 1) [0..<1]\<rparr>)" "length ets = 1"
    "\<forall>i < 1. pool_thread False (lp_name ?p) i (ets ! i)" using eloop_tpool_spawn_all by blast
  then have "\<forall>et \<in> set ets. et_loop et" by (auto simp: length_Suc_conv pool_thread_def)
  then show thesis using ets(1,2)
    by (intro that [of "?p\<lparr>lp_threads := ets, lp_loops := map (\<lambda>i. i + 1) [0..<1]\<rparr>"])
      (simp_all add: eloop_tpool_start_def eloop_tpool_new_def eloop_tpool_set_thread_num_def Let_def)
qed

text \<open>The server listens, with one pool thread.\<close>

definition pool_server :: "eloop_tpool \<Rightarrow> sock_trace \<Rightarrow> tcp_server" where
  "pool_server p t = listening_server\<lparr>n_loops := (\<lambda>i. woken_loop (7 + int i))(0 := (woken_loop 7)\<lparr>
       el_poller := Some \<lparr>ep_chs = [4 \<mapsto> 0, 5 \<mapsto> 99], ep_nevents = 16,
         ep_calls = [\<lparr>ctl_operation = EPOLL_CTL_ADD, ctl_fd = 4, ctl_events = READ_EVENT, ctl_ptr = 0\<rparr>,
           \<lparr>ctl_operation = EPOLL_CTL_ADD, ctl_fd = 5, ctl_events = READ_EVENT, ctl_ptr = 99\<rparr>], ep_log = []\<rparr>,
       el_chans := (el_chans (woken_loop 7))(99 \<mapsto> (chan_new 5)\<lparr>ch_read_callback := Some Acceptor_handle_read,
         ch_events := READ_EVENT, ch_index := ADDED\<rparr>)\<rparr>),
     n_socks := t, sv_thread_pool := p\<rparr>"

lemma pool_server_start:
  assumes "eloop_tpool_start False (\<lambda>i. i + 1) (eloop_tpool_set_thread_num (eloop_tpool_new 0 ''srv'') 1) = Inr p"
  shows "\<exists>s t. tcp_server_new os_accepting (Some 0) sockaddr_zero ''srv'' True 5 99 threaded_net = Inr s \<and>
      tcp_server_start os_accepting 7 (\<lambda>i. i + 1) (tcp_server_set_thread_num s 1) = Inr (pool_server p t)"
  using assms
  by (simp add: threaded_net_def woken_loop_def pool_server_def listening_defs chan_update_defs
        tcp_server_new_def check_main_loop_not_null_def acceptor_new_ok tcp_server_start_def
        eloop_is_in_loop_thread_def server_listen_def acceptor_listen_def tcp_server_set_thread_num_def
        socket_listen_def sys_call_def Let_def)

lemma pool_server_poll: "poll_possible (Inr [(READ_EVENT, 99)]) (n_loops (pool_server p t) 0)"
proof -
  have "interest (ep_calls p') 5 = Some (READ_EVENT, 99)" if "el_poller (n_loops (pool_server p t) 0) = Some p'" for p'
    using that by (auto simp: pool_server_def listening_defs interest_def)
  then show ?thesis by (auto simp: poll_possible_def)
qed

lemma pool_server_accept: "accept_fresh os_accepting (pool_server p t)"
  by (simp add: accept_fresh_def fresh_for_def pool_server_def woken_loop_def listening_defs)

text \<open>A client is accepted in the main loop, which wakes the loop of the pool to establish the connection.\<close>

lemma pool_server_turns:
  assumes "lp_loops p = [1]" "lp_next_idx p = 0"
  shows "\<exists>s2 s3 c. server_turn os_accepting quiet_app 0 (Inr [(READ_EVENT, 99)]) (pool_server p t) = Inr s2 \<and>
     server_turn os_accepting quiet_app 1 (Inr [(READ_EVENT, 0)]) s2 = Inr s3 \<and> accept_fresh os_accepting s2 \<and>
     poll_possible (Inr [(READ_EVENT, 0)]) (n_loops s2 1) \<and>
     n_conns s3 100 = Some c \<and> tc_loop c = 1 \<and> tc_sockfd c = 6 \<and> (\<forall>i. el_pending_functors (n_loops s3 i) = []) \<and>
     sv_conns s3 = [1 \<mapsto> 100] \<and> sv_thread_pool s3 = p \<and> sv_loop s3 = 0 \<and> el_thread_id (n_loops s3 0) = 7 \<and>
     ac_sockfd (sv_acceptor s3) = 5 \<and> wakes_only (n_loops s3 1) (Inr [(READ_EVENT, 0)])"
proof -
  have "CHEAP_PREPEND + INITIAL_SIZE \<le> vector_max_size"
    by (simp add: CHEAP_PREPEND_def INITIAL_SIZE_def vector_max_size_def)
  then obtain b where b: "buffer_new INITIAL_SIZE = Inr b" by (rule buffer_new_ok)
  have p: "p\<lparr>lp_next_idx := 0\<rparr> = p" using assms(2) by simp
  show ?thesis using assms
    by (simp add: b p woken_loop_def pool_server_def listening_defs chan_update_defs turn_run_defs accept_fresh_def
        net_queue_def eloop_queue_in_loop_def eloop_push_def eloop_wakeup_def eloop_handle_read_def eventfd_manual_def
        run_functor_def poll_possible_def wakes_only_def plain_chan_def conn_referenced_def)
qed

section \<open>Property\<close>



end
