(* ===== verification/TurnInv.thy ===== *)
theory TurnInv
  imports ServerReach
begin

text \<open>
  How to prove that a property of a server is kept by all that its loops do: it is enough to look at each callback
  of a channel and each functor alone, and at \<^verbatim>\<open>eloop\<close>'s own changes of the loops.  Applications of the library
  use this for their own invariants, as \<^verbatim>\<open>EchoServer\<close> does.
\<close>

section \<open>Invariants of turns\<close>

text \<open>
  A property \<open>E\<close> of a server that every callback and every functor keeps, where functors of a kind \<open>G\<close> wait
  only, is kept by turns.  The handler of a read event may use that it runs at home and after \<^verbatim>\<open>establish_conn\<close>.
\<close>

locale turn_invariant =
  fixes k :: os and a :: app and E :: "tcp_server \<Rightarrow> bool" and G :: "loop_functor \<Rightarrow> bool"
  assumes E_log: "E (net_log lv m s) = E s"
    and E_loop: "E s \<Longrightarrow> set (el_pending_functors l) \<subseteq> set (el_pending_functors (n_loops s i)) \<Longrightarrow>
      E (s\<lparr>n_loops := (n_loops s)(i := l)\<rparr>)"
    and E_pending: "E s \<Longrightarrow> f \<in> set (el_pending_functors (n_loops s i)) \<Longrightarrow> G f"
    and E_callback: "E s \<Longrightarrow> (\<And>ptr c. cb = Conn_handle_read ptr \<Longrightarrow> n_conns s ptr = Some c \<Longrightarrow>
        eloop_is_in_loop_thread cur (n_loops s (tc_loop c)) \<and> tc_state c \<noteq> CONNENTING) \<Longrightarrow>
      yields (run_chan_callback k a i cur s cb) E"
    and E_functor: "E s \<Longrightarrow> G f \<Longrightarrow> (\<And>ptr c. f = F_establish_conn ptr \<Longrightarrow> n_conns s ptr = Some c \<Longrightarrow>
        tc_state c = CONNENTING) \<Longrightarrow> yields (run_functor k a cur s f) E"
    and E_release: "E s \<Longrightarrow> yields (release_functors fs s) E"
begin

lemma logged: "E (fold (\<lambda>m s. net_log (fst m) (snd m) s) msgs s) = E s"
  by (induction msgs arbitrary: s) (simp_all add: E_log)

lemma one_callback:
  assumes "server_ok i fs held X s" "E s" "armed s j cb" "el_thread_id (n_loops s j) = cur"
  shows "yields (run_chan_callback k a j cur s cb) E"
proof (rule E_callback [OF assms(2)])
  fix ptr c assume cb: "cb = Conn_handle_read ptr" and c: "n_conns s ptr = Some c"
  obtain e where "n_conns s ptr = Some e" "tc_loop e = j" "tc_state e \<noteq> CONNENTING"
    using assms(1,3) by (rule armed_conn [where ptr = ptr]) (simp add: cb)
  with c assms(4) show "eloop_is_in_loop_thread cur (n_loops s (tc_loop c)) \<and> tc_state c \<noteq> CONNENTING"
    by (simp add: eloop_is_in_loop_thread_def)
qed

lemma callbacks:
  assumes env: "env_ok k a" and "server_ok i fs held X s" "E s" "\<forall>cb \<in> set cbs. armed s j cb" "Acceptor_handle_read \<notin> set cbs"
    and "el_thread_id (n_loops s j) = cur"
  shows "yields (fold_res (run_chan_callback k a j cur) s cbs) E"
  using assms(2-)
proof (induction cbs arbitrary: s)
  case (Cons cb cbs)
  have cb: "armed s j cb" "cb \<noteq> Acceptor_handle_read" using Cons.prems(3,4) by auto
  show ?case
  proof (cases "run_chan_callback k a j cur s cb")
    case (Inr s1)
    then have s1: "server_ok i fs held X s1" "steady s s1"
      using ok_chan_callback [OF env Cons.prems(1) cb(1) Cons.prems(5) cb(2)] by simp_all
    have "E s1" using one_callback [OF Cons.prems(1,2) cb(1) Cons.prems(5)] Inr by simp
    moreover have "\<forall>cb \<in> set cbs. armed s1 j cb" using Cons.prems(3) armed_grows [OF _ steady_grows [OF s1(2)]] by simp
    moreover have "el_thread_id (n_loops s1 j) = cur" using s1(2) Cons.prems(5) by (simp add: steady_def)
    ultimately have "yields (fold_res (run_chan_callback k a j cur) s1 cbs) E" using s1(1) Cons.prems(4) by (intro Cons.IH) simp_all
    with Inr show ?thesis by simp
  qed simp
qed simp

lemma dispatched:
  assumes env: "env_ok k a" and "server_ok i fs held X s" "E s" "el_chans (n_loops s j) q = Some ch" "ch_index ch = ADDED"
    and "el_thread_id (n_loops s j) = cur"
  shows "yields (server_dispatch k a j cur s q) E"
proof -
  obtain msgs cbs where ev: "handle_event (\<lambda>ptr. n_conns s ptr \<noteq> None) ch = (msgs, cbs)" by fastforce
  let ?s = "fold (\<lambda>m s. net_log (fst m) (snd m) s) msgs s"
  have s: "server_ok i fs held X ?s" "E ?s" "steady s ?s" using assms(2,3) by (simp_all add: logged)
  have arm: "\<forall>cb \<in> set cbs. armed ?s j cb"
    using handle_event_callbacks [of "\<lambda>ptr. n_conns s ptr \<noteq> None" ch] ev assms(4,5)
    by (intro ballI armed_grows [OF _ steady_grows [OF s(3)]]) (auto simp: armed_def)
  have thread: "el_thread_id (n_loops ?s j) = cur" using s(3) assms(6) by (simp add: steady_def)
  have "yields (fold_res (run_chan_callback k a j cur) ?s cbs) E"
  proof (cases "Acceptor_handle_read \<in> set cbs")
    case True
    with acceptor_events [OF assms(2,4) ev] have cbs: "cbs = [Acceptor_handle_read]" by simp
    then have "yields (run_chan_callback k a j cur ?s Acceptor_handle_read) E"
      using one_callback [OF s(1,2) _ thread] arm by simp
    then show ?thesis unfolding cbs by (cases "run_chan_callback k a j cur ?s Acceptor_handle_read") simp_all
  qed (rule callbacks [OF env s(1,2) arm _ thread])
  then show ?thesis using assms(4) ev by (simp add: dispatch_chan_def)
qed

lemma all_dispatched:
  assumes env: "env_ok k a" and "server_ok i fs held X s" "E s" "\<forall>q \<in> set qs. \<exists>ch. el_chans (n_loops s j) q = Some ch \<and> ch_index ch = ADDED"
    and "distinct qs" "el_thread_id (n_loops s j) = cur" "\<exists>q \<in> set qs. listener s j q \<Longrightarrow> accept_fresh k s"
  shows "yields (fold_res (server_dispatch k a j cur) s qs) E"
  using assms(2-)
proof (induction qs arbitrary: s)
  case (Cons q qs)
  obtain ch where ch: "el_chans (n_loops s j) q = Some ch" "ch_index ch = ADDED" using Cons.prems(3) by auto
  show ?case
  proof (cases "server_dispatch k a j cur s q")
    case (Inr s1)
    have E1: "E s1" using dispatched [OF env Cons.prems(1,2) ch Cons.prems(5)] Inr by simp
    have s1: "server_ok i fs held X s1" "grows s s1" "\<not> listener s j q \<longrightarrow> steady s s1"
      using ok_dispatch [OF env Cons.prems(1) ch Cons.prems(5)] Cons.prems(6) Inr by simp_all
    have "\<forall>q \<in> set qs. \<exists>ch. el_chans (n_loops s1 j) q = Some ch \<and> ch_index ch = ADDED"
      using Cons.prems(3) s1(2) by (rule dispatch_live)
    moreover have "el_thread_id (n_loops s1 j) = cur" using s1(2) Cons.prems(5) by (simp add: grows_def)
    moreover have "accept_fresh k s1" if "\<exists>q' \<in> set qs. listener s1 j q'"
      using Cons.prems(4,6) s1(2,3) that by (rule dispatch_fresh)
    ultimately have "yields (fold_res (server_dispatch k a j cur) s1 qs) E"
      using E1 s1(1) Cons.prems(4) by (intro Cons.IH) auto
    with Inr show ?thesis by simp
  qed simp
qed simp

lemma one_functor:
  assumes "server_ok i (f # fs) held {} s" "E s" "G f"
  shows "yields (run_functor k a cur s f) E"
proof (rule E_functor [OF assms(2,3)])
  fix ptr c assume "f = F_establish_conn ptr" "n_conns s ptr = Some c"
  with waits_ok [OF assms(1)] show "tc_state c = CONNENTING" by (auto simp: functor_ok_def)
qed

lemma batch_run:
  assumes env: "env_ok k a" and "server_ok i fs held {} s" "set fs \<subseteq> set held" "el_thread_id (n_loops s i) = cur" "E s" "\<forall>f \<in> set fs. G f"
  shows "yields (fold_res (run_functor k a cur) s fs) E"
  using assms(2-)
proof (induction fs arbitrary: s)
  case (Cons f fs)
  show ?case
  proof (cases "run_functor k a cur s f")
    case (Inr s1)
    have "E s1" using one_functor [OF Cons.prems(1,4)] Cons.prems(5) Inr by (metis list.set_intros(1) yields_simps(1))
    moreover have "server_ok i fs held {} s1" "el_thread_id (n_loops s1 i) = cur"
      using ok_functor [OF env Cons.prems(1) _ Cons.prems(3)] Cons.prems(2,3) Inr by simp_all
    ultimately have "yields (fold_res (run_functor k a cur) s1 fs) E" using Cons.prems(2,5) by (intro Cons.IH) simp_all
    with Inr show ?thesis by simp
  qed simp
qed simp

lemma pending_run:
  assumes env: "env_ok k a" and "server_ok i [] [] {} s" "E s" "el_thread_id (n_loops s i) = cur"
  shows "yields (do_pending_functors (\<lambda>s. n_loops s i) (put_loop i) (run_functor k a cur) release_functors s) E"
proof -
  let ?fs = "el_pending_functors (n_loops s i)"
  let ?l = "(n_loops s i)\<lparr>el_pending_functors := [], el_calling_pending_functors := True\<rparr>"
  have "server_ok i ?fs ?fs {} (put_loop i ?l s)" using ok_swap [OF assms(2)] .
  moreover have "E (put_loop i ?l s)" using assms(3) by (intro E_loop) simp_all
  ultimately have "yields (fold_res (run_functor k a cur) (put_loop i ?l s) ?fs) E"
    using assms(3,4) by (intro batch_run [OF env]) (auto intro: E_pending)
  moreover have "yields (release_functors ?fs (put_loop i (eloop_end_calling (n_loops s1 i)) s1)) E" if "E s1" for s1
    using that by (intro E_release E_loop) (simp_all add: eloop_end_calling_def)
  ultimately have "yields (bind_res (fold_res (run_functor k a cur) (put_loop i ?l s) ?fs)
      (\<lambda>s1. release_functors ?fs (put_loop i (eloop_end_calling (n_loops s1 i)) s1))) E" by (rule yields_bindI)
  moreover have "eloop_swap_pending (eloop_begin_calling (n_loops s i)) = (?fs, ?l)"
    by (simp add: eloop_swap_pending_def eloop_begin_calling_def)
  ultimately show ?thesis by (simp add: do_pending_functors_def)
qed

lemma turn_kept:
  assumes env: "env_ok k a" and "server_wf s" "E s" "poll_possible outcome (n_loops s i)" "accept_fresh k s" "server_turn k a i outcome s = Inr s'"
  shows "E s'"
proof -
  let ?cur = "el_thread_id (n_loops s i)"
  have s: "server_ok i [] [] {} s" using assms(2) by (simp add: server_wf_ok [of _ i])
  obtain l where l: "eloop_poll outcome (n_loops s i) = Inr l" "loop_wf l"
    "\<forall>q. rel_option (\<lambda>ch ch'. \<exists>ev. ch' = ch\<lparr>ch_revents := ev\<rparr>) (el_chans (n_loops s i) q) (el_chans l q)"
    "el_pending_functors l = el_pending_functors (n_loops s i)" "el_thread_id l = ?cur"
    "\<forall>q \<in> set (el_active_chs l). \<exists>ch. el_chans l q = Some ch \<and> ch_index ch = ADDED" "distinct (el_active_chs l)"
    by (rule eloop_poll_wf [OF server_ok_wf [OF s] assms(4)])
  let ?s1 = "put_loop i l s"
  have s1: "server_ok i [] [] {} ?s1" "steady s ?s1" using l(3) by (auto intro: ok_poll [OF s l(2,4,5)])
  have E1: "E ?s1" using assms(3) l(4) by (intro E_loop) simp_all
  let ?run = "fold_res (server_dispatch k a i ?cur) ?s1 (el_active_chs l)"
  have E2: "yields ?run E" using l(5-7) accept_fresh_steady [OF assms(5) s1(2)]
    by (intro all_dispatched [OF env s1(1) E1]) simp_all
  have ok2: "ensures ?run (\<lambda>s'. server_ok i [] [] {} s' \<and> grows ?s1 s')"
    using l(5-7) accept_fresh_steady [OF assms(5) s1(2)] by (intro ok_dispatch_all [OF env s1(1)]) simp_all
  have "yields (bind_res ?run (do_pending_functors (\<lambda>s. n_loops s i) (put_loop i) (run_functor k a ?cur) release_functors)) E"
    using E2 ok2 l(5) by (cases ?run) (auto intro!: pending_run [OF env] simp: grows_def)
  then have "yields (server_turn k a i outcome s) E"
    using l(1) by (simp add: server_turn_def loop_turn_def Let_def)
  with assms(6) show ?thesis by simp
qed

end

end
