(* ===== verification/EchoServer.thy ===== *)
theory EchoServer
  imports TurnInv
begin

text \<open>
  The example server of the library, \<^verbatim>\<open>test/tcp_server_test.cpp\<close>, which sends back what it receives, and the
  proof that it does: a statement about the whole of the library, from \<^verbatim>\<open>readv\<close> over the callbacks to \<^verbatim>\<open>write\<close>.
\<close>

section \<open>Model\<close>

text \<open>
  \<^verbatim>\<open>on_message\<close> takes all of the buffer as a string and sends it; \<open>msg\<close> is what the buffer holds, and the
  string is local, at any address.  \<^verbatim>\<open>on_connnect\<close> does nothing but log, and messages of the application are
  not recorded.
\<close>

definition on_message :: "conn_ptr \<Rightarrow> string \<Rightarrow> action list" where
  "on_message conn msg = [A_retrieve (length msg), A_send 0 msg]"

lemma on_message_retrieves:
  assumes "buf_inv b"
  shows "retrieve_all_as_string b = Inr (contents b, retrieve b (length (contents b)))"
  using assms by (auto simp: retrieve_all_as_string_def retrieve_as_string_def readable_contents)
    (auto simp: contents_def buf_inv_def)

definition echo_app :: app where
  "echo_app = \<lparr>a_conn = (\<lambda>_ _. []), a_msg = on_message, a_write_complete = (\<lambda>_. []), a_high_water_mark = (\<lambda>_ _. [])\<rparr>"

definition echo_server_new ::
    "os \<Rightarrow> loop_ptr \<Rightarrow> sockaddr_in \<Rightarrow> string \<Rightarrow> fd \<Rightarrow> conn_ptr \<Rightarrow> net \<Rightarrow> tcp_server result" where
  "echo_server_new k loop addr name sockfd next_ptr w =
     bind_res (tcp_server_new k (Some loop) addr name False sockfd next_ptr w) (\<lambda>s.
     Inr (tcp_server_set_thread_num (tcp_server_set_msg_callback (tcp_server_set_conn_callback s True) True) 3))"

text \<open>The program: construction, \<^verbatim>\<open>start\<close>, and the loops.\<close>

inductive echo_reach :: "os \<Rightarrow> tcp_server \<Rightarrow> bool" for k where
  start: "fresh_net next_ptr sockfd w \<Longrightarrow> echo_server_new k loop addr name sockfd next_ptr w = Inr s \<Longrightarrow>
     tcp_server_start k cur new_loop s = Inr s' \<Longrightarrow> echo_reach k s'"
| turn: "echo_reach k s \<Longrightarrow> poll_possible outcome (n_loops s i) \<Longrightarrow> accept_fresh k s \<Longrightarrow>
     server_turn k echo_app i outcome s = Inr s' \<Longrightarrow> echo_reach k s'"

lemma echo_app_ok [simp]: "app_ok echo_app"
  by (simp add: app_ok_def echo_app_def on_message_def sendable_def)

lemma echo_app_simps [simp]:
  "a_conn echo_app ptr st = []" "a_msg echo_app = on_message" "a_write_complete echo_app ptr = []"
  "a_high_water_mark echo_app ptr n = []"
  by (simp_all add: echo_app_def)

lemma echo_server_reach: "echo_reach k s \<Longrightarrow> server_reach k echo_app s"
proof (induction rule: echo_reach.induct)
  case (start next_ptr sockfd w loop addr name s cur new_loop s')
  then obtain s0 where s0: "tcp_server_new k (Some loop) addr name False sockfd next_ptr w = Inr s0"
    "s = tcp_server_set_thread_num (tcp_server_set_msg_callback (tcp_server_set_conn_callback s0 True) True) 3"
    by (auto simp: echo_server_new_def bind_res_eq_Inr)
  have "server_reach k echo_app s"
    unfolding s0(2)
    by (intro server_reach.set_thread_num server_reach.set_msg_callback server_reach.set_conn_callback
        server_reach.construct [OF start(1) s0(1)])
  then show ?case using start(3) by (rule server_reach.start)
qed (rule server_reach.turn)

section \<open>What the echo server keeps\<close>

text \<open>
  Nothing waits in the input buffer of an open connection, and what was accepted for sending is what was
  received; after it was closed, a prefix of that.
\<close>

definition echo_conn :: "tcp_conn \<Rightarrow> bool" where
  "echo_conn c \<longleftrightarrow> tc_msg_callback c \<and> buf_inv (tc_input_buf c) \<and> tc_state c \<noteq> DISCONNENTING \<and>
     prefix (tc_accepted c) (tc_received c) \<and>
     (tc_state c \<noteq> DISCONNECTED \<longrightarrow> contents (tc_input_buf c) = [] \<and> tc_accepted c = tc_received c)"

text \<open>That holds of all connections, or of all but the one at \<open>ptr\<close>; and no \<^verbatim>\<open>send\<close> or \<^verbatim>\<open>shutdown\<close> waits.\<close>

definition echo_but :: "conn_ptr option \<Rightarrow> tcp_server \<Rightarrow> bool" where
  "echo_but x s \<longleftrightarrow> (\<forall>p c. n_conns s p = Some c \<longrightarrow> x \<noteq> Some p \<longrightarrow> echo_conn c) \<and>
     (\<forall>j. \<forall>f \<in> set (el_pending_functors (n_loops s j)). raw_conn f = None) \<and> sv_msg_callback s"

abbreviation echo_inv :: "tcp_server \<Rightarrow> bool" where
  "echo_inv \<equiv> echo_but None"

lemma echo_frame [simp]:
  "echo_but x (net_log lv m s) = echo_but x s" "echo_but x (s\<lparr>n_socks := t\<rparr>) = echo_but x s"
  "echo_but x (s\<lparr>n_calls := t'\<rparr>) = echo_but x s" "echo_but x (s\<lparr>sv_conns := mp\<rparr>) = echo_but x s"
  "echo_but x (s\<lparr>sv_accepts := n\<rparr>) = echo_but x s" "echo_but x (s\<lparr>sv_acceptor := ac\<rparr>) = echo_but x s"
  "echo_but x (s\<lparr>sv_thread_pool := pool\<rparr>) = echo_but x s" "echo_but x (s\<lparr>sv_next_ptr := ptr\<rparr>) = echo_but x s"
  "echo_but x (s\<lparr>sv_next_conn_id := cid\<rparr>) = echo_but x s" "echo_but x (s\<lparr>sv_started := st\<rparr>) = echo_but x s"
  by (simp_all add: echo_but_def net_log_def)

lemma more_msg: "net.more s' = net.more s \<Longrightarrow> sv_msg_callback s' = sv_msg_callback s"
  by (cases s; cases s') simp

lemma echo_queue [simp]: "raw_conn f = None \<Longrightarrow> echo_but x (net_queue k cur i f s) = echo_but x s"
  by (auto simp: echo_but_def queue_pending more_msg [OF queue_sv])

lemma echo_put [simp]: "echo_inv (put_conn ptr c s) \<longleftrightarrow> echo_but (Some ptr) s \<and> echo_conn c"
  "echo_but (Some ptr) (put_conn ptr c s) = echo_but (Some ptr) s"
  by (auto simp: echo_but_def put_conn_def)

lemma echo_weaken: "echo_inv s \<Longrightarrow> echo_but (Some ptr) s"
  by (simp add: echo_but_def)

lemma echo_connD: "echo_inv s \<Longrightarrow> n_conns s ptr = Some c \<Longrightarrow> echo_conn c"
  by (simp add: echo_but_def)

lemma echo_loop:
  "echo_but x s \<Longrightarrow> set (el_pending_functors l) \<subseteq> set (el_pending_functors (n_loops s i)) \<Longrightarrow>
     echo_but x (s\<lparr>n_loops := (n_loops s)(i := l)\<rparr>)"
  by (auto simp: echo_but_def)

lemma echo_on_loop:
  assumes "echo_inv s" "\<And>l. f (n_loops s i) = Inr l \<Longrightarrow> el_pending_functors l = el_pending_functors (n_loops s i)"
  shows "yields (on_loop i f s) echo_inv"
  using assms by (cases "f (n_loops s i)") (auto simp: on_loop_def intro!: echo_loop)

lemma poller_call_pending:
  "eloop_poller_call g q l = Inr l' \<Longrightarrow> el_pending_functors l' = el_pending_functors l"
  by (auto simp: eloop_poller_call_def split: option.splits prod.splits)

lemma mask_pending: "chan_set_mask K m q l = Inr l' \<Longrightarrow> el_pending_functors l' = el_pending_functors l"
  by (auto simp: chan_set_mask_def eloop_update_chan_def dest: poller_call_pending split: option.splits)

lemma echo_mask: "echo_inv s \<Longrightarrow> yields (conn_mask k m c s) echo_inv"
  unfolding conn_mask_def by (rule echo_on_loop) (simp, rule mask_pending)

lemma echo_remove: "echo_inv s \<Longrightarrow> yields (on_loop i (chan_remove K q) s) echo_inv"
  by (rule echo_on_loop) (auto simp: chan_remove_def eloop_remove_chan_def dest: poller_call_pending)

section \<open>Sending\<close>

text \<open>The peer does not go away while bytes are sent: \<^verbatim>\<open>write\<close> fails for want of room only, or for other reasons.\<close>

definition peer_stays :: "os \<Rightarrow> bool" where
  "peer_stays k \<longleftrightarrow> (\<forall>p n d. k_write k p n d \<noteq> Inl EPIPE \<and> k_write k p n d \<noteq> Inl ECONNRESET)"

lemma echo_send_write:
  assumes "peer_stays k" "echo_but (Some ptr) w" "n_conns w ptr = Some c" "send_write k cur ptr data c ch w = (n, r, fault, w1)"
  obtains c1 where "\<not> fault" "echo_but (Some ptr) w1" "n_conns w1 ptr = Some c1"
    "\<forall>x. echo_conn (c1\<lparr>tc_accepted := x\<rparr>) = echo_conn (c\<lparr>tc_accepted := x\<rparr>)"
proof -
  have "\<not> fault" using assms(1,4) by (auto simp: send_write_def peer_stays_def Let_def split: if_splits sum.splits)
  moreover have "echo_but (Some ptr) w1"
    using assms(2-4) by (auto simp: send_write_def Let_def split: if_splits sum.splits)
  moreover have "\<exists>c1. n_conns w1 ptr = Some c1 \<and> (\<forall>x. echo_conn (c1\<lparr>tc_accepted := x\<rparr>) = echo_conn (c\<lparr>tc_accepted := x\<rparr>))"
    using assms(3,4) by (auto simp: send_write_def Let_def echo_conn_def put_conn_def net_log_def split: if_splits sum.splits)
  ultimately show thesis using that by blast
qed

lemma echo_send_rest:
  assumes "echo_inv w"
  shows "yields (send_rest k cur ptr data n r w) echo_inv"
proof (unfold send_rest_def, rule yields_with_conn)
  fix c ch assume c: "n_conns w ptr = Some c"
  let ?w1 = "if size_add (readable_bytes (tc_output_buf c)) r \<ge> tc_high_water_mark c \<and>
      readable_bytes (tc_output_buf c) < tc_high_water_mark c \<and> tc_high_water_mark_callback c
    then net_queue k cur (tc_loop c) (F_high_water_mark ptr (size_add (readable_bytes (tc_output_buf c)) r)) w else w"
  have "echo_conn (c\<lparr>tc_output_buf := b\<rparr>)" for b using echo_connD [OF assms c] by (simp add: echo_conn_def)
  then have w2: "echo_inv (put_conn ptr (c\<lparr>tc_output_buf := b\<rparr>) ?w1)" for b
    using echo_weaken [OF assms] by (simp only: echo_put simp_thms) simp
  then have "yields (if \<not> is_writing ch then conn_mask k Enable_Writing c (put_conn ptr (c\<lparr>tc_output_buf := b\<rparr>) ?w1)
      else Inr (put_conn ptr (c\<lparr>tc_output_buf := b\<rparr>) ?w1)) echo_inv" for b
    by (intro yields_if echo_mask) (simp_all only: yields_simps w2)
  then show "yields (let old_len = readable_bytes (tc_output_buf c);
      w1 = (if size_add old_len r \<ge> tc_high_water_mark c \<and> old_len < tc_high_water_mark c \<and>
             tc_high_water_mark_callback c
           then net_queue k cur (tc_loop c) (F_high_water_mark ptr (size_add old_len r)) w else w) in
      bind_res (buffer_append (tc_output_buf c) (drop n data) r) (\<lambda>b.
      let w2 = put_conn ptr (c\<lparr>tc_output_buf := b\<rparr>) w1 in
      if \<not> is_writing ch then conn_mask k Enable_Writing c w2 else Inr w2)) echo_inv"
    by (cases "buffer_append (tc_output_buf c) (drop n data) r") (simp_all add: Let_def)
qed

text \<open>Sending what was just received restores the invariant.\<close>

lemma echo_send_in_loop:
  assumes "peer_stays k" "echo_but (Some ptr) w" "n_conns w ptr = Some c" "tc_state c \<noteq> DISCONNECTED"
    and "echo_conn (c\<lparr>tc_accepted := tc_accepted c @ data\<rparr>)"
  shows "yields (send_in_loop k cur ptr data w) echo_inv"
proof (unfold send_in_loop_def, rule yields_with_conn)
  fix c0 ch assume "n_conns w ptr = Some c0"
  with assms(3) have c0: "c0 = c" by simp
  obtain n r fault w1 where sw: "send_write k cur ptr data c ch w = (n, r, fault, w1)"
    by (cases "send_write k cur ptr data c ch w")
  obtain c1 where c1: "\<not> fault" "echo_but (Some ptr) w1" "n_conns w1 ptr = Some c1"
    "\<forall>x. echo_conn (c1\<lparr>tc_accepted := x\<rparr>) = echo_conn (c\<lparr>tc_accepted := x\<rparr>)"
    using assms(1-3) sw by (rule echo_send_write)
  then have "echo_inv (put_conn ptr (c1\<lparr>tc_accepted := tc_accepted c @ data\<rparr>) w1)" using assms(5) by simp
  then show "yields (if tc_state c0 = DISCONNECTED then Inr (net_log WARN ''conn already closed, abort sending'' w)
     else (case send_write k cur ptr data c0 ch w of (nwrote, remaining, fault_occurred, w1) \<Rightarrow>
        let w2 = (if fault_occurred then w1
                  else (case n_conns w1 ptr of None \<Rightarrow> w1
                        | Some c1 \<Rightarrow> put_conn ptr (c1\<lparr>tc_accepted := tc_accepted c0 @ data\<rparr>) w1)) in
        if \<not> fault_occurred \<and> remaining > 0 then send_rest k cur ptr data nwrote remaining w2
        else Inr w2)) echo_inv"
    using assms(4) c1(1,3) by (simp add: c0 sw Let_def echo_send_rest del: echo_put)
qed

section \<open>The callbacks and handlers\<close>

text \<open>\<^verbatim>\<open>on_message\<close>, when the connection \<open>c\<close> has just received what its input buffer holds.\<close>

lemma echo_message:
  assumes "peer_stays k" "echo_but (Some ptr) w" "n_conns w ptr = Some c"
    and c: "tc_msg_callback c" "buf_inv (tc_input_buf c)" "tc_state c = CONNECTED \<or> tc_state c = DISCONNECTED"
    and hist: "prefix (tc_accepted c) (tc_received c)"
      "tc_state c = CONNECTED \<Longrightarrow> tc_received c = tc_accepted c @ contents (tc_input_buf c)"
    and home: "eloop_is_in_loop_thread cur (n_loops w (tc_loop c))"
  shows "yields (run_callback k cur ptr what True (on_message ptr (contents (tc_input_buf c))) w) echo_inv"
proof -
  let ?data = "contents (tc_input_buf c)"
  let ?c = "c\<lparr>tc_input_buf := retrieve (tc_input_buf c) (length ?data)\<rparr>"
  define w1 where "w1 = put_conn ptr ?c (w\<lparr>n_calls := n_calls w @ [(ptr, what)]\<rparr>)"
  have empty: "contents (tc_input_buf ?c) = []" "buf_inv (tc_input_buf ?c)"
    using c(2) by (simp_all add: contents_retrieve buf_inv_retrieve)
  have w1: "echo_but (Some ptr) w1" "n_conns w1 ptr = Some ?c" "n_loops w1 = n_loops w"
    using assms(2) by (simp_all add: w1_def put_conn_def [of ptr ?c "w\<lparr>n_calls := t\<rparr>" for t] del: echo_put)
      (simp add: echo_but_def)
  have send: "yields (tcp_conn_send k cur ptr 0 ?data w1) echo_inv"
    unfolding tcp_conn_send_def
  proof (rule yields_with_conn)
    fix e ch assume "n_conns w1 ptr = Some e"
    with w1(2) have e: "e = ?c" by simp
    show "yields (if tc_state e = CONNECTED then
        if eloop_is_in_loop_thread cur (n_loops w1 (tc_loop e)) then send_in_loop k cur ptr ?data w1
        else Inr (net_queue k cur (tc_loop e) (F_send_in_loop ptr 0 (length ?data)) w1)
      else Inr w1) echo_inv"
    proof (cases "tc_state c = CONNECTED")
      case True
      then have "echo_conn (?c\<lparr>tc_accepted := tc_accepted ?c @ ?data\<rparr>)"
        using c empty hist(2) by (simp add: echo_conn_def)
      then have "yields (send_in_loop k cur ptr ?data w1) echo_inv"
        using True by (intro echo_send_in_loop [OF assms(1) w1(1,2)]) simp_all
      with True home w1(3) show ?thesis by (simp add: e)
    next
      case False
      then have "echo_conn ?c" using c empty hist(1) by (simp add: echo_conn_def)
      with assms(2) False show ?thesis by (simp add: e w1_def)
    qed
  qed
  have "yields (run_action k cur ptr (w\<lparr>n_calls := n_calls w @ [(ptr, what)]\<rparr>) (A_retrieve (length ?data))) (\<lambda>w'. w' = w1)"
    by (simp, rule yields_with_conn) (use assms(3) in \<open>simp add: w1_def\<close>)
  then have "yields (bind_res (run_action k cur ptr (w\<lparr>n_calls := n_calls w @ [(ptr, what)]\<rparr>) (A_retrieve (length ?data)))
      (\<lambda>w'. tcp_conn_send k cur ptr 0 ?data w')) echo_inv"
    by (rule yields_bindI) (use send in simp)
  moreover have "bind_res (tcp_conn_send k cur ptr 0 ?data w') Inr = tcp_conn_send k cur ptr 0 ?data w'" for w'
    by (cases "tcp_conn_send k cur ptr 0 ?data w'") simp_all
  ultimately show ?thesis by (simp add: run_callback_def on_message_def)
qed

lemma echo_conn_callback: "echo_inv w \<Longrightarrow> yields (run_conn_callback k echo_app cur ptr w) echo_inv"
  unfolding run_conn_callback_def by (rule yields_with_conn) (simp add: run_callback_def)

lemma echo_remove_conn_in_loop: "echo_inv s \<Longrightarrow> yields (remove_conn_in_loop k cur ptr s) echo_inv"
  unfolding remove_conn_in_loop_def by (rule yields_with_conn) (simp add: Let_def)

lemma echo_remove_conn: "echo_inv s \<Longrightarrow> yields (remove_conn k cur ptr s) echo_inv"
  by (simp add: remove_conn_def echo_remove_conn_in_loop)

lemma echo_conn_closed: "echo_conn c \<Longrightarrow> echo_conn (c\<lparr>tc_state := DISCONNECTED\<rparr>)"
  by (simp add: echo_conn_def)

lemma echo_close:
  assumes "echo_inv s"
  shows "yields (handle_close k echo_app (remove_conn k) cur ptr s) echo_inv"
proof (unfold handle_close_def, rule yields_with_conn)
  fix c ch assume c: "n_conns s ptr = Some c"
  have "echo_inv (put_conn ptr (c\<lparr>tc_state := DISCONNECTED\<rparr>) (net_log lv m s))" for lv m
    using echo_weaken [OF assms] echo_conn_closed [OF echo_connD [OF assms c]] by simp
  then show "yields (let w1 = net_log INFO (''closing conn ['' @ c_str (tc_name c) @ ''] fd='' @ dec_int (ch_fd ch)) s in
     bind_res (conn_mask k Disable_All c (put_conn ptr (c\<lparr>tc_state := DISCONNECTED\<rparr>) w1)) (\<lambda>w2.
     bind_res (run_conn_callback k echo_app cur ptr w2) (\<lambda>w3.
     if tc_close_callback c then remove_conn k cur ptr w3 else Inr w3))) echo_inv"
    unfolding Let_def
    by (intro yields_bindI [OF echo_mask] yields_bindI [OF echo_conn_callback] yields_if echo_remove_conn) simp_all
qed

lemma echo_error: "echo_inv s \<Longrightarrow> yields (handle_error k ptr s) echo_inv"
  unfolding handle_error_def by (rule yields_with_conn) (simp add: Let_def)

lemma echo_shutdown_in_loop: "echo_inv s \<Longrightarrow> yields (shutdown_in_loop k ptr s) echo_inv"
  unfolding shutdown_in_loop_def by (rule yields_with_conn) simp

text \<open>The outcomes of \<^verbatim>\<open>read_fd\<close>: bytes, the end of the stream, or an error.\<close>

lemma read_fd_outcome:
  assumes "io_documented k" "buf_inv b0"
  shows "yields (read_fd b0 (k_read k ptr r (readv_capacity b0)))
    (\<lambda>(n, e, b). buf_inv b \<and> contents b = contents b0 @ bytes_read (k_read k ptr r (readv_capacity b0)) \<and>
       (n \<le> 0 \<longrightarrow> bytes_read (k_read k ptr r (readv_capacity b0)) = []))"
proof (cases "k_read k ptr r (readv_capacity b0)")
  case (Inl e)
  then show ?thesis using assms(2) by (simp add: read_fd_def)
next
  case (Inr d)
  then have "length d \<le> readv_capacity b0" using assms(1) by (auto simp: io_documented_def)
  from read_fd_ensures [OF assms(2) this] show ?thesis
    using Inr by (cases "read_fd b0 (Inr d)") auto
qed

lemma echo_received:
  assumes "echo_inv s" "n_conns s ptr = Some c" "buf_inv b" "contents b = contents (tc_input_buf c)"
  shows "echo_inv (put_conn ptr (c\<lparr>tc_reads := r, tc_input_buf := b, tc_received := tc_received c @ []\<rparr>) s)"
  using echo_weaken [OF assms(1)] echo_connD [OF assms(1,2)] assms(3,4) by (simp add: echo_conn_def)

lemma echo_received_msg:
  assumes "peer_stays k" "echo_inv s" "n_conns s ptr = Some c"
    and "eloop_is_in_loop_thread cur (n_loops s (tc_loop c))" "tc_state c \<noteq> CONNENTING"
    and "buf_inv b" "contents b = contents (tc_input_buf c) @ d"
  shows "yields (run_callback k cur ptr what (tc_msg_callback c) (a_msg echo_app ptr (contents b))
    (put_conn ptr (c\<lparr>tc_reads := r, tc_input_buf := b, tc_received := tc_received c @ d\<rparr>) s)) echo_inv"
proof -
  let ?c = "c\<lparr>tc_reads := r, tc_input_buf := b, tc_received := tc_received c @ d\<rparr>"
  have ec: "echo_conn c" using assms(2,3) by (rule echo_connD)
  have "yields (run_callback k cur ptr what True (on_message ptr (contents (tc_input_buf ?c))) (put_conn ptr ?c s)) echo_inv"
  proof (rule echo_message [OF assms(1), where c = ?c])
    show "echo_but (Some ptr) (put_conn ptr ?c s)" using echo_weaken [OF assms(2)] by simp
    show "eloop_is_in_loop_thread cur (n_loops (put_conn ptr ?c s) (tc_loop ?c))"
      using assms(4) by (simp add: put_conn_def)
    show "tc_state ?c = CONNECTED \<or> tc_state ?c = DISCONNECTED"
      using ec assms(5) by (cases "tc_state c") (simp_all add: echo_conn_def)
  qed (use ec assms(6,7) in \<open>auto simp: echo_conn_def put_conn_def\<close>)
  then show ?thesis using ec by (simp add: echo_conn_def)
qed

lemma echo_read:
  assumes "io_documented k" "peer_stays k" "echo_inv s"
    and home: "\<And>c. n_conns s ptr = Some c \<Longrightarrow>
      eloop_is_in_loop_thread cur (n_loops s (tc_loop c)) \<and> tc_state c \<noteq> CONNENTING"
  shows "yields (handle_read k echo_app (remove_conn k) cur ptr s) echo_inv"
proof (unfold handle_read_def, rule yields_with_conn)
  fix c ch assume c: "n_conns s ptr = Some c"
  define d where "d = bytes_read (k_read k ptr (tc_reads c) (readv_capacity (tc_input_buf c)))"
  let ?put = "\<lambda>b. put_conn ptr (c\<lparr>tc_reads := tc_reads c + 1, tc_input_buf := b, tc_received := tc_received c @ d\<rparr>) s"
  have quiet: "echo_inv (?put b)" if "d = []" "buf_inv b" "contents b = contents (tc_input_buf c)" for b
    using echo_received [OF assms(3) c that(2,3)] that(1) by simp
  note msg = echo_received_msg [OF assms(2,3) c conjunct1 [OF home [OF c]] conjunct2 [OF home [OF c]]]
  have "buf_inv (tc_input_buf c)" using echo_connD [OF assms(3) c] by (simp add: echo_conn_def)
  then have "yields (read_fd (tc_input_buf c) (k_read k ptr (tc_reads c) (readv_capacity (tc_input_buf c))))
    (\<lambda>(n, e, b). buf_inv b \<and> contents b = contents (tc_input_buf c) @ d \<and> (n \<le> 0 \<longrightarrow> d = []))"
    unfolding d_def by (rule read_fd_outcome [OF assms(1)])
  then show "yields (bind_res (read_fd (tc_input_buf c) (k_read k ptr (tc_reads c) (readv_capacity (tc_input_buf c))))
      (\<lambda>(n, saved_errno, b).
     let w1 = put_conn ptr (c\<lparr>tc_reads := tc_reads c + 1, tc_input_buf := b, tc_received := tc_received c @
                bytes_read (k_read k ptr (tc_reads c) (readv_capacity (tc_input_buf c)))\<rparr>) s in
     if n > 0 then run_callback k cur ptr ''msg'' (tc_msg_callback c) (a_msg echo_app ptr (contents b)) w1
     else if n = 0 then handle_close k echo_app (remove_conn k) cur ptr w1
     else handle_error k ptr
            (net_log ERROR (''read error: '' @ k_strerror k (case saved_errno of Some e \<Rightarrow> e | None \<Rightarrow> 0)) w1))) echo_inv"
    unfolding d_def [symmetric]
  proof (rule yields_bindI, clarify)
    fix n :: int and e b assume b: "buf_inv b" "contents b = contents (tc_input_buf c) @ d" "n \<le> 0 \<longrightarrow> d = []"
    have "echo_inv (?put b)" if "n \<le> 0" using that b by (intro quiet) simp_all
    then show "yields (let w1 = ?put b in
     if n > 0 then run_callback k cur ptr ''msg'' (tc_msg_callback c) (a_msg echo_app ptr (contents b)) w1
     else if n = 0 then handle_close k echo_app (remove_conn k) cur ptr w1
     else handle_error k ptr
            (net_log ERROR (''read error: '' @ k_strerror k (case e of Some e \<Rightarrow> e | None \<Rightarrow> 0)) w1)) echo_inv"
      using msg [OF b(1,2)] by (simp add: Let_def echo_close echo_error del: echo_put)
  qed
qed

lemma echo_write:
  assumes "echo_inv s"
  shows "yields (handle_write k cur ptr s) echo_inv"
proof (unfold handle_write_def, rule yields_with_conn)
  fix c ch assume c: "n_conns s ptr = Some c"
  have put: "echo_inv (put_conn ptr (c\<lparr>tc_writes := n, tc_output_buf := b, tc_wire := x\<rparr>) s)"
    "echo_inv (put_conn ptr (c\<lparr>tc_writes := n\<rparr>) s)" for n b x
    using echo_weaken [OF assms] echo_connD [OF assms c] by (simp_all add: echo_conn_def)
  obtain n e where wr: "write_fd (tc_output_buf c) (k_write k ptr (tc_writes c)
      (peek (tc_output_buf c) (readable_bytes (tc_output_buf c)))) = (n, e)" by fastforce
  have after: "yields (bind_res (conn_mask k Disable_Writing c w1) (\<lambda>w2.
      let w3 = (if tc_write_complete_callback c then net_queue k cur (tc_loop c) (F_write_complete ptr) w2 else w2) in
      if tc_state c = DISCONNENTING then shutdown_in_loop k ptr w3 else Inr w3)) echo_inv" if "echo_inv w1" for w1
    using that by (intro yields_bindI [OF echo_mask]) (simp_all add: Let_def echo_shutdown_in_loop)
  show "yields (if is_writing ch then
       (let data = peek (tc_output_buf c) (readable_bytes (tc_output_buf c));
            outcome = k_write k ptr (tc_writes c) data;
            (n, saved_errno) = write_fd (tc_output_buf c) outcome;
            c1 = c\<lparr>tc_writes := tc_writes c + 1\<rparr> in
        if n > 0 then
          (let b = retrieve (tc_output_buf c) (nat n);
               w1 = put_conn ptr (c1\<lparr>tc_output_buf := b, tc_wire := tc_wire c @ take (nat n) data\<rparr>) s in
           if readable_bytes b = 0 then
             bind_res (conn_mask k Disable_Writing c w1) (\<lambda>w2.
             let w3 = (if tc_write_complete_callback c
                       then net_queue k cur (tc_loop c) (F_write_complete ptr) w2 else w2) in
             if tc_state c = DISCONNENTING then shutdown_in_loop k ptr w3 else Inr w3)
           else Inr w1)
        else Inr (net_log ERROR (''write error: '' @
                    k_strerror k (case saved_errno of Some e \<Rightarrow> e | None \<Rightarrow> 0)) (put_conn ptr c1 s)))
     else Inr (net_log WARN (''conn fd='' @ dec_int (ch_fd ch) @ '' is closing'') s)) echo_inv"
    using wr put after assms by (simp add: Let_def del: echo_put)
qed

lemma echo_established: "echo_conn c \<Longrightarrow> tc_state c \<noteq> DISCONNECTED \<Longrightarrow> echo_conn (c\<lparr>tc_state := CONNECTED\<rparr>)"
  by (simp add: echo_conn_def)

lemma echo_establish:
  assumes "echo_inv s" "\<And>c. n_conns s ptr = Some c \<Longrightarrow> tc_state c \<noteq> DISCONNECTED"
  shows "yields (establish_conn k echo_app cur ptr s) echo_inv"
proof (unfold establish_conn_def, rule yields_with_conn)
  fix c ch assume c: "n_conns s ptr = Some c"
  let ?l = "n_loops s (tc_loop c)"
  have "echo_but (Some ptr) (s\<lparr>n_loops := (n_loops s)(tc_loop c := ?l\<lparr>el_chans := (el_chans ?l)(tc_ch c \<mapsto> chan_tie ch ptr)\<rparr>)\<rparr>)"
    using echo_weaken [OF assms(1)] by (intro echo_loop) simp_all
  then have "echo_inv (put_conn ptr (c\<lparr>tc_state := CONNECTED\<rparr>)
      (s\<lparr>n_loops := (n_loops s)(tc_loop c := ?l\<lparr>el_chans := (el_chans ?l)(tc_ch c \<mapsto> chan_tie ch ptr)\<rparr>)\<rparr>))"
    using echo_established [OF echo_connD [OF assms(1) c] assms(2) [OF c]] by simp
  then show "yields (let l = n_loops s (tc_loop c);
         w1 = put_conn ptr (c\<lparr>tc_state := CONNECTED\<rparr>)
                (s\<lparr>n_loops := (n_loops s)(tc_loop c := l\<lparr>el_chans := (el_chans l)(tc_ch c \<mapsto> chan_tie ch ptr)\<rparr>)\<rparr>) in
     bind_res (conn_mask k Enable_Reading c w1) (\<lambda>w2. run_conn_callback k echo_app cur ptr w2)) echo_inv"
    unfolding Let_def by (intro yields_bindI [OF echo_mask] echo_conn_callback)
qed

lemma echo_destroy:
  assumes "echo_inv s"
  shows "yields (destroy_conn k echo_app cur ptr s) echo_inv"
proof (unfold destroy_conn_def, rule yields_with_conn)
  fix c ch assume c: "n_conns s ptr = Some c"
  have "echo_inv (put_conn ptr (c\<lparr>tc_state := DISCONNECTED\<rparr>) s)"
    using echo_weaken [OF assms] echo_conn_closed [OF echo_connD [OF assms c]] by simp
  then have "yields (bind_res (conn_mask k Disable_All c (put_conn ptr (c\<lparr>tc_state := DISCONNECTED\<rparr>) s))
      (\<lambda>w1. run_conn_callback k echo_app cur ptr w1)) echo_inv"
    by (intro yields_bindI [OF echo_mask] echo_conn_callback)
  then show "yields (bind_res (if tc_state c = CONNECTED then
          bind_res (conn_mask k Disable_All c (put_conn ptr (c\<lparr>tc_state := DISCONNECTED\<rparr>) s))
            (\<lambda>w1. run_conn_callback k echo_app cur ptr w1)
        else Inr s)
       (\<lambda>w2. on_loop (tc_loop c) (chan_remove (k_ctl k) (tc_ch c)) w2)) echo_inv"
    using assms by (intro yields_bindI [OF yields_if echo_remove]) simp_all
qed

section \<open>New connections, listening and deletion\<close>

lemma echo_created:
  assumes "echo_inv s" "tcp_conn_new (Some io) cid name sockfd la pa ptr cptr ret s = Inr s'"
  shows "echo_inv (register_conn ptr cid s')" "\<And>c. n_conns (register_conn ptr cid s') ptr = Some c \<Longrightarrow> tc_state c = CONNENTING"
proof -
  obtain b where b: "buffer_new INITIAL_SIZE = Inr b" "buf_inv b" "contents b = []"
    by (rule buffer_new_ok [of INITIAL_SIZE]) (simp_all add: CHEAP_PREPEND_def INITIAL_SIZE_def vector_max_size_def)
  define c0 where "c0 = the (n_conns s' ptr)"
  note s' = tcp_conn_new_conns [OF assms(2), folded c0_def]
  have c0: "tc_input_buf c0 = b" "tc_accepted c0 = []" "tc_received c0 = []"
    using assms(2) b unfolding c0_def
    by (auto simp: tcp_conn_new_def check_loop_not_null_def Let_def put_conn_def net_log_def)
  have pend: "el_pending_functors (n_loops s' j) = el_pending_functors (n_loops s j)" for j
    using assms(2) b by (auto simp: tcp_conn_new_def check_loop_not_null_def Let_def put_conn_def net_log_def)
  have but: "echo_but (Some ptr) s'"
    using assms(1) s'(7) pend more_msg [OF s'(8)] by (auto simp: echo_but_def)
  let ?s = "s'\<lparr>sv_next_ptr := ptr + 2, sv_conns := (sv_conns s')(cid \<mapsto> ptr), sv_next_conn_id := cid + 1\<rparr>"
  have reg: "register_conn ptr cid s' = put_conn ptr (set_conn_callbacks ?s c0) ?s"
    using s'(7) by (simp add: register_conn_def Let_def)
  have "echo_conn (set_conn_callbacks ?s c0)"
    using b(2,3) c0 s'(6) but by (simp add: echo_conn_def set_conn_callbacks_def echo_but_def)
  with but show "echo_inv (register_conn ptr cid s')" unfolding reg by simp
  show "n_conns (register_conn ptr cid s') ptr = Some c \<Longrightarrow> tc_state c = CONNENTING" for c
    using s'(6) unfolding reg by (auto simp: put_conn_def set_conn_callbacks_def)
qed

lemma echo_new_conn:
  assumes "echo_inv s"
  shows "yields (new_conn k echo_app cur sockfd peer_addr s) echo_inv"
proof (cases "get_next_loop (sv_thread_pool s)")
  case (Inr lp)
  obtain i pool where lp: "lp = (i, pool)" by (cases lp)
  let ?s1 = "net_log INFO (''new connection ['' @ c_str (conn_name s) @ ''] from '' @
                c_str (address_to_ip_port (k_ntop k) peer_addr)) (s\<lparr>sv_thread_pool := pool\<rparr>)"
  obtain la s2 where s2: "local_address k sockfd ?s1 = (la, s2)" by fastforce
  have s2': "echo_inv s2" using assms s2 by (auto simp: local_address_def split: sum.splits)
  let ?new = "tcp_conn_new (Some i) (sv_next_conn_id s2) (conn_name s) sockfd (address_of_sockaddr la) peer_addr
    (sv_next_ptr s2) (sv_next_ptr s2 + 1) (k_setsockopt k sockfd SO_KEEPALIVE) s2"
  let ?reg = "register_conn (sv_next_ptr s2) (sv_next_conn_id s2)"
  have "yields ?new (\<lambda>s3. echo_inv (?reg s3) \<and> (\<forall>c. n_conns (?reg s3) (sv_next_ptr s2) = Some c \<longrightarrow> tc_state c = CONNENTING))"
    using echo_created [OF s2'] by (cases ?new) auto
  then have "yields (bind_res ?new (\<lambda>s3. let s4 = ?reg s3 in
      if eloop_is_in_loop_thread cur (n_loops s4 i) then establish_conn k echo_app cur (sv_next_ptr s2) s4
      else Inr (net_queue k cur i (F_establish_conn (sv_next_ptr s2)) s4))) echo_inv"
    by (rule yields_bindI) (auto simp: Let_def intro!: echo_establish)
  then show ?thesis using Inr s2 lp by (simp add: new_conn_def Let_def cong: if_cong)
qed (simp add: new_conn_def)

lemma echo_accept:
  assumes "echo_inv s"
  shows "yields (acceptor_handle_read k ac (new_conn k echo_app cur) out s) echo_inv"
  using assms by (simp add: acceptor_handle_read_def socket_accept_def Let_def echo_new_conn on_socks_def
      split: sum.splits prod.splits)

lemma echo_wakeup: "echo_inv s \<Longrightarrow> yields (on_loop i (\<lambda>l. Inr (eloop_handle_read E l)) s) echo_inv"
  by (rule echo_on_loop) (auto simp: eloop_handle_read_def Let_def split: prod.splits if_splits)

lemma echo_listen:
  assumes "echo_inv s"
  shows "yields (server_listen k s) echo_inv"
proof -
  have "yields (bind_res (on_loop i (chan_set_mask (k_ctl k) m q) (s\<lparr>n_socks := t\<rparr>)) (\<lambda>w1. Inr (ac, w1)))
      (\<lambda>(ac, s1). echo_inv s1)" for i m q t and ac :: acceptor
    using assms by (intro yields_bindI [OF echo_on_loop]) (simp_all, rule mask_pending)
  then have "yields (acceptor_listen k (sv_acceptor s) s) (\<lambda>(ac, s1). echo_inv s1)"
    by (simp add: acceptor_listen_def Let_def socket_listen_def)
  then show ?thesis unfolding server_listen_def by (rule yields_bindI) auto
qed

lemma echo_delete:
  assumes "echo_inv s"
  shows "yields (tcp_conn_delete ptr s) echo_inv"
  unfolding tcp_conn_delete_def
  by (rule yields_with_conn) (use assms in \<open>auto simp: echo_but_def Let_def net_log_def\<close>)

lemma echo_release: "echo_inv s \<Longrightarrow> yields (release_functors fs s) echo_inv"
proof (induction fs arbitrary: s)
  case (Cons f fs)
  have "yields (case functor_conn f of None \<Rightarrow> Inr s | Some ptr \<Rightarrow>
      (case n_conns s ptr of None \<Rightarrow> Inl Null_Deref
       | Some c \<Rightarrow> if conn_referenced s ptr c \<or> list_ex (\<lambda>g. functor_conn g = Some ptr) fs then Inr s
                   else tcp_conn_delete ptr s)) echo_inv"
    using Cons.prems echo_delete by (auto split: option.splits)
  then show ?case using Cons.IH by (auto intro: yields_bindI)
qed simp

section \<open>Turns of the echo server\<close>

lemma echo_functor:
  assumes "echo_inv s" "raw_conn f = None"
    and "\<And>ptr c. f = F_establish_conn ptr \<Longrightarrow> n_conns s ptr = Some c \<Longrightarrow> tc_state c = CONNENTING"
  shows "yields (run_functor k echo_app cur s f) echo_inv"
proof (cases f)
  case (F_establish_conn ptr)
  with assms show ?thesis by (simp add: run_functor_def echo_establish)
qed (use assms in \<open>simp_all add: run_functor_def echo_destroy echo_remove_conn_in_loop echo_listen run_callback_def\<close>)

lemma echo_callback:
  assumes "env_ok k echo_app" "peer_stays k" "echo_inv s"
    and "\<And>ptr c. cb = Conn_handle_read ptr \<Longrightarrow> n_conns s ptr = Some c \<Longrightarrow>
        eloop_is_in_loop_thread cur (n_loops s (tc_loop c)) \<and> tc_state c \<noteq> CONNENTING"
  shows "yields (run_chan_callback k echo_app i cur s cb) echo_inv"
proof (cases cb)
  case (Conn_handle_read ptr)
  with assms show ?thesis by (auto simp: run_chan_callback_def intro!: echo_read env_okD)
qed (use assms(3) in \<open>simp_all add: run_chan_callback_def echo_wakeup echo_accept echo_write echo_close echo_error\<close>)

text \<open>The invariant, for the systems it holds in.\<close>

definition echo_ok :: "os \<Rightarrow> tcp_server \<Rightarrow> bool" where
  "echo_ok k s \<longleftrightarrow> (env_ok k echo_app \<and> peer_stays k \<longrightarrow> echo_inv s)"

lemma echo_ok_yields: "(env_ok k echo_app \<Longrightarrow> peer_stays k \<Longrightarrow> yields r echo_inv) \<Longrightarrow> yields r (echo_ok k)"
  by (cases r) (auto simp: echo_ok_def)

interpretation echo: turn_invariant k echo_app "echo_ok k" "\<lambda>f. env_ok k echo_app \<and> peer_stays k \<longrightarrow> raw_conn f = None" for k
proof
  show "echo_ok k (net_log lv m s) = echo_ok k s" for lv m s by (simp add: echo_ok_def)
  show "echo_ok k (put_loop i l s)" if "echo_ok k s" "set (el_pending_functors l) \<subseteq> set (el_pending_functors (n_loops s i))"
    for l i s using that by (auto simp: echo_ok_def intro: echo_loop)
  show "env_ok k echo_app \<and> peer_stays k \<longrightarrow> raw_conn f = None" if "echo_ok k s" "f \<in> set (el_pending_functors (n_loops s i))"
    for f s i using that by (auto simp: echo_ok_def echo_but_def)
  show "yields (run_chan_callback k echo_app i cur s cb) (echo_ok k)" if "echo_ok k s"
    "\<And>ptr c. cb = Conn_handle_read ptr \<Longrightarrow> n_conns s ptr = Some c \<Longrightarrow>
        eloop_is_in_loop_thread cur (n_loops s (tc_loop c)) \<and> tc_state c \<noteq> CONNENTING" for i cur s cb
    using that by (intro echo_ok_yields echo_callback) (simp_all add: echo_ok_def)
  show "yields (run_functor k echo_app cur s f) (echo_ok k)" if "echo_ok k s"
    "env_ok k echo_app \<and> peer_stays k \<longrightarrow> raw_conn f = None"
    "\<And>ptr c. f = F_establish_conn ptr \<Longrightarrow> n_conns s ptr = Some c \<Longrightarrow> tc_state c = CONNENTING" for cur s f
    using that by (intro echo_ok_yields echo_functor) (simp_all add: echo_ok_def)
  show "yields (release_functors fs s) (echo_ok k)" if "echo_ok k s" for fs s
    using that by (intro echo_ok_yields echo_release) (simp add: echo_ok_def)
qed

text \<open>The first state: no connection, and at most \<^verbatim>\<open>acceptor::listen\<close> is asked for.\<close>

lemma echo_new:
  assumes "fresh_net next_ptr sockfd w" "echo_server_new k loop addr name sockfd next_ptr w = Inr s"
  shows "echo_inv s"
proof -
  obtain s0 where s0: "tcp_server_new k (Some loop) addr name False sockfd next_ptr w = Inr s0"
    "s = tcp_server_set_thread_num (tcp_server_set_msg_callback (tcp_server_set_conn_callback s0 True) True) 3"
    using assms(2) by (auto simp: echo_server_new_def bind_res_eq_Inr)
  have fresh: "n_conns w = Map.empty" "el_pending_functors (n_loops w j) = []" for j
    using assms(1) by (simp_all add: fresh_net_def fresh_loop_def)
  have "n_conns s0 = Map.empty" "el_pending_functors (n_loops s0 j) = []" for j
    using s0(1) fresh
    by (auto simp: tcp_server_new_def check_main_loop_not_null_def acceptor_new_def bind_res_eq_Inr Let_def
        net.extend_def on_socks_def)
  then show ?thesis
    by (simp add: s0(2) echo_but_def tcp_server_set_thread_num_def tcp_server_set_msg_callback_def
        tcp_server_set_conn_callback_def)
qed

lemma echo_start:
  assumes "echo_inv s"
  shows "yields (tcp_server_start k cur new_loop s) echo_inv"
proof -
  obtain p where p: "eloop_tpool_start (sv_thread_init_callback s) new_loop (sv_thread_pool s) = Inr p"
    by (rule eloop_tpool_start_adds)
  have s1: "echo_inv (s\<lparr>sv_started := n\<rparr>)" for n using assms by simp
  let ?s2 = "s\<lparr>sv_started := sv_started s + 1, sv_thread_pool := p\<rparr>"
  have s2: "echo_inv ?s2" using s1 by simp
  show ?thesis
  proof (cases "sv_started s = 0")
    case True
    with p have "tcp_server_start k cur new_loop s =
        (if eloop_is_in_loop_thread cur (n_loops ?s2 (sv_loop ?s2)) then server_listen k ?s2
         else Inr (net_queue k cur (sv_loop ?s2) F_acceptor_listen ?s2))"
      by (simp add: tcp_server_start_def Let_def)
    moreover have "echo_inv (net_queue k cur j F_acceptor_listen ?s2)" for j using s2 by (subst echo_queue) simp_all
    ultimately show ?thesis using echo_listen [OF s2] by (auto simp del: echo_frame)
  qed (simp add: tcp_server_start_def s1 del: echo_frame)
qed

lemma echo_kept:
  assumes "env_ok k echo_app" "peer_stays k" "echo_reach k s"
  shows "echo_inv s"
  using assms(3)
proof (induction rule: echo_reach.induct)
  case (start next_ptr sockfd w loop addr name s cur new_loop s')
  then show ?case using echo_start [OF echo_new [OF start(1,2)], of k cur new_loop] by simp
next
  case (turn s outcome i s')
  have "server_wf s" using assms(1) echo_server_reach [OF turn(1)] by (rule server_reach_wf)
  moreover have "echo_ok k s" using turn.IH by (simp add: echo_ok_def)
  ultimately have "echo_ok k s'" by (rule echo.turn_kept [OF assms(1) _ _ turn(2-4)])
  then show ?case using assms(1,2) by (simp add: echo_ok_def)
qed

section \<open>A run\<close>

text \<open>A kernel that accepts one connection and delivers two bytes on it, and the server listening in the main loop.\<close>

definition os_echo :: os where
  "os_echo = os_accepting\<lparr>k_read := (\<lambda>_ n m. if n = 0 then Inr (take m ''hi'') else Inl 11)\<rparr>"

lemma os_echo_env [simp]: "env_ok os_echo echo_app" "peer_stays os_echo"
  by (simp_all add: env_ok_def os_echo_def os_accepting_def io_documented_def os_example_def peer_stays_def)

definition echo_listening :: "eloop_tpool \<Rightarrow> sock_trace \<Rightarrow> tcp_server" where
  "echo_listening p t = listening_server\<lparr>n_socks := t, sv_name := ''echo'', sv_thread_pool := p,
     sv_conn_callback := True, sv_msg_callback := True\<rparr>"

lemma echo_listening_start:
  obtains s p t where "echo_server_new os_echo 0 sockaddr_zero ''echo'' 5 99 net_example = Inr s"
    "tcp_server_start os_echo 7 (\<lambda>i. i + 1) s = Inr (echo_listening p t)" "lp_loops p = [1, 2, 3]" "lp_next_idx p = 0"
proof -
  let ?pool = "eloop_tpool_set_thread_num (eloop_tpool_new 0 ''echo'') 3"
  obtain p where p: "eloop_tpool_start False (\<lambda>i. i + 1) ?pool = Inr p" "lp_next_idx p = 0" "lp_loops p = [1, 2, 3]"
    by (rule eloop_tpool_start_adds [of False "\<lambda>i. i + 1" ?pool])
      (auto simp: eloop_tpool_new_def eloop_tpool_set_thread_num_def upt_rec)
  have "\<exists>s t. echo_server_new os_echo 0 sockaddr_zero ''echo'' 5 99 net_example = Inr s \<and>
      tcp_server_start os_echo 7 (\<lambda>i. i + 1) s = Inr (echo_listening p t)"
    using p(1)
    by (simp add: echo_server_new_def echo_listening_def os_echo_def listening_defs chan_update_defs
        tcp_server_new_def check_main_loop_not_null_def acceptor_new_ok tcp_server_start_def
        eloop_is_in_loop_thread_def server_listen_def acceptor_listen_def tcp_server_set_thread_num_def
        tcp_server_set_msg_callback_def tcp_server_set_conn_callback_def socket_listen_def sys_call_def Let_def)
  with p that show thesis by blast
qed

lemma echo_buffers:
  obtains b b' where "buffer_new INITIAL_SIZE = Inr b" "readable_bytes b = 0" "take (readv_capacity b) ''hi'' = ''hi''"
    "read_fd b (Inr ''hi'') = Inr (2, None, b')" "contents b' = ''hi''"
proof -
  obtain b where b: "buffer_new INITIAL_SIZE = Inr b" "buf_inv b" "contents b = []"
    by (rule buffer_new_ok [of INITIAL_SIZE]) (simp_all add: CHEAP_PREPEND_def INITIAL_SIZE_def vector_max_size_def)
  have "2 \<le> writable_bytes b"
    using b(1) by (auto simp: buffer_new_def vector_resize_grow CHEAP_PREPEND_def INITIAL_SIZE_def vector_max_size_def
        writable_bytes_def)
  with read_fd_fits [OF b(2), of "''hi''"] b(3) obtain b' where "read_fd b (Inr ''hi'') = Inr (2, None, b')" "contents b' = ''hi''"
    by auto
  moreover have "take (readv_capacity b) ''hi'' = ''hi''" by (simp add: readv_capacity_def EXTRABUF_SIZE_def Let_def)
  moreover have "readable_bytes b = 0" using b(2,3) by (simp add: readable_contents)
  ultimately show thesis using b(1) that by blast
qed

text \<open>Two turns: the client is accepted, then its bytes arrive and are sent back.\<close>

lemma echo_two_turns:
  assumes "lp_loops p = [1, 2, 3]" "lp_next_idx p = 0"
  obtains s2 s3 c where "server_turn os_echo echo_app 0 (Inr [(READ_EVENT, 99)]) (echo_listening p t) = Inr s2"
     "accept_fresh os_echo s2" "poll_possible (Inr [(READ_EVENT, 101)]) (n_loops s2 1)"
     "server_turn os_echo echo_app 1 (Inr [(READ_EVENT, 101)]) s2 = Inr s3" "n_conns s3 100 = Some c"
     "tc_state c = CONNECTED" "tc_wire c = ''hi''" "tc_received c = ''hi''"
proof -
  obtain b b' where b: "buffer_new INITIAL_SIZE = Inr b" "readable_bytes b = 0" "take (readv_capacity b) ''hi'' = ''hi''"
    "read_fd b (Inr ''hi'') = Inr (2, None, b')" "contents b' = ''hi''" by (rule echo_buffers)
  have "\<exists>s2 s3 c. server_turn os_echo echo_app 0 (Inr [(READ_EVENT, 99)]) (echo_listening p t) = Inr s2 \<and>
     accept_fresh os_echo s2 \<and> poll_possible (Inr [(READ_EVENT, 101)]) (n_loops s2 1) \<and>
     server_turn os_echo echo_app 1 (Inr [(READ_EVENT, 101)]) s2 = Inr s3 \<and> n_conns s3 100 = Some c \<and>
     tc_state c = CONNECTED \<and> tc_wire c = ''hi'' \<and> tc_received c = ''hi''"
    using assms b
    by (simp add: os_echo_def echo_listening_def listening_defs chan_update_defs turn_run_defs accept_fresh_def
        handle_read_def on_message_def tcp_conn_send_def send_in_loop_def send_write_def is_writing_def)
      (auto simp: poll_possible_def interest_def intro!: exI [of _ 6])
  then show thesis using that by blast
qed

section \<open>Properties\<close>

text \<open>
  C4.  The echo server, in every state it can get into, whatever the clients and the kernel do, as long as
  no peer goes away while bytes are sent to it: what was sent to a client and what is still buffered for
  it are together a prefix of what was received from it, and all of that while the connection is open,
  when moreover no byte waits unread in the input buffer.
\<close>

theorem echo_faithful:
  assumes "env_ok k echo_app" and "peer_stays k" and "echo_reach k s" and "n_conns s ptr = Some c"
  shows "prefix (tc_wire c @ contents (tc_output_buf c)) (tc_received c) \<and>
     (tc_state c \<noteq> DISCONNECTED \<longrightarrow>
        tc_wire c @ contents (tc_output_buf c) = tc_received c \<and> contents (tc_input_buf c) = [])"
proof -
  have "echo_conn c" using echo_kept [OF assms(1-3)] assms(4) by (rule echo_connD)
  moreover have "server_ok 0 [] [] {} s"
    using server_reach_wf [OF assms(1) echo_server_reach [OF assms(3)]] by (simp add: server_wf_def)
  then obtain writing where "conn_inv c writing" using assms(4) by (rule server_ok_conn)
  ultimately show ?thesis by (simp add: echo_conn_def conn_inv_def)
qed

theorem echo_faithful_witness:
  "\<exists>s c. echo_reach os_echo s \<and> n_conns s 100 = Some c \<and> tc_state c = CONNECTED \<and>
     tc_wire c @ contents (tc_output_buf c) = ''hi'' \<and> contents (tc_input_buf c) = []"
proof -
  obtain s p t where s: "echo_server_new os_echo 0 sockaddr_zero ''echo'' 5 99 net_example = Inr s"
    "tcp_server_start os_echo 7 (\<lambda>i. i + 1) s = Inr (echo_listening p t)" "lp_loops p = [1, 2, 3]" "lp_next_idx p = 0"
    by (rule echo_listening_start)
  obtain s2 s3 c where run: "server_turn os_echo echo_app 0 (Inr [(READ_EVENT, 99)]) (echo_listening p t) = Inr s2"
     "accept_fresh os_echo s2" "poll_possible (Inr [(READ_EVENT, 101)]) (n_loops s2 1)"
     "server_turn os_echo echo_app 1 (Inr [(READ_EVENT, 101)]) s2 = Inr s3" "n_conns s3 100 = Some c"
     "tc_state c = CONNECTED" "tc_wire c = ''hi''" "tc_received c = ''hi''"
    using s(3,4) by (rule echo_two_turns)
  have "poll_possible (Inr [(READ_EVENT, 99)]) (n_loops (echo_listening p t) 0)"
    "accept_fresh os_echo (echo_listening p t)"
    using listening_poll listening_accept by (simp_all add: echo_listening_def accept_fresh_def fresh_for_def os_echo_def)
  then have "echo_reach os_echo s3"
    using run by (intro echo_reach.turn [OF echo_reach.turn [OF echo_reach.start [OF net_example_fresh s(1,2)]]])
  from echo_faithful [OF os_echo_env this run(5)] this run(5-8) show ?thesis by auto
qed

end
