(* ===== verification/Spec2Isabelle.thy ===== *)
theory Spec2Isabelle
  imports Logging TPool PoolEnd EchoServer
begin

text \<open>
  A verification of the caimr library: a small C++ network library with a reactor (event loops over
  epoll), a TCP server on top of it, a pool of worker threads and a logger.

  \<^bold>\<open>The program.\<close>  A \<^verbatim>\<open>tcp_server\<close> owns an \<^verbatim>\<open>acceptor\<close>, whose listening socket is watched by the main
  \<^verbatim>\<open>eloop\<close>, and an \<^verbatim>\<open>eloop_tpool\<close> of \<^verbatim>\<open>eloop_thread\<close>s with one loop each.  An accepted descriptor becomes a
  \<^verbatim>\<open>tcp_conn\<close>, held by \<^verbatim>\<open>shared_ptr\<close>, which is assigned to the pool's next loop.  A loop asks its \<^verbatim>\<open>poller\<close> for
  ready descriptors, calls the handlers of their \<^verbatim>\<open>chan\<close>s, and runs the functors that its own code and
  other threads queued with \<^verbatim>\<open>queue_in_loop\<close>; an eventfd wakes it up.  A connection collects input and
  unsent output in two \<^verbatim>\<open>buffer\<close>s, and calls the application back.  Everything logs through \<^verbatim>\<open>logger\<close> and
  \<^verbatim>\<open>logstream\<close>.  \<^verbatim>\<open>tpool\<close> is an independent pool of worker threads with a task queue.

  \<^bold>\<open>Theories and sources\<close> (paths under \<^verbatim>\<open>src/\<close>; each header also stands for its \<^verbatim>\<open>.cpp\<close> file).
  \<^item> \<open>Prelude\<close>: C++ failures as values of \<open>cxx_error\<close>, \<^verbatim>\<open>size_t\<close> arithmetic, byte arrays, C strings,
    \<^verbatim>\<open>snprintf\<close>, decimal text, \<open>ensures\<close> and the locale \<open>inductive_invariant\<close>.
  \<^item> \<open>FixedBuffer\<close>, \<open>LogStream\<close>, \<open>LogLevel\<close>, \<open>Logging\<close>: \<^verbatim>\<open>include/log/fixedbuffer.h\<close>, \<^verbatim>\<open>logstream.h\<close>,
    \<^verbatim>\<open>logging.h\<close> and \<^verbatim>\<open>include/common/time.h\<close>.  The array and its cursor, every \<^verbatim>\<open>operator<<\<close>, the logger
    with its macros and the global level, output and flush.
  \<^item> \<open>CThread\<close>, \<open>TPool\<close>: \<^verbatim>\<open>include/thread/cthread.h\<close>, \<^verbatim>\<open>thread.h\<close>, \<^verbatim>\<open>tpool.h\<close>.  The pool is a record with one
    operation per member function, and a step relation whose steps are the critical sections of the
    clients and of the workers.
  \<^item> \<open>NetBuffer\<close>, \<open>NetAddress\<close>, \<open>NetSocket\<close>: \<^verbatim>\<open>include/net/buffer.h\<close>, \<^verbatim>\<open>address.h\<close>, \<^verbatim>\<open>socket.h\<close>.
  \<^item> \<open>Chan\<close>, \<open>Poller\<close>, \<open>ELoop\<close>, \<open>ELoopThread\<close>, \<open>ELoopPool\<close>: \<^verbatim>\<open>include/net/chan.h\<close>, \<^verbatim>\<open>poller.h\<close>,
    \<^verbatim>\<open>epoll_poller.h\<close>, \<^verbatim>\<open>default_poller.cpp\<close>, \<^verbatim>\<open>eloop.h\<close>, \<^verbatim>\<open>eloop_thread.h\<close>, \<^verbatim>\<open>eloop_tpool.h\<close>.  The loop is
    both a record with operations and a machine: its thread at a program point, and clients that
    queue, wake and quit between any two of its steps.  \<open>ELoopThread\<close> embeds that machine in one with the
    owner's \<^verbatim>\<open>start_loop\<close> and destructor.
  \<^item> \<open>TcpConn\<close>, \<open>Acceptor\<close>, \<open>TcpServer\<close>: \<^verbatim>\<open>include/net/tcp_conn.h\<close>, \<^verbatim>\<open>callbacks.h\<close>, \<^verbatim>\<open>acceptor.h\<close>,
    \<^verbatim>\<open>tcp_server.h\<close>.  They act on the record \<open>net\<close>, the heap of the program: the loops and the connections
    by address, the strings of the application, and the socket calls, messages and callbacks so far;
    \<open>tcp_server\<close> extends it with the members of the server.  A lookup that finds nothing is the error
    \<open>Null_Deref\<close>, so that a use of a deleted object is visible.  \<open>server_turn\<close> is one turn of the \<^verbatim>\<open>while\<close>
    of \<^verbatim>\<open>eloop::loop\<close> with everything it calls.
  \<^item> \<open>TcpStream\<close>, \<open>TcpFrame\<close>, \<open>TcpMoves\<close>, \<open>LoopInv\<close>, \<open>ServerLife\<close>, \<open>ServerTurn\<close>, \<open>ServerReach\<close>, \<open>ConnEnd\<close>, \<open>ServerEnd\<close>, \<open>PoolEnd\<close>,
    \<open>TurnInv\<close> hold no
    further code but the proofs about connections and the server: the invariant of one connection;
    what its code leaves alone; what it may change at most; well-formed loops; the invariant of a
    whole server; that every functor, callback and turn keeps it; that it holds in every state a
    server can get into; how a connection ends; how a server does, alone and
    with pool threads; and a rule for further invariants of
    turns, for applications of the library.
  \<^item> \<open>EchoServer\<close>: \<^verbatim>\<open>test/tcp_server_test.cpp\<close>, an application, on top of all that.

  \<^bold>\<open>What stands for what.\<close>  Code that can fail returns a \<open>result\<close>, with \<open>Inl\<close> for an exception, an abort, a
  failed \<^verbatim>\<open>assert\<close> or undefined behaviour.  Machine integers are words, or integers with the wrap-around
  written out.  \<^verbatim>\<open>std::function\<close> members are Booleans, set or not, together with what calling them does:
  functors are the datatype \<open>loop_functor\<close>, channel callbacks the datatype \<open>callback\<close>.  The fields
  \<open>tc_wire\<close>, \<open>tc_accepted\<close> and \<open>tc_received\<close> of a connection and the lists of calls and messages are history variables
  that no code reads; \<open>tc_reads\<close>, \<open>tc_writes\<close> and \<open>sv_accepts\<close> number the system calls.  A \<^verbatim>\<open>shared_ptr\<close> to a
  connection is an entry of the server's map or a functor of which \<open>functor_conn\<close> says that it holds
  one; the vector of functors that ran is released at the end of \<^verbatim>\<open>do_pending_functors\<close>, and a connection
  whose last reference goes is deleted there.

  \<^bold>\<open>Parameters and assumptions.\<close>  The kernel is the record \<open>os\<close>: \<^verbatim>\<open>epoll_ctl\<close>, the eventfd, \<^verbatim>\<open>write\<close>, \<^verbatim>\<open>readv\<close>,
  \<^verbatim>\<open>accept4\<close> and the others, as functions of the number of the call; the outcome of \<^verbatim>\<open>epoll_wait\<close> is an
  argument.  The theorems assume of them what the manuals say: \<open>epoll_documented\<close> (an addition of a new
  descriptor and a change of a known one succeed), \<open>eventfd_documented\<close>, \<open>io_documented\<close> (no more bytes
  than asked for), \<open>poll_possible\<close> (only registered descriptors are reported, each once), \<open>accept_fresh\<close>
  (a new descriptor is not in use; and, as ids are 32 bits wide, the next id is not that of an open
  connection), and that \<^verbatim>\<open>listen\<close> succeeds, as the code aborts otherwise; and the theorem on the echo server, that no
  \<^verbatim>\<open>write\<close> finds the peer gone (\<open>peer_stays\<close>), as the code drops the message then.  The
  threads of the application that call \<^verbatim>\<open>send\<close> from outside have to keep the string until the loop has run
  the functor (\<open>strings_in_use_kept\<close>), as it carries a \<^verbatim>\<open>string_view\<close> only.  The application is the record
  \<open>app\<close>: for each callback, the list of things it does with the connection it is called for (\<^verbatim>\<open>send\<close>,
  \<^verbatim>\<open>shutdown\<close>, retrieving input), which \<open>app_ok\<close> only restricts to messages that fit in memory.  All
  these have example instances that satisfy them, used by the witnesses.

  \<^bold>\<open>What is shown.\<close>
  \<^item> Logging: output never leaves the buffer and drops whole items only; printed integers are the
    decimal numbers; the layout of a line.
  \<^item> Buffer: it refines a byte queue (locale \<open>byte_queue\<close>); scatter reads lose nothing.
  \<^item> Poller: the kernel's interest list follows the masks of the channels, and \<^verbatim>\<open>poll\<close> delivers to the
    right channels (locale \<open>poller_contract\<close>).
  \<^item> Loops: functors run exactly once and in order, no wake-up is lost, \<^verbatim>\<open>start_loop\<close> returns an
    initialised loop, the destructor of a waiting loop can join; the choice of loops is fair
    (locale \<open>loop_chooser\<close>).
  \<^item> Worker pool: tasks are taken in order, no wake-up is lost, and after \<^verbatim>\<open>stop\<close> every run is finite
    and leaves the queue empty.
  \<^item> Connections (locale \<open>conn_owner\<close>, interpreted by the server's \<^verbatim>\<open>remove_conn\<close>): what the kernel took
    followed by what is buffered is what was accepted; partial writes, the high-water mark, shutdown.
  \<^item> Server: in every reachable state, with any number of loops taking turns and other threads calling
    \<^verbatim>\<open>send\<close> and \<^verbatim>\<open>shutdown\<close>, a turn meets no dangling pointer and those calls are safe, the kernel's view of every connection agrees with the buffers, every connection is
    referenced and open ones are in the map, and nothing is left over when no functor waits.  A
    connection whose peer closed is deleted and its socket closed, after one turn or three; so is
    every connection when the server is destroyed, with or without pool threads.
  \<^item> Application (locale \<open>turn_invariant\<close>, interpreted by the invariant of the echo server): what a client
    gets back from the echo server is what it sent, in order, and nothing is kept unread.
  \<^item> Flaws of the code are theorems too: a lost \<^verbatim>\<open>quit\<close>, a freed string and an overtaking \<^verbatim>\<open>shutdown\<close> in
    calls from other threads, \<^verbatim>\<open>CAI_USE_POLL\<close>, an over-read of \<^verbatim>\<open>retrieve_as_string\<close>, and others.

  \<^bold>\<open>Granularity.\<close>  In \<open>ELoop\<close>, \<open>ELoopThread\<close> and \<open>TPool\<close> threads interleave between critical sections and
  atomic accesses.  In \<open>ServerReach\<close> whole turns of the loops interleave: the code a turn runs touches
  connections of its own loop only, the map belongs to the main loop, and loops meet in the
  mutex-protected queues alone.  A call of \<^verbatim>\<open>send\<close> or \<^verbatim>\<open>shutdown\<close> from another thread is one step
  between turns.  The code reads the state of the connection and queues the functor in two, without a
  lock: if the loop closes and deletes the connection in between, the functor, bound to the bare \<^verbatim>\<open>this\<close>,
  is left dangling.  That race is not covered; what the queues hold otherwise is.

  \<^bold>\<open>Termination.\<close>  All definitions are total; \<open>loop_while\<close> consumes a list of \<^verbatim>\<open>epoll_wait\<close> outcomes, one
  per turn, and says whether it ended before \<^verbatim>\<open>quit\<close>.  There is no other fuel.

  \<^bold>\<open>Not modelled.\<close>  \<^verbatim>\<open>noncopyable\<close> (no run-time behaviour), the default output of the logger (\<^verbatim>\<open>stdio\<close>),
  weak-memory effects beyond atomics and mutexes, \<^verbatim>\<open>poll_return_time_\<close> and the time stamps handed to
  message callbacks, the copies of the headers under \<^verbatim>\<open>build/\<close>, the other test programs, the Go load generator
  and the build files.  The destructor of a server with pool threads is modelled with the rest of their
  loops' runs as a parameter; its theorem instantiates that with one turn, for threads that wait in \<^verbatim>\<open>epoll_wait\<close>
  when they are asked to quit.  A thread caught between its functors and the \<^verbatim>\<open>while\<close> test leaves
  without running what was just queued, which is not covered.
\<close>

section \<open>Connections as byte streams\<close>

text \<open>A connection that a server created, established and then drove through a list of events.\<close>

definition drive_conn ::
    "os \<Rightarrow> app \<Rightarrow> tid \<Rightarrow> conn_ptr \<Rightarrow> conn_event list \<Rightarrow> tcp_server \<Rightarrow> tcp_server result" where
  "drive_conn k a cur ptr evs s =
     bind_res (establish_conn k a cur ptr s) (\<lambda>s1.
     fold_res (run_event k a (remove_conn k) cur ptr) s1 evs)"

lemma drive_conn_ensures:
  assumes "io_documented k" "app_ok a" "\<forall>ev \<in> set evs. event_ok ev"
    and "conn_at s ptr c ch" "conn_inv c (is_writing ch)" "tc_state c \<noteq> DISCONNECTED"
  shows "ensures (drive_conn k a cur ptr evs s) (\<lambda>s'. conn_ok (tc_loop c, tc_ch c) s' ptr)"
  unfolding drive_conn_def
  using conn_ok_establish [OF assms(1,2,4-6) refl] by (rule ensures_bindI) (rule srv.conn_ok_run [OF assms(1-3)])



text \<open>
  C18.  A message is sent as a whole or not at all: \<^verbatim>\<open>send_in_loop\<close> on a sound connection either adds all
  of the message to the accepted stream, whatever part of it the kernel takes at once, or leaves the
  stream as it was, and the latter only if the connection is closed, or nothing was buffered and the
  kernel reported \<^verbatim>\<open>EPIPE\<close> or \<^verbatim>\<open>ECONNRESET\<close>.  The wire only grows, and the only failure is a buffer
  beyond the maximal size of a vector.
\<close>

theorem send_in_loop_all_or_nothing:
  assumes "io_documented k" and "length data \<le> vector_max_size"
    and "conn_at s ptr c ch" and "conn_inv c (is_writing ch)"
  shows "case send_in_loop k cur ptr data s of
     Inl e \<Rightarrow> e = Length_Error
   | Inr s' \<Rightarrow> \<exists>c' ch'. conn_at s' ptr c' ch' \<and> conn_inv c' (is_writing ch') \<and>
       tc_state c' = tc_state c \<and> (\<exists>sent. tc_wire c' = tc_wire c @ sent) \<and>
       (tc_accepted c' = tc_accepted c @ data \<or>
        tc_accepted c' = tc_accepted c \<and> (tc_state c = DISCONNECTED \<or>
          contents (tc_output_buf c) = [] \<and> k_write k ptr (tc_writes c) data \<in> {Inl EPIPE, Inl ECONNRESET}))"
  using send_in_loop_ensures [OF assms, of cur]
  by (cases "send_in_loop k cur ptr data s") (auto simp: kept_conn_def peer_gone_def)

theorem send_in_loop_all_or_nothing_witness:
  "case send_in_loop os_example 7 100 ''hello'' conn_world of
     Inl e \<Rightarrow> e = Length_Error
   | Inr s' \<Rightarrow> \<exists>c' ch'. conn_at s' 100 c' ch' \<and> tc_state c' = CONNECTED \<and> tc_accepted c' = ''hello''"
proof -
  have "length ''hello'' \<le> vector_max_size" by (simp add: vector_max_size_def)
  from send_in_loop_all_or_nothing [OF os_example_io this conn_world_at conn_example_inv, of 7] show ?thesis
    by (fastforce simp: conn_example_def os_example_def split: sum.splits)
qed

text \<open>
  C12.  A write event on a connection with buffered bytes: the bytes the kernel takes move from the
  front of the output buffer to the wire and the rest stays in order; and \<^verbatim>\<open>shutdown(SHUT_WR)\<close> is
  called if and only if the application asked for it and the last byte has just been written, so
  the end of the stream never overtakes its data.
\<close>

theorem write_event_drains:
  assumes "io_documented k" and "conn_at s ptr c ch" and "conn_inv c (is_writing ch)" and "is_writing ch"
    and "k_write k ptr (tc_writes c) (contents (tc_output_buf c)) = Inr n" and "0 < n"
  shows "\<exists>s' c' ch'. handle_write k cur ptr s = Inr s' \<and> conn_at s' ptr c' ch' \<and>
     tc_wire c' = tc_wire c @ take n (contents (tc_output_buf c)) \<and>
     contents (tc_output_buf c') = drop n (contents (tc_output_buf c)) \<and>
     is_writing ch' = (contents (tc_output_buf c') \<noteq> []) \<and>
     st_calls (n_socks s') = st_calls (n_socks s) @
       (if tc_state c = DISCONNENTING \<and> contents (tc_output_buf c') = [] then [Shutdown_Wr (tc_sockfd c)] else [])"
proof -
  let ?c = "c\<lparr>tc_writes := tc_writes c + 1, tc_output_buf := retrieve (tc_output_buf c) n,
              tc_wire := tc_wire c @ take n (contents (tc_output_buf c))\<rparr>"
  have n: "n \<le> length (contents (tc_output_buf c))" using assms(1,5) by (auto simp: io_documented_def)
  have inv: "buf_inv (tc_output_buf c)" "tc_state c \<noteq> DISCONNECTED" using assms(3,4) by (auto simp: conn_inv_def)
  obtain s' ch' where s': "handle_write k cur ptr s = Inr s'" "conn_at s' ptr ?c ch'" "conn_inv ?c (is_writing ch')"
    "st_calls (n_socks s') = st_calls (n_socks s) @
       (if n = length (contents (tc_output_buf c)) \<and> tc_state c = DISCONNENTING then [Shutdown_Wr (tc_sockfd c)] else [])"
    by (rule handle_write_progress [OF assms, of cur])
  have out: "contents (tc_output_buf ?c) = drop n (contents (tc_output_buf c))"
    using inv(1) by (simp add: contents_retrieve)
  have "is_writing ch' = (contents (tc_output_buf ?c) \<noteq> [])" using s'(3) inv(2) by (simp add: conn_inv_def)
  moreover have "n = length (contents (tc_output_buf c)) \<longleftrightarrow> contents (tc_output_buf ?c) = []"
    using out n by auto
  ultimately show ?thesis
    using s' out by (intro exI [of _ s'] exI [of _ ?c] exI [of _ ch']) auto
qed

text \<open>The connection of the example with five bytes buffered and write events asked for.\<close>

definition busy_conn :: tcp_conn where
  "busy_conn = conn_example\<lparr>tc_state := DISCONNENTING, tc_accepted := ''hello'',
     tc_output_buf := \<lparr>buf = replicate 8 NUL @ ''hello'', reader_index = 8, writer_index = 13\<rparr>\<rparr>"

definition busy_chan :: chan where
  "busy_chan = chan_mask Enable_Writing (chan_new 6)"

definition busy_world :: tcp_server where
  "busy_world = conn_world\<lparr>n_conns := [100 \<mapsto> busy_conn],
     n_loops := (\<lambda>_. loop_example\<lparr>el_chans := [101 \<mapsto> busy_chan]\<rparr>)\<rparr>"

lemma busy_world_at [simp]: "conn_at busy_world 100 busy_conn busy_chan"
  by (simp add: conn_at_def busy_world_def busy_conn_def conn_example_def loop_example_def)

lemma busy_writing [simp]: "is_writing busy_chan"
  by (simp add: busy_chan_def)

lemma busy_contents [simp]: "contents (tc_output_buf busy_conn) = ''hello''"
  by (simp add: busy_conn_def contents_def slice_def)

lemma busy_conn_fields [simp]:
  "tc_wire busy_conn = []" "tc_state busy_conn = DISCONNENTING" "tc_sockfd busy_conn = 6" "tc_loop busy_conn = 0"
  "tc_high_water_mark busy_conn = 10" "tc_high_water_mark_callback busy_conn"
  by (simp_all add: busy_conn_def conn_example_def)

lemma busy_loops [simp]: "n_loops busy_world = (\<lambda>_. loop_example\<lparr>el_chans := [101 \<mapsto> busy_chan]\<rparr>)"
  by (simp add: busy_world_def)

lemma busy_conn_inv [simp]: "conn_inv busy_conn (is_writing busy_chan)"
  using busy_contents
  by (simp add: conn_inv_def busy_conn_def conn_example_def buf_inv_def CHEAP_PREPEND_def vector_max_size_def
      del: busy_contents) (simp add: buffer_example_def contents_def slice_def)

theorem write_event_drains_witness:
  "\<exists>s' c' ch'. handle_write os_example 7 100 busy_world = Inr s' \<and> conn_at s' 100 c' ch' \<and>
     tc_wire c' = ''hello'' \<and> contents (tc_output_buf c') = [] \<and> \<not> is_writing ch' \<and>
     st_calls (n_socks s') = st_calls (n_socks busy_world) @ [Shutdown_Wr 6]"
proof -
  have "k_write os_example 100 (tc_writes busy_conn) (contents (tc_output_buf busy_conn)) = Inr 5" "0 < (5 :: nat)"
    by (simp_all add: os_example_def)
  from write_event_drains [OF os_example_io busy_world_at busy_conn_inv busy_writing this, of 7] show ?thesis
    by auto
qed

text \<open>
  C24.  The high-water-mark callback is queued exactly when the output buffer crosses the mark: a
  message sent while bytes are buffered queues the callback, once and with the new size, if and only
  if a callback is set and the size goes from below the mark to the mark or above; it queues nothing
  else.
\<close>

theorem high_water_mark_on_crossing:
  assumes "conn_at s ptr c ch" and "conn_inv c (is_writing ch)" and "is_writing ch"
    and "length (contents (tc_output_buf c)) + length data < size_mod"
    and "send_in_loop k cur ptr data s = Inr s'"
  defines "old \<equiv> length (contents (tc_output_buf c))"
  shows "el_pending_functors (n_loops s' (tc_loop c)) = el_pending_functors (n_loops s (tc_loop c)) @
     (if tc_high_water_mark_callback c \<and> old < tc_high_water_mark c \<and> tc_high_water_mark c \<le> old + length data
      then [F_high_water_mark ptr (old + length data)] else [])"
proof -
  have inv: "tc_state c \<noteq> DISCONNECTED" "readable_bytes (tc_output_buf c) = old"
    using assms(2,3) by (auto simp: conn_inv_def readable_contents old_def)
  let ?c = "c\<lparr>tc_accepted := tc_accepted c @ data\<rparr>"
  let ?s = "put_conn ptr ?c s"
  have at: "conn_at ?s ptr ?c ch" using assms(1) by (rule conn_at_put) simp_all
  have conn: "n_conns s ptr = Some c" using assms(1) by (simp add: conn_at_def)
  have eq: "send_in_loop k cur ptr data s =
      (if data \<noteq> [] then send_rest k cur ptr data 0 (length data) ?s else Inr ?s)"
    using assms(1,3) inv(1) conn by (simp add: send_in_loop_def send_write_def)
  have add: "size_add old (length data) = old + length data" using assms(4) by (simp add: old_def)
  show ?thesis
  proof (cases "data = []")
    case True
    with eq assms(5) show ?thesis by (auto simp: put_conn_def)
  next
    case False
    let ?w = "if old + length data \<ge> tc_high_water_mark c \<and> old < tc_high_water_mark c \<and> tc_high_water_mark_callback c
      then net_queue k cur (tc_loop c) (F_high_water_mark ptr (old + length data)) ?s else ?s"
    have "send_rest k cur ptr data 0 (length data) ?s =
        bind_res (buffer_append (tc_output_buf c) data (length data))
          (\<lambda>b. Inr (put_conn ptr (?c\<lparr>tc_output_buf := b\<rparr>) ?w))"
      unfolding send_rest_def with_conn_at [OF at] Let_def by (simp add: inv(2) add assms(3) cong: if_cong)
    with eq False assms(5) have "bind_res (buffer_append (tc_output_buf c) data (length data))
          (\<lambda>b. Inr (put_conn ptr (?c\<lparr>tc_output_buf := b\<rparr>) ?w)) = Inr s'" by (simp only: if_True not_False_eq_True)
    then obtain b where "s' = put_conn ptr (?c\<lparr>tc_output_buf := b\<rparr>) ?w"
      by (cases "buffer_append (tc_output_buf c) data (length data)") auto
    then have "n_loops s' = n_loops ?w" by (simp only:) (simp add: put_conn_def)
    then show ?thesis by (simp add: queue_pending)
  qed
qed

theorem high_water_mark_on_crossing_witness:
  "case send_in_loop os_example 7 100 ''abcdefg'' busy_world of
     Inl e \<Rightarrow> e = Length_Error
   | Inr s' \<Rightarrow> el_pending_functors (n_loops s' 0) = [F_high_water_mark 100 12]"
proof -
  let ?r = "send_in_loop os_example 7 100 ''abcdefg'' busy_world"
  have "ensures ?r (\<lambda>s'. True)"
    using send_in_loop_ensures [OF os_example_io _ busy_world_at busy_conn_inv, of "''abcdefg''" 7]
    by (rule ensures_mono) (simp_all add: vector_max_size_def)
  moreover have "?r = Inr s' \<Longrightarrow> el_pending_functors (n_loops s' 0) = [F_high_water_mark 100 12]" for s'
    using high_water_mark_on_crossing [OF busy_world_at busy_conn_inv busy_writing, of "''abcdefg''" os_example 7 s']
    by (simp add: loop_example_def)
  ultimately show ?thesis by (simp add: ensures_def split: sum.splits)
qed

text \<open>
  C40.  A shutdown from another thread can overtake data: the other thread calls \<^verbatim>\<open>send\<close> and then
  \<^verbatim>\<open>shutdown\<close>, which are queued in this order, but \<^verbatim>\<open>shutdown\<close> has set the state at once; if a write event
  then flushes older bytes, \<^verbatim>\<open>shutdown(SHUT_WR)\<close> is called while the functor with the data is still
  waiting to be run.
\<close>

theorem remote_shutdown_overtakes_send:
  assumes "io_documented k" and "conn_at s ptr c ch" and "conn_inv c (is_writing ch)" and "is_writing ch"
    and "tc_state c = CONNECTED" and "el_thread_id (n_loops s (tc_loop c)) \<noteq> cur"
    and "k_write k ptr (tc_writes c) (contents (tc_output_buf c)) = Inr (length (contents (tc_output_buf c)))"
  shows "\<exists>s1 s2 s3. tcp_conn_send k cur ptr addr data s = Inr s1 \<and> tcp_conn_shutdown k cur ptr s1 = Inr s2 \<and>
     handle_write k (el_thread_id (n_loops s (tc_loop c))) ptr s2 = Inr s3 \<and>
     Shutdown_Wr (tc_sockfd c) \<in> set (st_calls (n_socks s3)) \<and>
     F_send_in_loop ptr addr (length data) \<in> set (el_pending_functors (n_loops s3 (tc_loop c)))"
proof -
  let ?io = "el_thread_id (n_loops s (tc_loop c))" and ?c = "c\<lparr>tc_state := DISCONNENTING\<rparr>"
  let ?s1 = "net_queue k cur (tc_loop c) (F_send_in_loop ptr addr (length data)) s"
  let ?s2 = "net_queue k cur (tc_loop c) (F_shutdown_in_loop ptr) (put_conn ptr ?c ?s1)"
  have s1: "tcp_conn_send k cur ptr addr data s = Inr ?s1"
    using assms(2,5,6) by (simp add: tcp_conn_send_def eloop_is_in_loop_thread_def)
  have at1: "conn_at ?s1 ptr c ch" using assms(2) by simp
  have s2: "tcp_conn_shutdown k cur ptr ?s1 = Inr ?s2"
    using at1 assms(5,6)
    by (simp add: tcp_conn_shutdown_def eloop_is_in_loop_thread_def Let_def)
  have at2: "conn_at ?s2 ptr ?c ch" using conn_at_put [OF at1, of ?c] by simp
  have inv2: "conn_inv ?c (is_writing ch)" using assms(3,5) by (simp add: conn_inv_def)
  let ?out = "contents (tc_output_buf ?c)"
  have wr: "k_write k ptr (tc_writes ?c) ?out = Inr (length ?out)" "0 < length ?out"
    using assms(3,4,5,7) by (auto simp: conn_inv_def)
  obtain s3 where s3: "handle_write k ?io ptr ?s2 = Inr s3"
    "st_calls (n_socks s3) = st_calls (n_socks ?s2) @
       (if length ?out = length (contents (tc_output_buf ?c)) \<and> tc_state ?c = DISCONNENTING
        then [Shutdown_Wr (tc_sockfd ?c)] else [])"
    by (rule handle_write_progress [OF assms(1) at2 inv2 assms(4) wr, of ?io])
  have "F_send_in_loop ptr addr (length data) \<in> set (el_pending_functors (n_loops ?s2 (tc_loop c)))"
    by (simp add: queue_pending)
  with handle_write_pending [OF s3(1), of "tc_loop c"] s1 s2 s3 show ?thesis by auto
qed

text \<open>The same connection before its application asked for the shutdown.\<close>

definition open_world :: tcp_server where
  "open_world = busy_world\<lparr>n_conns := [100 \<mapsto> busy_conn\<lparr>tc_state := CONNECTED\<rparr>]\<rparr>"

theorem remote_shutdown_overtakes_send_witness:
  "\<exists>s1 s2 s3. tcp_conn_send os_example 8 100 1 ''bye'' open_world = Inr s1 \<and>
     tcp_conn_shutdown os_example 8 100 s1 = Inr s2 \<and> handle_write os_example 7 100 s2 = Inr s3 \<and>
     Shutdown_Wr 6 \<in> set (st_calls (n_socks s3)) \<and>
     F_send_in_loop 100 1 (length ''bye'') \<in> set (el_pending_functors (n_loops s3 0))"
proof -
  let ?c = "busy_conn\<lparr>tc_state := CONNECTED\<rparr>"
  have at: "conn_at open_world 100 ?c busy_chan"
    by (simp add: open_world_def conn_at_def busy_world_def busy_conn_def conn_example_def loop_example_def)
  have inv: "conn_inv ?c (is_writing busy_chan)" using busy_conn_inv by (auto simp: conn_inv_def)
  have hyps: "tc_state ?c = CONNECTED" "el_thread_id (n_loops open_world (tc_loop ?c)) = 7"
    "k_write os_example 100 (tc_writes ?c) (contents (tc_output_buf ?c)) = Inr (length (contents (tc_output_buf ?c)))"
    by (simp_all add: open_world_def busy_world_def loop_example_def os_example_def)
  from remote_shutdown_overtakes_send [OF os_example_io at inv busy_writing hyps(1) _ hyps(3), of 8 1 "''bye''"] hyps(2)
  show ?thesis by simp
qed

text \<open>
  C39.  A send from another thread passes the address of the caller's string, not its bytes: if that
  string is gone when the loop runs the functor, the loop reads memory that is no longer there.
\<close>

theorem remote_send_reads_freed_string:
  assumes "conn_at s ptr c ch" and "tc_state c = CONNECTED" and "el_thread_id (n_loops s (tc_loop c)) \<noteq> cur"
  shows "\<exists>s'. tcp_conn_send k cur ptr addr data s = Inr s' \<and>
     last (el_pending_functors (n_loops s' (tc_loop c))) = F_send_in_loop ptr addr (length data) \<and>
     run_functor k a io (s'\<lparr>n_strings := (n_strings s')(addr := None)\<rparr>)
       (F_send_in_loop ptr addr (length data)) = Inl Out_Of_Bounds"
proof -
  let ?s = "net_queue k cur (tc_loop c) (F_send_in_loop ptr addr (length data)) s"
  have "tcp_conn_send k cur ptr addr data s = Inr ?s"
    using assms by (simp add: tcp_conn_send_def eloop_is_in_loop_thread_def)
  then show ?thesis by (simp add: queue_pending run_functor_def run_send_functor_def)
qed

theorem remote_send_reads_freed_string_witness:
  "\<exists>s'. tcp_conn_send os_example 8 100 1 ''hello'' conn_world = Inr s' \<and>
     run_functor os_example app_example 7 (s'\<lparr>n_strings := (n_strings s')(1 := None)\<rparr>)
       (F_send_in_loop 100 1 5) = Inl Out_Of_Bounds"
proof -
  have "tc_state conn_example = CONNECTED" "el_thread_id (n_loops conn_world (tc_loop conn_example)) \<noteq> 8"
    by (simp_all add: conn_example_def conn_world_def loop_example_def)
  from remote_send_reads_freed_string [OF conn_world_at this, of os_example 1 "''hello''" app_example 7]
  show ?thesis by (auto simp: numeral_eq_Suc)
qed

end
